(* ===== verification/Kinz_Prelude.thy ===== *)
theory Kinz_Prelude
  imports Main "HOL-Library.Word"
begin

text \<open>
  Shared vocabulary of the development: the machine types of the Go sources as type synonyms,
  Go's 64-bit signed wrap-around, the decimal printing that \<^verbatim>\<open>fmt\<close> performs inside error
  texts, the error values of \<^verbatim>\<open>src/kiface/errors.go\<close>, and the generic list lemmas and theorem
  collections that the component theories share.
\<close>

unbundle bit_operations_syntax

section \<open>Machine types\<close>

type_synonym u8 = "8 word"
type_synonym u32 = "32 word"
type_synonym u64 = "64 word"
type_synonym bytes = "u8 list"

text \<open>
  Go's \<^verbatim>\<open>int\<close>, \<^verbatim>\<open>int64\<close> and \<^verbatim>\<open>time.Duration\<close> are 64-bit two's complement values. They are kept as
  \<^typ>\<open>int\<close>; an operation that can leave the range is followed by \<open>wrap64\<close>.
\<close>

definition wrap64 :: "int \<Rightarrow> int" where
  "wrap64 n = (n + 2 ^ 63) mod 2 ^ 64 - 2 ^ 63"

definition in_int64 :: "int \<Rightarrow> bool" where
  "in_int64 n \<longleftrightarrow> - (2 ^ 63) \<le> n \<and> n < 2 ^ 63"

lemma wrap64_id [simp]: "in_int64 n \<Longrightarrow> wrap64 n = n"
  by (simp add: wrap64_def in_int64_def)

lemma wrap64_range [simp]: "in_int64 (wrap64 n)"
proof -
  have "0 \<le> (n + 2 ^ 63) mod 2 ^ 64" and "(n + 2 ^ 63) mod 2 ^ 64 < 2 ^ 64"
    by simp_all
  then show ?thesis
    by (simp add: wrap64_def in_int64_def)
qed

section \<open>Theorem collections\<close>

named_theorems inv_intros \<open>each operation keeps its component's invariant\<close>
named_theorems frame_simps \<open>fields that an operation leaves alone\<close>

section \<open>Decimal text\<close>

text \<open>
  Strings are byte sequences in Go, so text is \<^typ>\<open>bytes\<close>; \<open>str\<close> turns an ASCII literal into its bytes.
\<close>

definition str :: "string \<Rightarrow> bytes" where
  "str s = map (\<lambda>c. of_nat (of_char c)) s"

fun digits_of :: "nat \<Rightarrow> bytes" where
  "digits_of n = (if n < 10 then [of_nat (48 + n)]
                  else digits_of (n div 10) @ [of_nat (48 + n mod 10)])"

declare digits_of.simps [simp del]

definition itoa :: "int \<Rightarrow> bytes" where
  "itoa n = (if n < 0 then 45 # digits_of (nat (- n)) else digits_of (nat n))"

lemma digits_of_small: "n < 10 \<Longrightarrow> digits_of n = [of_nat (48 + n)]"
  by (simp add: digits_of.simps [of n])

lemma digits_of_large: "\<not> n < 10 \<Longrightarrow> digits_of n = digits_of (n div 10) @ [of_nat (48 + n mod 10)]"
  by (simp add: digits_of.simps [of n])

lemma digits_of_not_Nil [simp]: "digits_of n \<noteq> []"
  by (subst digits_of.simps) simp

section \<open>Errors\<close>

text \<open>The sentinel errors of \<^verbatim>\<open>src/kiface/errors.go\<close>.\<close>

datatype sentinel =
    ErrServerClosed
  | ErrConnClosed
  | ErrTooLargePacket
  | ErrServerFull
  | ErrProtocol
  | ErrTimeout
  | ErrConnNotFound
  | ErrMsgIDRegistered
  | ErrNotImplemented

fun sentinel_text :: "sentinel \<Rightarrow> bytes" where
  "sentinel_text ErrServerClosed = str ''kinz: server is closed''"
| "sentinel_text ErrConnClosed = str ''kinz: connection is closed''"
| "sentinel_text ErrTooLargePacket = str ''kinz: packet exceeds max size''"
| "sentinel_text ErrServerFull = str ''kinz: server reached max connections''"
| "sentinel_text ErrProtocol = str ''kinz: protocol error''"
| "sentinel_text ErrTimeout = str ''kinz: operation timed out''"
| "sentinel_text ErrConnNotFound = str ''kinz: connection not found''"
| "sentinel_text ErrMsgIDRegistered = str ''kinz: message id already registered''"
| "sentinel_text ErrNotImplemented = str ''kinz: not implemented''"

text \<open>
  An \<^verbatim>\<open>error\<close> value: a sentinel itself, a sentinel wrapped by \<^verbatim>\<open>fmt.Errorf("%w...")\<close> with the text that
  follows it, or an error without a sentinel (\<^verbatim>\<open>errors.New\<close>, \<^verbatim>\<open>fmt.Errorf\<close> without \<^verbatim>\<open>%w\<close>).
\<close>

datatype go_error =
    Sentinel sentinel
  | Wrapped sentinel bytes
  | Plain bytes

fun error_text :: "go_error \<Rightarrow> bytes" where
  "error_text (Sentinel s) = sentinel_text s"
| "error_text (Wrapped s t) = sentinel_text s @ t"
| "error_text (Plain t) = t"

text \<open>\<^verbatim>\<open>errors.Is\<close> on these values.\<close>

fun errors_is :: "go_error \<Rightarrow> sentinel \<Rightarrow> bool" where
  "errors_is (Sentinel s) s' \<longleftrightarrow> s = s'"
| "errors_is (Wrapped s t) s' \<longleftrightarrow> s = s'"
| "errors_is (Plain t) s' \<longleftrightarrow> False"

section \<open>Panics\<close>

text \<open>The outcome of Go code that may panic (an index or slice bound out of range, a nil dereference).\<close>

datatype 'a outcome = Panic | Ret 'a

section \<open>Generic lemmas\<close>

text \<open>Keeping at most the last \<open>n\<close> elements of a list.\<close>

definition keep_last :: "nat \<Rightarrow> 'a list \<Rightarrow> 'a list" where
  "keep_last n xs = drop (length xs - n) xs"

lemma keep_last_all [simp]: "length xs \<le> n \<Longrightarrow> keep_last n xs = xs"
  by (simp add: keep_last_def)

lemma length_keep_last [simp]: "length (keep_last n xs) = min n (length xs)"
  by (simp add: keep_last_def)

lemma keep_last_keep_last [simp]: "keep_last n (keep_last n xs @ ys) = keep_last n (xs @ ys)"
proof (cases "length xs \<le> n")
  case False
  then have "length xs - n + (n + length ys - n) = length xs + length ys - n" by simp
  with False show ?thesis by (simp add: keep_last_def add.commute)
qed simp

lemma nth_append_offset: "i < length ys \<Longrightarrow> (xs @ ys) ! (length xs + i) = ys ! i"
  by (simp add: nth_append)

end
