(* ===== verification/Kinz_Ring.thy ===== *)
theory Kinz_Ring
  imports Kinz_Prelude
begin

text \<open>
  The log ring buffer (\<^verbatim>\<open>src/klog/ringbuffer.go\<close>): a fixed byte array with a start index and a length. The
  locale \<open>bounded_sink\<close> is the contract its users (the MCP \<^verbatim>\<open>get_logs\<close> tool) rely on: the content is the
  last \<open>cap\<close> bytes of everything written.
\<close>

section \<open>Model\<close>

record RingBuffer =
  buf :: bytes
  cap :: nat
  start :: nat
  len :: nat

definition NewRingBuffer :: "int \<Rightarrow> RingBuffer" where
  "NewRingBuffer capacity =
     (let c = nat (if capacity \<le> 0 then 64 * 1024 else capacity)
      in \<lparr>buf = replicate c 0, cap = c, start = 0, len = 0\<rparr>)"

definition write_byte :: "u8 \<Rightarrow> RingBuffer \<Rightarrow> RingBuffer" where
  "write_byte b r =
     (if len r < cap r
      then r\<lparr>buf := (buf r)[(start r + len r) mod cap r := b], len := len r + 1\<rparr>
      else r\<lparr>buf := (buf r)[start r := b], start := (start r + 1) mod cap r\<rparr>)"

definition Write :: "bytes \<Rightarrow> RingBuffer \<Rightarrow> nat \<times> RingBuffer" where
  "Write p r = (length p, fold write_byte p r)"

definition Bytes :: "RingBuffer \<Rightarrow> bytes" where
  "Bytes r = map (\<lambda>i. buf r ! ((start r + i) mod cap r)) [0..<len r]"

text \<open>\<^verbatim>\<open>strings.Split(content, "\n")\<close>.\<close>

fun split_nl :: "bytes \<Rightarrow> bytes list" where
  "split_nl [] = [[]]"
| "split_nl (b # bs) =
     (if b = 10 then [] # split_nl bs
      else case split_nl bs of [] \<Rightarrow> [[b]] | l # ls \<Rightarrow> (b # l) # ls)"

text \<open>
  The result is a slice, \<^const>\<open>None\<close> when nil. \<^verbatim>\<open>parts[len(parts)-n:]\<close> panics for a negative \<^verbatim>\<open>n\<close>: the low bound is past the
  length.
\<close>

definition Lines :: "int \<Rightarrow> RingBuffer \<Rightarrow> bytes list option outcome" where
  "Lines n r =
     (let content = Bytes r in
      if content = [] then Ret None
      else let parts = split_nl content;
               parts = (if parts \<noteq> [] \<and> last parts = [] then butlast parts else parts)
           in if int (length parts) \<le> n then Ret (Some parts)
              else if n < 0 then Panic
              else Ret (Some (drop (nat (int (length parts) - n)) parts)))"

definition ring_inv :: "RingBuffer \<Rightarrow> bool" where
  "ring_inv r \<longleftrightarrow> 0 < cap r \<and> length (buf r) = cap r \<and> start r < cap r \<and> len r \<le> cap r"

section \<open>The contract of a bounded sink\<close>

locale bounded_sink =
  fixes put :: "bytes \<Rightarrow> 's \<Rightarrow> nat \<times> 's"
    and contents :: "'s \<Rightarrow> bytes"
    and capacity :: "'s \<Rightarrow> nat"
    and inv :: "'s \<Rightarrow> bool"
  assumes write_inv: "inv s \<Longrightarrow> inv (snd (put p s))"
    and write_capacity: "capacity (snd (put p s)) = capacity s"
    and write_all: "fst (put p s) = length p"
    and write_contents: "inv s \<Longrightarrow> contents (snd (put p s)) = keep_last (capacity s) (contents s @ p)"
    and contents_bound: "inv s \<Longrightarrow> length (contents s) \<le> capacity s"
begin

abbreviation write_list :: "bytes list \<Rightarrow> 's \<Rightarrow> 's" where
  "write_list ps s \<equiv> fold (\<lambda>p s. snd (put p s)) ps s"

lemma write_list_capacity: "capacity (write_list ps s) = capacity s"
  by (induction ps arbitrary: s) (simp_all add: write_capacity)

lemma write_list_inv: "inv s \<Longrightarrow> inv (write_list ps s)"
  by (induction ps arbitrary: s) (simp_all add: write_inv)

lemma write_list_contents:
  "inv s \<Longrightarrow> contents (write_list ps s) = keep_last (capacity s) (contents s @ concat ps)"
proof (induction ps arbitrary: s)
  case Nil
  then show ?case by (simp add: contents_bound)
next
  case (Cons p ps)
  then show ?case
    by (simp add: write_inv write_capacity write_contents)
qed

end

section \<open>The ring keeps the contract\<close>

lemma ring_inv_New [inv_intros]: "ring_inv (NewRingBuffer c)"
  by (simp add: ring_inv_def NewRingBuffer_def Let_def)

lemma Bytes_New [simp]: "Bytes (NewRingBuffer c) = []"
  by (simp add: Bytes_def NewRingBuffer_def Let_def)

lemma length_Bytes [simp]: "length (Bytes r) = len r"
  by (simp add: Bytes_def)

lemma write_byte_inv [inv_intros]: "ring_inv r \<Longrightarrow> ring_inv (write_byte b r)"
  by (auto simp: ring_inv_def write_byte_def)

lemma cap_write_byte [simp]: "cap (write_byte b r) = cap r"
  by (simp add: write_byte_def)

lemma slot_inj_le:
  assumes "i \<le> j" and "j < c" and "((s :: nat) + i) mod c = (s + j) mod c"
  shows "i = j"
  using assms mod_eq_dvd_iff_nat [of "s + i" "s + j" c] by (auto dest: dvd_imp_le)

lemma slot_neq:
  assumes "i < c" and "j < c" and "i \<noteq> j"
  shows "((s :: nat) + i) mod c \<noteq> (s + j) mod c"
  using assms slot_inj_le [of i j c s] slot_inj_le [of j i c s] by (metis nat_le_linear)

lemma Bytes_write_byte_room:
  assumes "ring_inv r" and "len r < cap r"
  shows "Bytes (write_byte b r) = Bytes r @ [b]"
proof -
  have "(start r + len r) mod cap r \<noteq> (start r + i) mod cap r" if "i < len r" for i
    using that assms(2) by (intro slot_neq) auto
  with assms show ?thesis
    by (auto simp: Bytes_def write_byte_def ring_inv_def)
qed

lemma Bytes_write_byte_full:
  assumes "ring_inv r" and full: "len r = cap r"
  shows "Bytes (write_byte b r) = tl (Bytes r) @ [b]"
proof (rule nth_equalityI)
  show "length (Bytes (write_byte b r)) = length (tl (Bytes r) @ [b])"
    using assms by (simp add: write_byte_def ring_inv_def)
  fix i assume "i < length (Bytes (write_byte b r))"
  then have i: "i < cap r" using full by (simp add: write_byte_def)
  have slot: "Bytes (write_byte b r) ! i = (buf r)[start r := b] ! ((start r + Suc i) mod cap r)"
    using i full by (simp add: Bytes_def write_byte_def mod_add_left_eq)
  show "Bytes (write_byte b r) ! i = (tl (Bytes r) @ [b]) ! i"
  proof (cases "Suc i = cap r")
    case True
    with assms show ?thesis
      by (auto simp: slot ring_inv_def nth_append)
  next
    case False
    then have i': "Suc i < cap r" using i by simp
    then have "(tl (Bytes r) @ [b]) ! i = buf r ! ((start r + Suc i) mod cap r)"
      using full by (auto simp: nth_append nth_tl Bytes_def)
    with assms slot_neq [of "Suc i" "cap r" 0 "start r"] i' show ?thesis
      by (simp add: slot ring_inv_def)
  qed
qed

lemma Bytes_write_byte:
  assumes "ring_inv r"
  shows "Bytes (write_byte b r) = keep_last (cap r) (Bytes r @ [b])"
proof (cases "len r < cap r")
  case True
  with assms show ?thesis by (simp add: Bytes_write_byte_room)
next
  case False
  then have "len r = cap r" using assms by (simp add: ring_inv_def)
  with assms show ?thesis
    by (cases "Bytes r") (auto simp: Bytes_write_byte_full keep_last_def ring_inv_def dest: arg_cong [where f = length])
qed

lemma fold_write_byte:
  assumes "ring_inv r"
  shows "ring_inv (fold write_byte p r) \<and> cap (fold write_byte p r) = cap r \<and>
         Bytes (fold write_byte p r) = keep_last (cap r) (Bytes r @ p)"
  using assms
proof (induction p arbitrary: r)
  case Nil
  then show ?case by (simp add: ring_inv_def)
next
  case (Cons b p)
  then show ?case
    by (simp add: write_byte_inv Bytes_write_byte)
qed

lemma cap_fold_write_byte [simp]: "cap (fold write_byte p r) = cap r"
  by (induction p arbitrary: r) simp_all

interpretation ring: bounded_sink Write Bytes cap ring_inv
  by unfold_locales (simp_all add: Write_def fold_write_byte, simp add: ring_inv_def)

section \<open>Lines\<close>

definition log_lines :: "bytes \<Rightarrow> bytes list" where
  "log_lines content =
     (if content = [] then []
      else let parts = split_nl content in if last parts = [] then butlast parts else parts)"

lemma split_nl_not_Nil [simp]: "split_nl bs \<noteq> []"
  by (induction bs) (auto split: list.splits)

lemma Lines_log_lines:
  "Lines n r = (if Bytes r = [] then Ret None
     else if n < 0 then Panic else Ret (Some (keep_last (nat n) (log_lines (Bytes r)))))"
  by (auto simp: Lines_def log_lines_def keep_last_def Let_def nat_diff_distrib' not_le)

lemma split_nl_line: "10 \<notin> set l \<Longrightarrow> split_nl (l @ 10 # bs) = l # split_nl bs"
  by (induction l) auto

lemma split_nl_lines:
  "\<forall>l \<in> set ls. 10 \<notin> set l \<Longrightarrow> split_nl (concat (map (\<lambda>l. l @ [10]) ls)) = ls @ [[]]"
  by (induction ls) (simp_all add: split_nl_line)

lemma log_lines_lines:
  assumes "\<forall>l \<in> set ls. 10 \<notin> set l"
  shows "log_lines (concat (map (\<lambda>l. l @ [10]) ls)) = ls"
  using split_nl_lines [OF assms] by (auto simp: log_lines_def Let_def)

lemma split_nl_inverse: "concat (map (\<lambda>l. l @ [10]) (split_nl bs)) = bs @ [10]"
  by (induction bs) (auto split: list.splits)

section \<open>Properties\<close>

text \<open>
  C23: the ring buffer is a faithful window: whatever sequence of writes is made to a new buffer, each write
  reports that all its bytes were taken, and the content is exactly the last \<^verbatim>\<open>cap\<close> bytes of the concatenation of
  everything written.
\<close>

theorem ring_window:
  "Bytes (fold (\<lambda>p r. snd (Write p r)) ps (NewRingBuffer c)) =
     keep_last (cap (NewRingBuffer c)) (concat ps) \<and> fst (Write p r) = length p"
  using ring.write_list_contents [OF ring_inv_New] by (simp add: ring.write_all)

text \<open>
  \<^verbatim>\<open>Lines\<close> returns the last \<^verbatim>\<open>n\<close> log lines: when newline-free lines, each followed by a newline, were
  written and fit into the buffer, \<^verbatim>\<open>Lines(n)\<close> with \<open>n \<ge> 0\<close> does not panic and returns exactly the last \<open>n\<close> of them, nil when there
  is none. Empty lines are returned like others, although the comment on \<^verbatim>\<open>Lines\<close> speaks of non-empty ones.
\<close>

theorem ring_lines_written:
  assumes "\<forall>l \<in> set ls. 10 \<notin> set l"
    and "length (concat (map (\<lambda>l. l @ [10]) ls)) \<le> cap (NewRingBuffer c)" and "0 \<le> n"
  shows "Lines n (fold (\<lambda>p r. snd (Write p r)) (map (\<lambda>l. l @ [10]) ls) (NewRingBuffer c)) =
           Ret (if ls = [] then None else Some (keep_last (nat n) ls))"
proof -
  have "Bytes (fold (\<lambda>p r. snd (Write p r)) (map (\<lambda>l. l @ [10]) ls) (NewRingBuffer c)) =
      concat (map (\<lambda>l. l @ [10]) ls)"
    using ring.write_list_contents [OF ring_inv_New] assms(2) by simp
  with assms show ?thesis by (simp add: Lines_log_lines log_lines_lines)
qed

theorem ring_lines_written_witness:
  "Lines 2 (fold (\<lambda>p r. snd (Write p r)) (map (\<lambda>l. l @ [10]) [[97], [], [98, 99]]) (NewRingBuffer 16)) =
     Ret (Some [[], [98, 99]])"
  using ring_lines_written [of "[[97], [], [98, 99]]" 16 2]
  by (simp add: NewRingBuffer_def keep_last_def)

end
