(* ===== verification/Kinz_Pool.thy ===== *)
theory Kinz_Pool
  imports Kinz_Prelude
begin

text \<open>
  The size-classed buffers of \<^verbatim>\<open>src/kpool/pool.go\<close>, from which every connection takes its read buffer. The locale
  \<open>buffer_pool\<close> is what the reader relies on: a buffer is at least as long as asked for, whatever was put back before.
\<close>

section \<open>Slices and pools\<close>

text \<open>
  A byte slice: its backing array from the slice's first element on, so that \<^verbatim>\<open>cap\<close> is its length, and its \<^verbatim>\<open>len\<close>.
\<close>

record slice =
  backing :: bytes
  slen :: nat

definition slice_ok :: "slice \<Rightarrow> bool" where
  "slice_ok b \<longleftrightarrow> slen b \<le> length (backing b)"

definition make_slice :: "nat \<Rightarrow> slice" where
  "make_slice n = \<lparr>backing = replicate n 0, slen = n\<rparr>"

definition classes :: "nat list" where
  "classes = [4096, 16384, 65536]"

definition putPoison :: u8 where
  "putPoison = 0xAA"

text \<open>
  The free buffers of each \<^verbatim>\<open>sync.Pool\<close>. Which one a \<^verbatim>\<open>Get\<close> returns, or whether it makes a new one, is not specified:
  \<open>pick\<close> is that choice.
\<close>

type_synonym pools = "slice list list"

definition new_pools :: pools where
  "new_pools = replicate (length classes) []"

definition pool_Get :: "nat option \<Rightarrow> nat \<Rightarrow> pools \<Rightarrow> slice \<times> pools" where
  "pool_Get pick i ps =
     (case pick of
        Some j \<Rightarrow> if j < length (ps ! i) then (ps ! i ! j, ps[i := take j (ps ! i) @ drop (Suc j) (ps ! i)])
                  else (make_slice (classes ! i), ps)
      | None \<Rightarrow> (make_slice (classes ! i), ps))"

text \<open>The first index of a list whose element satisfies a test: the \<^verbatim>\<open>for i, c := range classes\<close> loops.\<close>

fun first_index :: "('a \<Rightarrow> bool) \<Rightarrow> 'a list \<Rightarrow> nat option" where
  "first_index P [] = None"
| "first_index P (x # xs) = (if P x then Some 0 else map_option Suc (first_index P xs))"

definition Get_buf :: "nat option \<Rightarrow> int \<Rightarrow> pools \<Rightarrow> slice \<times> pools" where
  "Get_buf pick n ps =
     (case first_index (\<lambda>c. n \<le> int c) classes of
        Some i \<Rightarrow> pool_Get pick i ps
      | None \<Rightarrow> (make_slice (nat n), ps))"

text \<open>\<^verbatim>\<open>buf[i] = v\<close> panics out of range.\<close>

definition slice_set :: "int \<Rightarrow> u8 \<Rightarrow> slice \<Rightarrow> slice outcome" where
  "slice_set i v b = (if 0 \<le> i \<and> i < int (slen b) then Ret (b\<lparr>backing := (backing b)[nat i := v]\<rparr>) else Panic)"

definition Put_buf :: "slice \<Rightarrow> pools \<Rightarrow> pools outcome" where
  "Put_buf b ps =
     (case first_index (\<lambda>c. length (backing b) = c) classes of
        Some i \<Rightarrow>
          (case slice_set 0 putPoison b of
             Panic \<Rightarrow> Panic
           | Ret b1 \<Rightarrow>
               (case slice_set (int (slen b1) - 1) putPoison b1 of
                  Panic \<Rightarrow> Panic
                | Ret b2 \<Rightarrow> Ret (ps[i := (ps ! i) @ [b2\<lparr>slen := classes ! i\<rparr>]])))
      | None \<Rightarrow> Ret ps)"

text \<open>
  What programs do with the pools: any sequence of takes and returns, of any slice, in any order. A slice that is returned need
  not come from \<^verbatim>\<open>Get\<close> and may have been cut (\<^verbatim>\<open>buf[:n]\<close>).
\<close>

datatype pool_op = DoGet "nat option" int | DoPut slice

fun run_pools :: "pool_op list \<Rightarrow> pools \<Rightarrow> pools outcome" where
  "run_pools [] ps = Ret ps"
| "run_pools (DoGet pick n # ops) ps = run_pools ops (snd (Get_buf pick n ps))"
| "run_pools (DoPut b # ops) ps = (case Put_buf b ps of Panic \<Rightarrow> Panic | Ret ps' \<Rightarrow> run_pools ops ps')"

section \<open>Invariant\<close>

definition pools_inv :: "pools \<Rightarrow> bool" where
  "pools_inv ps \<longleftrightarrow> length ps = length classes \<and>
     (\<forall>i < length classes. \<forall>b \<in> set (ps ! i). length (backing b) = classes ! i \<and> slen b = classes ! i \<and> backing b ! 0 = putPoison)"

lemma first_index_Some: "first_index P xs = Some i \<Longrightarrow> i < length xs \<and> P (xs ! i) \<and> (\<forall>j < i. \<not> P (xs ! j))"
proof (induction xs arbitrary: i)
  case (Cons x xs)
  then show ?case
    by (cases i) (auto split: if_splits simp: less_Suc_eq_0_disj)
qed simp

lemma first_index_None: "first_index P xs = None \<longleftrightarrow> (\<forall>x \<in> set xs. \<not> P x)"
  by (induction xs) auto

lemma pools_inv_new [simp, inv_intros]: "pools_inv new_pools"
  by (simp add: pools_inv_def new_pools_def)

text \<open>A buffer as the pools hand it out: all of its capacity is visible, and its bytes are zero or it has been returned before.\<close>

definition handed_out :: "slice \<Rightarrow> bool" where
  "handed_out b \<longleftrightarrow> slen b = length (backing b) \<and> (backing b = replicate (slen b) 0 \<or> backing b ! 0 = putPoison)"

lemma handed_make [simp]: "handed_out (make_slice n)"
  by (simp add: handed_out_def make_slice_def)

lemma pool_Get_inv:
  assumes "pools_inv ps" and "i < length classes"
  shows "pools_inv (snd (pool_Get pick i ps))" "slen (fst (pool_Get pick i ps)) = classes ! i" "handed_out (fst (pool_Get pick i ps))"
proof -
  have "pools_inv (snd (pool_Get pick i ps)) \<and> slen (fst (pool_Get pick i ps)) = classes ! i \<and> handed_out (fst (pool_Get pick i ps))"
  proof (cases "\<exists>j. pick = Some j \<and> j < length (ps ! i)")
    case True
    then obtain j where j: "pick = Some j" "j < length (ps ! i)" by blast
    have "set (take j (ps ! i) @ drop (Suc j) (ps ! i)) \<subseteq> set (ps ! i)"
      using set_take_subset [of j] set_drop_subset [of "Suc j"] by (metis Un_least set_append)
    then have "pools_inv (ps[i := take j (ps ! i) @ drop (Suc j) (ps ! i)])"
      using assms unfolding pools_inv_def by (auto simp: nth_list_update)
    with j assms show ?thesis by (auto simp: pool_Get_def pools_inv_def handed_out_def)
  next
    case False
    then have "pool_Get pick i ps = (make_slice (classes ! i), ps)"
      by (auto simp: pool_Get_def split: option.splits)
    with assms(1) show ?thesis by (simp add: make_slice_def handed_out_def)
  qed
  then show "pools_inv (snd (pool_Get pick i ps))" "slen (fst (pool_Get pick i ps)) = classes ! i" "handed_out (fst (pool_Get pick i ps))"
    by blast+
qed

lemma Get_buf_inv [inv_intros]:
  assumes "pools_inv ps"
  shows "pools_inv (snd (Get_buf pick n ps))"
proof (cases "first_index (\<lambda>c. n \<le> int c) classes")
  case (Some i)
  with assms pool_Get_inv(1) [of ps i pick] first_index_Some [OF Some] show ?thesis by (simp add: Get_buf_def)
qed (use assms in \<open>simp add: Get_buf_def\<close>)

lemma Get_buf_size:
  assumes "pools_inv ps"
  shows "n \<le> int (slen (fst (Get_buf pick n ps)))" "handed_out (fst (Get_buf pick n ps))"
proof -
  have "n \<le> int (slen (fst (Get_buf pick n ps))) \<and> handed_out (fst (Get_buf pick n ps))"
  proof (cases "first_index (\<lambda>c. n \<le> int c) classes")
    case (Some i)
    with pool_Get_inv(2,3) [OF assms, of i pick] first_index_Some [OF Some] show ?thesis by (simp add: Get_buf_def)
  qed (simp add: Get_buf_def make_slice_def handed_out_def)
  then show "n \<le> int (slen (fst (Get_buf pick n ps)))" "handed_out (fst (Get_buf pick n ps))" by blast+
qed

lemma sorted_classes: "sorted classes"
  by (simp add: classes_def)

text \<open>What a \<^verbatim>\<open>Put\<close> stores: the whole buffer with its first and its last visible byte overwritten.\<close>

definition poisoned :: "slice \<Rightarrow> slice" where
  "poisoned b = b\<lparr>backing := (backing b)[0 := putPoison, slen b - 1 := putPoison], slen := length (backing b)\<rparr>"

lemma Put_buf_cases:
  "Put_buf b ps =
     (case first_index (\<lambda>c. length (backing b) = c) classes of
        None \<Rightarrow> Ret ps
      | Some i \<Rightarrow> if slen b = 0 then Panic else Ret (ps[i := (ps ! i) @ [poisoned b]]))"
proof (cases "first_index (\<lambda>c. length (backing b) = c) classes")
  case (Some i)
  with first_index_Some [OF Some] show ?thesis
    by (simp add: Put_buf_def slice_set_def poisoned_def nat_diff_distrib)
qed (simp add: Put_buf_def)

lemma poisoned_sel:
  "slen (poisoned b) = length (backing b)" "length (backing (poisoned b)) = length (backing b)"
  "0 < length (backing b) \<Longrightarrow> backing (poisoned b) ! 0 = putPoison"
  by (cases "slen b - 1"; simp add: poisoned_def)+

lemma Put_buf_inv [inv_intros]:
  assumes "pools_inv ps" and "Put_buf b ps = Ret ps'"
  shows "pools_inv ps'"
proof (cases "first_index (\<lambda>c. length (backing b) = c) classes")
  case (Some i)
  have "0 < length (backing b)" using first_index_Some [OF Some] by (auto simp: classes_def less_Suc_eq_0_disj)
  with Some assms first_index_Some [OF Some] show ?thesis
    by (auto simp: Put_buf_cases pools_inv_def nth_list_update poisoned_sel split: if_splits)
qed (use assms in \<open>simp add: Put_buf_cases\<close>)

lemma run_pools_inv: "run_pools ops ps = Ret ps' \<Longrightarrow> pools_inv ps \<Longrightarrow> pools_inv ps'"
  by (induction ops ps rule: run_pools.induct) (auto split: outcome.splits intro: inv_intros)

lemma smallest_class:
  assumes "first_index (\<lambda>c. n \<le> int c) classes = Some i"
  shows "Min {c \<in> set classes. n \<le> int c} = classes ! i" "\<exists>c \<in> set classes. n \<le> int c"
proof -
  note i = first_index_Some [OF assms]
  have "classes ! i \<le> c" if c: "c \<in> set classes" "n \<le> int c" for c
  proof -
    obtain j where "j < length classes" "c = classes ! j" using c(1) by (metis in_set_conv_nth)
    moreover have "i \<le> j" using i c(2) calculation by (metis leI)
    ultimately show ?thesis using sorted_nth_mono [OF sorted_classes] by simp
  qed
  then show "Min {c \<in> set classes. n \<le> int c} = classes ! i" using i by (intro Min_eqI) auto
  show "\<exists>c \<in> set classes. n \<le> int c" using i by (intro bexI [of _ "classes ! i"]) simp_all
qed

section \<open>The contract\<close>

locale buffer_pool =
  fixes get :: "'o \<Rightarrow> int \<Rightarrow> 'p \<Rightarrow> 'b \<times> 'p"
    and put :: "'b \<Rightarrow> 'p \<Rightarrow> 'p outcome"
    and len :: "'b \<Rightarrow> nat"
    and inv :: "'p \<Rightarrow> bool"
  assumes get_inv: "inv p \<Longrightarrow> inv (snd (get w n p))"
    and get_len: "inv p \<Longrightarrow> n \<le> int (len (fst (get w n p)))"
    and put_inv: "inv p \<Longrightarrow> put b p = Ret p' \<Longrightarrow> inv p'"
    and put_ok: "inv p \<Longrightarrow> 0 < len b \<Longrightarrow> put b p \<noteq> Panic"
begin

text \<open>A reader that takes a buffer for at least one byte can always put it back.\<close>

lemma get_put_ok:
  assumes "inv p" and "0 < n" and "inv q"
  shows "put (fst (get w n p)) q \<noteq> Panic"
proof -
  have "0 < len (fst (get w n p))" using get_len [OF assms(1), of n w] assms(2) by simp
  then show ?thesis by (rule put_ok [OF assms(3)])
qed

end

interpretation kpool: buffer_pool Get_buf Put_buf slen pools_inv
proof (unfold_locales, goal_cases)
  case (4 p b)
  then show ?case by (simp add: Put_buf_cases split: option.splits)
qed (simp_all add: Get_buf_size inv_intros)

section \<open>Properties\<close>

text \<open>
  C38: buffers are big enough, can be returned, and are marked when they come back. After any sequence of takes and returns,
  of slices from anywhere and cut in any way, a buffer taken for \<open>n\<close> bytes has \<^verbatim>\<open>len = cap >= n\<close>, from the smallest class that
  fits when there is one and of exactly \<open>n\<close> bytes otherwise, whatever free buffer the runtime picks. It is either all zero or
  starts with the byte that \<^verbatim>\<open>Put\<close> writes. Returning it, cut to any positive length, never panics.
\<close>

theorem pool_buffers:
  fixes pick :: "nat option"
  assumes "run_pools ops new_pools = Ret ps" and "0 < n" and "Get_buf pick n ps = (b, ps')" and "0 < k"
  shows "n \<le> int (slen b) \<and> slen b = length (backing b) \<and> (backing b = replicate (slen b) 0 \<or> backing b ! 0 = putPoison) \<and>
         (if \<exists>c \<in> set classes. n \<le> int c then slen b = Min {c \<in> set classes. n \<le> int c} else int (slen b) = n) \<and>
         Put_buf (b\<lparr>slen := k\<rparr>) ps' \<noteq> Panic"
proof -
  have inv: "pools_inv ps" using run_pools_inv [OF assms(1)] by simp
  have inv': "pools_inv ps'" using Get_buf_inv [OF inv, of pick n] assms(3) by simp
  have b: "b = fst (Get_buf pick n ps)" using assms(3) by simp
  have put: "Put_buf (b\<lparr>slen := k\<rparr>) ps' \<noteq> Panic" using kpool.put_ok [OF inv'] assms(4) by simp
  have "if \<exists>c \<in> set classes. n \<le> int c then slen b = Min {c \<in> set classes. n \<le> int c} else int (slen b) = n"
  proof (cases "first_index (\<lambda>c. n \<le> int c) classes")
    case (Some i)
    then have "slen b = classes ! i"
      using pool_Get_inv(2) [OF inv, of i pick] first_index_Some [OF Some] by (simp add: b Get_buf_def)
    with smallest_class [OF Some] show ?thesis by simp
  next
    case None
    then have "b = make_slice (nat n)" by (simp add: b Get_buf_def)
    moreover have "\<not> (\<exists>c \<in> set classes. n \<le> int c)" using None by (simp add: first_index_None)
    ultimately show ?thesis using assms(2) by (simp add: make_slice_def)
  qed
  with put Get_buf_size [OF inv, where n = n and pick = pick, folded b] show ?thesis unfolding handed_out_def by blast
qed

text \<open>A buffer is taken, cut to ten bytes and returned; the next one asked for is the same one, whole again.\<close>

theorem pool_buffers_witness:
  "\<exists>ps b ps'. run_pools [DoGet None 100, DoPut ((make_slice 4096)\<lparr>slen := 10\<rparr>)] new_pools = Ret ps \<and>
     Get_buf (Some 0) 100 ps = (b, ps') \<and> backing b ! 0 = putPoison \<and> slen b = 4096 \<and> Put_buf (b\<lparr>slen := 10\<rparr>) ps' \<noteq> Panic"
proof -
  let ?b = "poisoned ((make_slice 4096)\<lparr>slen := 10\<rparr>)"
  have run: "run_pools [DoGet None 100, DoPut ((make_slice 4096)\<lparr>slen := 10\<rparr>)] new_pools = Ret [[?b], [], []]"
    by (simp add: Get_buf_def pool_Get_def Put_buf_cases new_pools_def classes_def make_slice_def numeral_3_eq_3)
  have get: "Get_buf (Some 0) 100 [[?b], [], []] = (?b, [[], [], []])" by (simp add: Get_buf_def pool_Get_def classes_def)
  have "backing ?b ! 0 = putPoison" "slen ?b = 4096" by (simp_all add: poisoned_def make_slice_def)
  with run get pool_buffers [OF run _ get, of 10] show ?thesis by auto
qed

text \<open>
  An empty slice whose capacity is a size class, such as \<^verbatim>\<open>kpool.Get(1)[:0]\<close>, makes \<^verbatim>\<open>Put\<close> panic on
  \<^verbatim>\<open>buf[0] = putPoison\<close>; slices of other capacities are dropped without a panic, whatever their length.
\<close>

theorem put_empty_panics:
  "Put_buf ((make_slice n)\<lparr>slen := 0\<rparr>) ps = (if n \<in> set classes then Panic else Ret ps)"
  by (simp add: Put_buf_cases make_slice_def classes_def)

end
