(* ===== verification/Kinz_Float.thy ===== *)
theory Kinz_Float
  imports Complex_Main Kinz_Prelude "HOL-Library.Log_Nat"
begin

text \<open>
  Go's \<^verbatim>\<open>float64\<close>, as far as the sources compute with it: non-negative values in the normal range, as exact rationals,
  with every operation followed by the IEEE rounding \<open>fl\<close> to 53 significant bits, ties to even. The locale
  \<open>rounding\<close> is what the reconnection backoff relies on.
\<close>

section \<open>Rounding to an integer\<close>

definition rne :: "rat \<Rightarrow> int" where
  "rne x = (let f = \<lfloor>x\<rfloor>; r = x - of_int f in
            if r < 1 / 2 then f else if 1 / 2 < r then f + 1 else if even f then f else f + 1)"

lemma rne_int [simp]: "rne (of_int n) = n"
  by (simp add: rne_def Let_def)

lemma rne_bounds: "\<lfloor>x\<rfloor> \<le> rne x" "rne x \<le> \<lfloor>x\<rfloor> + 1"
  by (simp_all add: rne_def Let_def)

lemma rne_mono:
  assumes "x \<le> y"
  shows "rne x \<le> rne y"
proof (cases "\<lfloor>x\<rfloor> = \<lfloor>y\<rfloor>")
  case True
  with assms show ?thesis by (auto simp: rne_def Let_def)
next
  case False
  with assms have "\<lfloor>x\<rfloor> < \<lfloor>y\<rfloor>" using floor_mono [OF assms] by simp
  then show ?thesis using rne_bounds(2) [of x] rne_bounds(1) [of y] by linarith
qed

section \<open>Rounding to 53 bits\<close>

definition pow2 :: "int \<Rightarrow> rat" where
  "pow2 e = (if 0 \<le> e then 2 ^ nat e else 1 / 2 ^ nat (- e))"

lemma pow2_pos [simp]: "0 < pow2 e"
  by (simp add: pow2_def)

lemma pow2_Suc: "pow2 (e + 1) = 2 * pow2 e"
proof (cases "0 \<le> e")
  case True
  then have "nat (e + 1) = Suc (nat e)" by simp
  with True show ?thesis by (simp add: pow2_def)
next
  case False
  then have e: "nat (- e) = Suc (nat (- e - 1))" by simp
  show ?thesis
  proof (cases "e = - 1")
    case False
    with \<open>\<not> 0 \<le> e\<close> show ?thesis by (simp add: pow2_def e)
  qed (simp add: pow2_def)
qed

lemma pow2_add_nat: "pow2 (e + int n) = 2 ^ n * pow2 e"
proof (induction n)
  case (Suc n)
  have "pow2 (e + int (Suc n)) = pow2 (e + int n + 1)" by (simp add: algebra_simps)
  with Suc show ?case by (simp add: pow2_Suc)
qed simp

lemma pow2_mono: "e \<le> f \<Longrightarrow> pow2 e \<le> pow2 f"
proof -
  assume "e \<le> f"
  then have "f = e + int (nat (f - e))" by simp
  then have "pow2 f = 2 ^ nat (f - e) * pow2 e" by (metis pow2_add_nat)
  then show ?thesis by (simp add: one_le_power)
qed

text \<open>The exponent of the leading bit.\<close>

definition ilog2 :: "rat \<Rightarrow> int" where
  "ilog2 x = (if 1 \<le> x then bitlen \<lfloor>x\<rfloor> - 1 else - bitlen (\<lceil>1 / x\<rceil> - 1))"

lemma ilog2_bounds:
  assumes "0 < x"
  shows "pow2 (ilog2 x) \<le> x" "x < pow2 (ilog2 x + 1)"
proof -
  have "pow2 (ilog2 x) \<le> x \<and> x < pow2 (ilog2 x + 1)"
  proof (cases "1 \<le> x")
    case True
    then have f: "0 < \<lfloor>x\<rfloor>" by simp
    then have b: "0 < bitlen \<lfloor>x\<rfloor>" using bitlen_bounds [OF f] by (cases "0 < bitlen \<lfloor>x\<rfloor>") simp_all
    have lo: "2 ^ nat (bitlen \<lfloor>x\<rfloor> - 1) \<le> \<lfloor>x\<rfloor>" and hi: "\<lfloor>x\<rfloor> < 2 ^ nat (bitlen \<lfloor>x\<rfloor>)"
      using bitlen_bounds [OF f] by simp_all
    have "(of_int (2 ^ nat (bitlen \<lfloor>x\<rfloor> - 1)) :: rat) \<le> x" using lo by (simp add: le_floor_iff)
    moreover have "x < of_int (2 ^ nat (bitlen \<lfloor>x\<rfloor>))" using hi by (simp add: floor_less_iff)
    ultimately show ?thesis using True b by (simp add: ilog2_def pow2_def)
  next
    case False
    let ?n = "\<lceil>1 / x\<rceil> - 1"
    have inv: "1 < 1 / x" using False assms by simp
    then have n: "0 < ?n" by (simp add: less_ceiling_iff)
    then have b: "0 < bitlen ?n" using bitlen_bounds [OF n] by (cases "0 < bitlen ?n") simp_all
    have lo: "2 ^ nat (bitlen ?n - 1) \<le> ?n" and hi: "?n < 2 ^ nat (bitlen ?n)"
      using bitlen_bounds [OF n] by simp_all
    have "\<lceil>1 / x\<rceil> \<le> 2 ^ nat (bitlen ?n)" and "2 ^ nat (bitlen ?n - 1) < \<lceil>1 / x\<rceil>" using lo hi by simp_all
    then have "1 / x \<le> of_int (2 ^ nat (bitlen ?n))" "of_int (2 ^ nat (bitlen ?n - 1)) < 1 / x"
      by (simp_all only: ceiling_le_iff less_ceiling_iff)
    then have "1 / 2 ^ nat (bitlen ?n) \<le> x" "x < 1 / 2 ^ nat (bitlen ?n - 1)"
      using assms by (simp_all add: field_simps)
    moreover have "pow2 (- bitlen ?n) = 1 / 2 ^ nat (bitlen ?n)" using b by (simp add: pow2_def)
    moreover have "pow2 (- bitlen ?n + 1) = 1 / 2 ^ nat (bitlen ?n - 1)"
      using b by (auto simp: pow2_def algebra_simps)
    ultimately show ?thesis using False by (simp add: ilog2_def)
  qed
  then show "pow2 (ilog2 x) \<le> x" "x < pow2 (ilog2 x + 1)" by simp_all
qed

lemma ilog2_mono: "0 < x \<Longrightarrow> x \<le> y \<Longrightarrow> ilog2 x \<le> ilog2 y"
  using ilog2_bounds [of x] ilog2_bounds [of y] pow2_mono [of "ilog2 y + 1" "ilog2 x"] by force

definition fl :: "rat \<Rightarrow> rat" where
  "fl x = (if x = 0 then 0 else of_int (rne (x / pow2 (ilog2 x - 52))) * pow2 (ilog2 x - 52))"

text \<open>A value stays in its binade or moves to the lower end of the next one.\<close>

lemma fl_binade:
  assumes "0 < x"
  shows "pow2 (ilog2 x) \<le> fl x" "fl x \<le> pow2 (ilog2 x + 1)"
proof -
  let ?u = "pow2 (ilog2 x - 52)"
  have u: "pow2 (ilog2 x) = 2 ^ 52 * ?u" "pow2 (ilog2 x + 1) = 2 ^ 53 * ?u"
    using pow2_add_nat [of "ilog2 x - 52" 52] pow2_add_nat [of "ilog2 x - 52" 53] by (simp_all add: add.commute)
  have "of_int (2 ^ 52) \<le> x / ?u" "x / ?u \<le> of_int (2 ^ 53)"
    using ilog2_bounds [OF assms] u by (simp_all add: field_simps)
  then have "2 ^ 52 \<le> rne (x / ?u)" "rne (x / ?u) \<le> 2 ^ 53"
    using rne_mono [of "of_int (2 ^ 52)" "x / ?u"] rne_mono [of "x / ?u" "of_int (2 ^ 53)"] by (simp_all only: rne_int)
  then have "of_int (2 ^ 52) * ?u \<le> of_int (rne (x / ?u)) * ?u" "of_int (rne (x / ?u)) * ?u \<le> of_int (2 ^ 53) * ?u"
    by (simp_all only: mult_right_mono less_imp_le [OF pow2_pos] of_int_le_iff)
  with u assms show "pow2 (ilog2 x) \<le> fl x" "fl x \<le> pow2 (ilog2 x + 1)" by (simp_all add: fl_def)
qed

lemma fl_mono:
  assumes "0 \<le> x" and "x \<le> y"
  shows "fl x \<le> fl y"
proof (cases "0 < x")
  case True
  show ?thesis
  proof (cases "ilog2 x = ilog2 y")
    case True
    have "x / pow2 (ilog2 y - 52) \<le> y / pow2 (ilog2 y - 52)" using assms(2) by (simp add: divide_right_mono less_imp_le)
    then have "rne (x / pow2 (ilog2 y - 52)) \<le> rne (y / pow2 (ilog2 y - 52))" by (rule rne_mono)
    with True \<open>0 < x\<close> assms show ?thesis by (simp add: fl_def mult_right_mono less_imp_le)
  next
    case False
    then have "ilog2 x + 1 \<le> ilog2 y" using ilog2_mono [OF True assms(2)] by simp
    then have "pow2 (ilog2 x + 1) \<le> pow2 (ilog2 y)" by (rule pow2_mono)
    then show ?thesis using fl_binade(2) [OF True] fl_binade(1) [of y] True assms(2) by simp
  qed
next
  case False
  with assms have "x = 0" by simp
  moreover have "0 \<le> fl y" if "0 < y"
    using fl_binade(1) [OF that] less_imp_le [OF pow2_pos [of "ilog2 y"]] by (rule order_trans [rotated])
  ultimately show ?thesis using assms by (cases "y = 0") (auto simp: fl_def [of 0])
qed

text \<open>A value with a 53-bit significand is exact, so rounding twice is rounding once.\<close>

lemma ilog2_unique:
  assumes "pow2 k \<le> x" and "x < pow2 (k + 1)"
  shows "ilog2 x = k"
proof -
  have x: "0 < x" using assms(1) pow2_pos [of k] by linarith
  have "\<not> ilog2 x + 1 \<le> k" "\<not> k + 1 \<le> ilog2 x"
    using pow2_mono [of "ilog2 x + 1" k] pow2_mono [of "k + 1" "ilog2 x"] ilog2_bounds [OF x] assms by linarith+
  then show ?thesis by simp
qed

lemma fl_exact:
  assumes "2 ^ 52 \<le> m" and "m < 2 ^ 53"
  shows "fl (of_int m * pow2 f) = of_int m * pow2 f"
proof -
  have "of_int (2 ^ 52) * pow2 f \<le> of_int m * pow2 f" "of_int m * pow2 f < of_int (2 ^ 53) * pow2 f"
    using assms by (simp_all only: mult_right_mono mult_strict_right_mono less_imp_le [OF pow2_pos] pow2_pos of_int_le_iff of_int_less_iff)
  then have "ilog2 (of_int m * pow2 f) = f + 52"
    using pow2_add_nat [of f 52] pow2_add_nat [of f 53] by (intro ilog2_unique) (simp_all add: add.commute)
  then show ?thesis using assms pow2_pos [of f] by (simp add: fl_def)
qed

lemma fl_idem:
  assumes "0 \<le> x"
  shows "fl (fl x) = fl x"
proof (cases "x = 0")
  case False
  let ?f = "ilog2 x - 52"
  let ?m = "rne (x / pow2 ?f)"
  have x: "0 < x" using assms False by simp
  have v: "fl x = of_int ?m * pow2 ?f" using False by (simp add: fl_def)
  have "of_int (2 ^ 52) * pow2 ?f \<le> of_int ?m * pow2 ?f" "of_int ?m * pow2 ?f \<le> of_int (2 ^ 53) * pow2 ?f"
    using fl_binade [OF x] v pow2_add_nat [of ?f 52] pow2_add_nat [of ?f 53] by (simp_all add: add.commute)
  then have m: "2 ^ 52 \<le> ?m" "?m \<le> 2 ^ 53"
    by (simp_all only: mult_le_cancel_right_pos [OF pow2_pos] of_int_le_iff)
  show ?thesis
  proof (cases "?m = 2 ^ 53")
    case True
    then have "fl x = of_int (2 ^ 52) * pow2 (?f + 1)" using v pow2_Suc [of ?f] by simp
    then show ?thesis using fl_exact [of "2 ^ 52" "?f + 1"] by simp
  next
    case False
    then show ?thesis using fl_exact [of ?m ?f] m v by simp
  qed
qed (simp add: fl_def)

lemma fl_half: "fl (1 / 2) = 1 / 2"
proof -
  have half: "of_int (2 ^ 52) * pow2 (- 53) = 1 / 2" by (simp add: pow2_def)
  have "fl (of_int (2 ^ 52) * pow2 (- 53)) = of_int (2 ^ 52) * pow2 (- 53)" by (rule fl_exact) simp_all
  then show ?thesis by (simp only: half)
qed

text \<open>Integers up to \<open>2 ^ 53\<close> are exact.\<close>

lemma fl_int:
  assumes "0 \<le> n" and "n \<le> 2 ^ 53"
  shows "fl (of_int n) = of_int n"
proof (cases "n = 0")
  case False
  then have x: "0 < (of_int n :: rat)" using assms by simp
  show ?thesis
  proof (cases "ilog2 (of_int n) \<le> 52")
    case True
    then have "of_int n / pow2 (ilog2 (of_int n) - 52) = of_int (n * 2 ^ nat (52 - ilog2 (of_int n)))"
      by (auto simp: pow2_def)
    then show ?thesis using x pow2_pos by (simp only: fl_def rne_int) (simp add: field_simps pow2_def True)
  next
    case False
    then have "pow2 53 \<le> pow2 (ilog2 (of_int n))" by (intro pow2_mono) simp
    with ilog2_bounds(1) [OF x] have "(2 :: rat) ^ 53 \<le> of_int n" by (simp add: pow2_def)
    with assms have n: "n = 2 ^ 53" by (simp add: le_antisym)
    have "bitlen (1 * 2 ^ 53) = bitlen 1 + 53" by (subst bitlen_pow2) simp_all
    then have "ilog2 (of_int n) = 53" by (simp add: n ilog2_def bitlen_alt_def)
    then show ?thesis by (simp add: n fl_def pow2_def) (simp add: rne_def)
  qed
qed (simp add: fl_def)

text \<open>The relative error is at most \<open>2 ^ - 53\<close>.\<close>

lemma rne_error: "x - 1 / 2 \<le> of_int (rne x)" "of_int (rne x) \<le> x + 1 / 2"
proof -
  have "of_int \<lfloor>x\<rfloor> \<le> x" "x < of_int \<lfloor>x\<rfloor> + 1" by linarith+
  then show "x - 1 / 2 \<le> of_int (rne x)" "of_int (rne x) \<le> x + 1 / 2" unfolding rne_def Let_def by (auto; linarith)+
qed

lemma fl_error:
  assumes "0 \<le> x"
  shows "x * (1 - 1 / 2 ^ 53) \<le> fl x" "fl x \<le> x * (1 + 1 / 2 ^ 53)"
proof -
  have "x * (1 - 1 / 2 ^ 53) \<le> fl x \<and> fl x \<le> x * (1 + 1 / 2 ^ 53)"
  proof (cases "x = 0")
    case False
    let ?u = "pow2 (ilog2 x - 52)"
    have x: "0 < x" using assms False by simp
    have "2 ^ 52 * ?u \<le> x" using ilog2_bounds(1) [OF x] pow2_add_nat [of "ilog2 x - 52" 52] by (simp add: add.commute)
    then have half: "?u / 2 \<le> x / 2 ^ 53" by simp
    have "(x / ?u - 1 / 2) * ?u \<le> of_int (rne (x / ?u)) * ?u" "of_int (rne (x / ?u)) * ?u \<le> (x / ?u + 1 / 2) * ?u"
      using rne_error [of "x / ?u"] by (intro mult_right_mono; simp add: less_imp_le)+
    moreover have "(x / ?u - 1 / 2) * ?u = x - ?u / 2" "(x / ?u + 1 / 2) * ?u = x + ?u / 2"
      using less_imp_neq [OF pow2_pos [of "ilog2 x - 52"]] by (simp_all add: left_diff_distrib distrib_right)
    ultimately have "x - ?u / 2 \<le> fl x" "fl x \<le> x + ?u / 2" using False by (simp_all only: fl_def if_False)
    then show ?thesis using half by (simp add: algebra_simps)
  qed (simp add: fl_def)
  then show "x * (1 - 1 / 2 ^ 53) \<le> fl x" "fl x \<le> x * (1 + 1 / 2 ^ 53)" by simp_all
qed

section \<open>What computations rely on\<close>

locale rounding =
  fixes rnd :: "rat \<Rightarrow> rat"
  assumes rnd_mono: "0 \<le> x \<Longrightarrow> x \<le> y \<Longrightarrow> rnd x \<le> rnd y"
    and rnd_int: "0 \<le> n \<Longrightarrow> n \<le> 2 ^ 53 \<Longrightarrow> rnd (of_int n) = of_int n"
    and rnd_idem: "0 \<le> x \<Longrightarrow> rnd (rnd x) = rnd x"
    and rnd_half: "rnd (1 / 2) = 1 / 2"
    and rnd_low: "0 \<le> x \<Longrightarrow> x * (1 - 1 / 2 ^ 53) \<le> rnd x"
    and rnd_high: "0 \<le> x \<Longrightarrow> rnd x \<le> x * (1 + 1 / 2 ^ 53)"
begin

lemma rnd_ge_int: "0 \<le> n \<Longrightarrow> n \<le> 2 ^ 53 \<Longrightarrow> of_int n \<le> x \<Longrightarrow> of_int n \<le> rnd x"
  using rnd_mono [of "of_int n" x] rnd_int [of n] by simp

lemma rnd_le_int: "0 \<le> x \<Longrightarrow> 0 \<le> n \<Longrightarrow> n \<le> 2 ^ 53 \<Longrightarrow> x \<le> of_int n \<Longrightarrow> rnd x \<le> of_int n"
  using rnd_mono [of x "of_int n"] rnd_int [of n] by simp

lemma rnd_nonneg: "0 \<le> x \<Longrightarrow> 0 \<le> rnd x"
  using rnd_mono [of 0 x] rnd_int [of 0] by simp

end

interpretation float64: rounding fl
  by unfold_locales (simp_all only: fl_mono fl_int fl_idem fl_half fl_error)

end
