(* ===== verification/Kinz_ConnManager.thy ===== *)
theory Kinz_ConnManager
  imports Kinz_Prelude "HOL-Library.AList" "HOL-Library.Multiset"
begin

text \<open>
  The connection manager of \<^verbatim>\<open>src/knet/connmanager.go\<close>: a map from connection ids to connections with an optional
  limit. Every method runs under the manager's lock, so each is one function on the state; only the callbacks of
  \<^verbatim>\<open>Range\<close> and the \<^verbatim>\<open>Stop\<close> calls of \<^verbatim>\<open>ClearConn\<close> run outside it. The locale \<open>conn_registry\<close> is the contract
  of \<^verbatim>\<open>IConnManager\<close> (\<^verbatim>\<open>src/kiface/iconnmanager.go\<close>) that the server, the client and the MCP tools rely on.
\<close>

section \<open>The manager\<close>

text \<open>
  \<open>connections\<close> is the Go map as an association list with distinct keys. A connection is a value of type \<open>'c\<close>;
  \<open>cid\<close> is its \<^verbatim>\<open>GetConnID\<close>.
\<close>

record 'c ConnManager =
  connections :: "(u64 \<times> 'c) list"
  maxConn :: int

definition NewConnManager :: "int \<Rightarrow> 'c ConnManager" where
  "NewConnManager n = \<lparr>connections = [], maxConn = n\<rparr>"

definition Len :: "'c ConnManager \<Rightarrow> nat" where
  "Len cm = length (connections cm)"

definition Add :: "('c \<Rightarrow> u64) \<Rightarrow> 'c \<Rightarrow> 'c ConnManager \<Rightarrow> go_error option \<times> 'c ConnManager" where
  "Add cid c cm =
     (if 0 < maxConn cm \<and> maxConn cm \<le> int (length (connections cm)) then (Some (Sentinel ErrServerFull), cm)
      else (None, cm\<lparr>connections := AList.update (cid c) c (connections cm)\<rparr>))"

definition Remove :: "('c \<Rightarrow> u64) \<Rightarrow> 'c \<Rightarrow> 'c ConnManager \<Rightarrow> 'c ConnManager" where
  "Remove cid c cm = cm\<lparr>connections := AList.delete (cid c) (connections cm)\<rparr>"

definition Get :: "u64 \<Rightarrow> 'c ConnManager \<Rightarrow> go_error + 'c" where
  "Get i cm = (case map_of (connections cm) i of Some c \<Rightarrow> Inr c | None \<Rightarrow> Inl (Sentinel ErrConnNotFound))"

text \<open>
  \<open>ord\<close> is the iteration order of the Go map, which the language leaves open; a snapshot lists the connections in
  that order.
\<close>

definition snapshot :: "((u64 \<times> 'c) list \<Rightarrow> (u64 \<times> 'c) list) \<Rightarrow> 'c ConnManager \<Rightarrow> 'c list" where
  "snapshot ord cm = map snd (ord (connections cm))"

text \<open>The callback of \<^verbatim>\<open>Range\<close> may change any state \<open>s\<close>, the manager included; it answers whether to go on.\<close>

fun range_loop :: "('c \<Rightarrow> u64) \<Rightarrow> (u64 \<Rightarrow> 'c \<Rightarrow> 's \<Rightarrow> bool \<times> 's) \<Rightarrow> 'c list \<Rightarrow> 's \<Rightarrow> 's" where
  "range_loop cid f [] s = s"
| "range_loop cid f (c # cs) s = (let (go, s') = f (cid c) c s in if go then range_loop cid f cs s' else s')"

definition Range where
  "Range ord cid f cm s = range_loop cid f (snapshot ord cm) s"

text \<open>
  \<^verbatim>\<open>ClearConn\<close> empties the map under the lock and then stops the connections of the snapshot one after the other;
  \<open>stop\<close> is \<^verbatim>\<open>Connection.Stop\<close>, which may call back into the manager.
\<close>

definition ClearConn ::
  "((u64 \<times> 'c) list \<Rightarrow> (u64 \<times> 'c) list) \<Rightarrow> ('c \<Rightarrow> 'c ConnManager \<times> 's \<Rightarrow> 'c ConnManager \<times> 's) \<Rightarrow>
   'c ConnManager \<times> 's \<Rightarrow> 'c ConnManager \<times> 's" where
  "ClearConn ord stop s =
     (let conns = snapshot ord (fst s); cm = (fst s)\<lparr>connections := []\<rparr> in fold stop conns (cm, snd s))"

section \<open>Invariant\<close>

definition cm_inv :: "('c \<Rightarrow> u64) \<Rightarrow> 'c ConnManager \<Rightarrow> bool" where
  "cm_inv cid cm \<longleftrightarrow> distinct (map fst (connections cm)) \<and> (\<forall>(k, c) \<in> set (connections cm). cid c = k) \<and>
     (0 < maxConn cm \<longrightarrow> int (Len cm) \<le> maxConn cm)"

lemma cm_inv_New [simp, inv_intros]: "cm_inv cid (NewConnManager n)"
  by (simp add: cm_inv_def NewConnManager_def Len_def)

lemma length_alist_update:
  "length (AList.update k v al) = (if k \<in> fst ` set al then length al else Suc (length al))"
  by (induction al) auto

lemma length_alist_delete: "length (AList.delete k al) \<le> length al"
  by (simp add: AList.delete_eq)

lemma set_alist_update: "set (AList.update k v al) \<subseteq> insert (k, v) (set al)"
  by (induction al) auto

lemma cm_inv_Add [inv_intros]:
  assumes "cm_inv cid cm"
  shows "cm_inv cid (snd (Add cid c cm))"
proof (cases "0 < maxConn cm \<and> maxConn cm \<le> int (length (connections cm))")
  case False
  with assms have "0 < maxConn cm \<longrightarrow> int (length (AList.update (cid c) c (connections cm))) \<le> maxConn cm"
    by (auto simp: length_alist_update cm_inv_def Len_def)
  moreover have "\<forall>(k, d) \<in> set (AList.update (cid c) c (connections cm)). cid d = k"
    using assms set_alist_update [of "cid c" c "connections cm"] by (auto simp: cm_inv_def)
  moreover have "distinct (map fst (AList.update (cid c) c (connections cm)))"
    using assms by (simp add: cm_inv_def distinct_update)
  ultimately show ?thesis
    using False by (auto simp: cm_inv_def Add_def Len_def)
qed (use assms in \<open>simp add: Add_def\<close>)

lemma cm_inv_Remove [inv_intros]:
  assumes "cm_inv cid cm"
  shows "cm_inv cid (Remove cid c cm)"
proof -
  have "0 < maxConn cm \<longrightarrow> int (length (AList.delete (cid c) (connections cm))) \<le> maxConn cm"
    using assms length_alist_delete [of "cid c" "connections cm"] by (auto simp: cm_inv_def Len_def)
  with assms show ?thesis
    by (auto simp: cm_inv_def Remove_def Len_def AList.delete_eq distinct_map_filter)
qed

lemma maxConn_frame [simp, frame_simps]:
  "maxConn (snd (Add cid c cm)) = maxConn cm" "maxConn (Remove cid c cm) = maxConn cm"
  "maxConn (NewConnManager n) = n"
  by (simp_all add: Add_def Remove_def NewConnManager_def)

section \<open>The registry contract\<close>

text \<open>One call of a history on a registry: \<open>Inl c\<close> is \<^verbatim>\<open>Add(c)\<close>, \<open>Inr c\<close> is \<^verbatim>\<open>Remove(c)\<close>.\<close>

primrec registry_call :: "('c \<Rightarrow> 'm \<Rightarrow> go_error option \<times> 'm) \<Rightarrow> ('c \<Rightarrow> 'm \<Rightarrow> 'm) \<Rightarrow> 'c + 'c \<Rightarrow> 'm \<Rightarrow> 'm" where
  "registry_call add remove (Inl c) m = snd (add c m)"
| "registry_call add remove (Inr c) m = remove c m"

abbreviation touches :: "('c \<Rightarrow> u64) \<Rightarrow> u64 \<Rightarrow> 'c + 'c \<Rightarrow> bool" where
  "touches ident k x \<equiv> (case x of Inl c \<Rightarrow> ident c | Inr c \<Rightarrow> ident c) = k"

abbreviation adds :: "('c \<Rightarrow> u64) \<Rightarrow> u64 \<Rightarrow> 'c + 'c \<Rightarrow> bool" where
  "adds ident k x \<equiv> (case x of Inl c \<Rightarrow> ident c = k | Inr c \<Rightarrow> False)"

locale conn_registry =
  fixes add :: "'c \<Rightarrow> 'm \<Rightarrow> go_error option \<times> 'm"
    and remove :: "'c \<Rightarrow> 'm \<Rightarrow> 'm"
    and look :: "u64 \<Rightarrow> 'm \<Rightarrow> go_error + 'c"
    and size_of :: "'m \<Rightarrow> nat"
    and limit :: "'m \<Rightarrow> int"
    and ident :: "'c \<Rightarrow> u64"
    and inv :: "'m \<Rightarrow> bool"
  assumes add_ok: "inv m \<Longrightarrow> add c m = (None, m') \<Longrightarrow> look k m' = (if k = ident c then Inr c else look k m)"
    and add_full: "add c m = (Some e, m') \<Longrightarrow> m' = m \<and> e = Sentinel ErrServerFull"
    and add_decides: "inv m \<Longrightarrow> fst (add c m) = None \<longleftrightarrow> limit m \<le> 0 \<or> int (size_of m) < limit m"
    and remove_look: "inv m \<Longrightarrow> look k (remove c m) = (if k = ident c then Inl (Sentinel ErrConnNotFound) else look k m)"
    and look_none: "look k m = Inl e \<Longrightarrow> e = Sentinel ErrConnNotFound"
    and size_bound: "inv m \<Longrightarrow> 0 < limit m \<Longrightarrow> int (size_of m) \<le> limit m"
    and size_counts: "inv m \<Longrightarrow> finite {k. \<exists>c. look k m = Inr c} \<and> size_of m = card {k. \<exists>c. look k m = Inr c}"
    and add_inv: "inv m \<Longrightarrow> inv (snd (add c m))"
    and remove_inv: "inv m \<Longrightarrow> inv (remove c m)"
    and add_limit: "limit (snd (add c m)) = limit m"
    and remove_limit: "limit (remove c m) = limit m"
begin

lemma call_inv: "inv m \<Longrightarrow> inv (registry_call add remove x m)"
  by (cases x) (simp_all add: add_inv remove_inv)

lemma call_limit: "limit (registry_call add remove x m) = limit m"
  by (cases x) (simp_all add: add_limit remove_limit)

lemma calls_inv: "inv m \<Longrightarrow> inv (fold (registry_call add remove) xs m) \<and> limit (fold (registry_call add remove) xs m) = limit m"
  by (induction xs arbitrary: m) (simp_all add: call_inv call_limit)

lemma calls_bounded: "inv m \<Longrightarrow> 0 < limit m \<Longrightarrow> int (size_of (fold (registry_call add remove) xs m)) \<le> limit m"
  using calls_inv [of m xs] size_bound [of "fold (registry_call add remove) xs m"] by simp

lemma add_other: "inv m \<Longrightarrow> ident c \<noteq> k \<Longrightarrow> look k (snd (add c m)) = look k m"
  using add_ok [of m c "snd (add c m)" k] add_full [of c m] by (cases "add c m"; cases "fst (add c m)") auto

lemma call_other: "inv m \<Longrightarrow> \<not> touches ident k x \<Longrightarrow> look k (registry_call add remove x m) = look k m"
  by (cases x) (auto simp: remove_look add_other)

text \<open>The last successful call on an id decides what a lookup of it returns.\<close>

lemma look_untouched:
  "inv m \<Longrightarrow> \<forall>x \<in> set xs. \<not> touches ident k x \<Longrightarrow> look k (fold (registry_call add remove) xs m) = look k m"
  by (induction xs arbitrary: m) (simp_all add: call_inv call_other)

lemma added_stays:
  assumes "inv m" and "fst (add c m) = None" and "\<forall>x \<in> set xs. \<not> touches ident (ident c) x"
  shows "look (ident c) (fold (registry_call add remove) xs (snd (add c m))) = Inr c"
proof -
  have "add c m = (None, snd (add c m))" using assms(2) by (cases "add c m") auto
  from look_untouched [OF add_inv [OF assms(1)] assms(3)] add_ok [OF assms(1) this, of "ident c"]
  show ?thesis by simp
qed

lemma call_absent:
  "inv m \<Longrightarrow> \<not> adds ident k x \<Longrightarrow> look k m = Inl (Sentinel ErrConnNotFound) \<Longrightarrow>
   look k (registry_call add remove x m) = Inl (Sentinel ErrConnNotFound)"
  by (cases x) (auto simp: remove_look add_other)

lemma calls_absent:
  "inv m \<Longrightarrow> \<forall>x \<in> set xs. \<not> adds ident k x \<Longrightarrow> look k m = Inl (Sentinel ErrConnNotFound) \<Longrightarrow>
   look k (fold (registry_call add remove) xs m) = Inl (Sentinel ErrConnNotFound)"
  by (induction xs arbitrary: m) (simp_all add: call_inv call_absent)

lemma removed_stays:
  "inv m \<Longrightarrow> \<forall>x \<in> set xs. \<not> adds ident (ident c) x \<Longrightarrow>
   look (ident c) (fold (registry_call add remove) xs (remove c m)) = Inl (Sentinel ErrConnNotFound)"
  by (rule calls_absent) (simp_all add: remove_inv remove_look)

end

lemma Get_map_of: "Get k cm = Inr c \<longleftrightarrow> map_of (connections cm) k = Some c"
  by (simp add: Get_def split: option.splits)

interpretation cmgr: conn_registry "Add cid" "Remove cid" Get Len maxConn cid "cm_inv cid" for cid
proof (unfold_locales, goal_cases)
  case (1 m c m' k)
  then show ?case by (auto simp: Add_def Get_def update_conv' split: if_splits)
next
  case (4 m k c)
  then show ?case by (auto simp: Remove_def Get_def delete_conv')
next
  case (7 m)
  then have "{k. \<exists>c. Get k m = Inr c} = fst ` set (connections m)"
    by (auto simp: Get_map_of dom_map_of_conv_image_fst [symmetric] dom_def)
  moreover have "length (connections m) = card (fst ` set (connections m))"
    using 7 distinct_card [of "map fst (connections m)"] by (simp add: cm_inv_def)
  ultimately show ?case by (simp add: Len_def)
next
  case (8 m c)
  then show ?case by (rule inv_intros)
next
  case (9 m c)
  then show ?case by (rule inv_intros)
qed (auto simp: Add_def Remove_def Get_def Len_def cm_inv_def split: if_splits option.splits)

section \<open>Clearing\<close>

text \<open>A \<^verbatim>\<open>Stop\<close> that takes the connection out of the manager, as \<^verbatim>\<open>Connection.stopOnce\<close> does, and logs it.\<close>

definition stop_removes :: "('c \<Rightarrow> u64) \<Rightarrow> 'c \<Rightarrow> 'c ConnManager \<times> 'c list \<Rightarrow> 'c ConnManager \<times> 'c list" where
  "stop_removes cid c s = (Remove cid c (fst s), snd s @ [c])"

lemma fold_stop_removes:
  "fold (stop_removes cid) cs (cm, log) = (fold (Remove cid) cs cm, log @ cs)"
  by (induction cs arbitrary: cm log) (simp_all add: stop_removes_def)

lemma fold_Remove_empty: "fold (Remove cid) cs (cm\<lparr>connections := []\<rparr>) = cm\<lparr>connections := []\<rparr>"
  by (induction cs) (simp_all add: Remove_def)

lemma fold_Remove_all:
  "fold (Remove cid) cs cm = cm\<lparr>connections := filter (\<lambda>(k, c). k \<notin> cid ` set cs) (connections cm)\<rparr>"
proof (induction cs arbitrary: cm)
  case (Cons a cs)
  have "filter (\<lambda>(k, c). k \<notin> cid ` set cs) (AList.delete (cid a) al) = filter (\<lambda>(k, c). k \<notin> cid ` set (a # cs)) al"
    for al :: "(u64 \<times> 'a) list"
    by (auto simp: AList.delete_eq intro!: filter_cong)
  with Cons show ?case by (simp add: Remove_def)
qed simp

section \<open>Properties\<close>

text \<open>
  C31: the connection limit. Whatever \<^verbatim>\<open>Add\<close> and \<^verbatim>\<open>Remove\<close> calls a fresh manager with a positive limit has seen, in
  any order and with any ids, it never holds more connections than the limit, its \<^verbatim>\<open>Len\<close> is the number of ids that
  \<^verbatim>\<open>Get\<close> finds, and the next \<^verbatim>\<open>Add\<close> is accepted exactly when there is room; a rejected one returns
  \<^verbatim>\<open>ErrServerFull\<close> and changes nothing.
\<close>

theorem conn_limit:
  fixes cid :: "'c \<Rightarrow> u64" and calls :: "('c + 'c) list"
  assumes "0 < n"
  defines "cm \<equiv> fold (registry_call (Add cid) (Remove cid)) calls (NewConnManager n)"
  shows "int (Len cm) \<le> n \<and> Len cm = card {k. \<exists>c. Get k cm = Inr c} \<and>
         (if int (Len cm) < n then fst (Add cid d cm) = None else Add cid d cm = (Some (Sentinel ErrServerFull), cm))"
proof -
  have inv: "cm_inv cid cm" and lim: "maxConn cm = n"
    using cmgr.calls_inv [of cid "NewConnManager n" calls] by (simp_all add: cm_def)
  have "Add cid d cm = (Some (Sentinel ErrServerFull), cm)" if "\<not> int (Len cm) < n"
    using that assms lim by (simp add: Add_def Len_def)
  with cmgr.add_decides [OF inv, of d] cmgr.size_bound [OF inv] cmgr.size_counts [OF inv] assms lim
  show ?thesis by simp
qed

text \<open>Connections as bare ids, for concrete runs.\<close>

abbreviation id_calls :: "(u64 + u64) list" where
  "id_calls \<equiv> [Inl 1, Inl 2, Inl 3, Inr 1]"

theorem conn_limit_witness:
  "(let cm = fold (registry_call (Add id) (Remove id)) id_calls (NewConnManager 2)
    in int (Len cm) \<le> 2 \<and> map fst (connections cm) = [2] \<and> fst (Add id 3 cm) = None)"
  using conn_limit [of 2 id id_calls 3]
  by (simp add: Let_def Add_def Remove_def NewConnManager_def Len_def split: if_splits)

text \<open>
  Lookups. After a successful \<^verbatim>\<open>Add\<close> the id finds the connection until another call on the same id; after a
  \<^verbatim>\<open>Remove\<close> it is not found until the next \<^verbatim>\<open>Add\<close> of the id.
\<close>

theorem conn_lookup:
  assumes "cm_inv cid cm" and "fst (Add cid c cm) = None"
    and "\<forall>x \<in> set xs. \<not> touches cid (cid c) x" and "\<forall>x \<in> set ys. \<not> adds cid (cid c) x"
  defines "cm1 \<equiv> fold (registry_call (Add cid) (Remove cid)) xs (snd (Add cid c cm))"
  defines "cm2 \<equiv> fold (registry_call (Add cid) (Remove cid)) ys (Remove cid c cm1)"
  shows "Get (cid c) cm1 = Inr c \<and> Get (cid c) cm2 = Inl (Sentinel ErrConnNotFound)"
proof
  show "Get (cid c) cm1 = Inr c"
    unfolding cm1_def by (rule cmgr.added_stays [OF assms(1-3)])
  have "cm_inv cid cm1"
    using cmgr.calls_inv [OF cmgr.add_inv [OF assms(1)]] by (simp add: cm1_def)
  then show "Get (cid c) cm2 = Inl (Sentinel ErrConnNotFound)"
    unfolding cm2_def by (rule cmgr.removed_stays) (rule assms(4))
qed

theorem conn_lookup_witness:
  "(let cm1 = fold (registry_call (Add id) (Remove id)) [Inl 2, Inr 3] (snd (Add id (1 :: u64) (NewConnManager 0)));
        cm2 = fold (registry_call (Add id) (Remove id)) [Inr 2] (Remove id 1 cm1)
    in Get 1 cm1 = Inr 1 \<and> Get 1 cm2 = Inl (Sentinel ErrConnNotFound) \<and> Len cm1 = 2)"
  using conn_lookup [OF cm_inv_New [of id 0], of "1 :: u64" "[Inl 2, Inr 3]" "[Inr 2]"]
  by (simp add: Let_def Add_def Remove_def NewConnManager_def Len_def)

text \<open>
  Clearing. In whatever order the map is iterated, \<^verbatim>\<open>ClearConn\<close> stops every registered connection exactly once and
  leaves the manager empty with its limit unchanged, the \<^verbatim>\<open>Remove\<close> calls of the stopped connections included; and
  \<^verbatim>\<open>Range\<close> with a callback that stops each connection, as the callback may call back into the manager, does the same.
\<close>

theorem clear_stops_all:
  fixes log :: "'c list"
  assumes "mset (ord (connections cm)) = mset (connections cm)" and "cm_inv cid cm"
  defines "cleared \<equiv> ClearConn ord (stop_removes cid) (cm, log)"
    and "ranged \<equiv> Range ord cid (\<lambda>k c s. (True, stop_removes cid c s)) cm (cm, log)"
  shows "fst cleared = cm\<lparr>connections := []\<rparr> \<and> fst ranged = cm\<lparr>connections := []\<rparr> \<and> snd ranged = snd cleared \<and>
         (\<exists>stopped. snd cleared = log @ stopped \<and> distinct (map cid stopped) \<and>
            mset (map (\<lambda>c. (cid c, c)) stopped) = mset (connections cm))"
proof -
  let ?snap = "snapshot ord cm"
  have loop: "range_loop cid (\<lambda>k c s. (True, stop_removes cid c s)) cs s = fold (stop_removes cid) cs s" for cs s
    by (induction cs arbitrary: s) simp_all
  have keys: "map (\<lambda>c. (cid c, c)) ?snap = ord (connections cm)"
    using assms(2) mset_eq_setD [OF assms(1)] by (auto simp: snapshot_def cm_inv_def intro!: map_idI)
  then have "set (connections cm) = (\<lambda>c. (cid c, c)) ` set ?snap"
    using mset_eq_setD [OF assms(1)] by (metis set_map)
  then have "filter (\<lambda>(k, c). k \<notin> cid ` set ?snap) (connections cm) = []"
    by (auto simp: filter_empty_conv)
  then have empty: "fold (Remove cid) ?snap cm = cm\<lparr>connections := []\<rparr>"
    by (simp add: fold_Remove_all)
  have "distinct (map fst (ord (connections cm)))"
    using assms(1,2) mset_map [of fst] by (metis cm_inv_def mset_eq_imp_distinct_iff)
  then have "distinct (map cid ?snap)" unfolding keys [symmetric] by (simp add: comp_def)
  moreover have "mset (map (\<lambda>c. (cid c, c)) ?snap) = mset (connections cm)" by (simp only: keys assms(1))
  moreover have "cleared = (cm\<lparr>connections := []\<rparr>, log @ ?snap)" "ranged = (cm\<lparr>connections := []\<rparr>, log @ ?snap)"
    by (simp_all add: cleared_def ranged_def ClearConn_def Range_def loop Let_def fold_stop_removes fold_Remove_empty empty)
  ultimately show ?thesis by auto
qed

theorem clear_stops_all_witness:
  "ClearConn rev (stop_removes id) (snd (Add id 2 (snd (Add id (1 :: u64) (NewConnManager 5)))), []) = (NewConnManager 5, [2, 1])"
proof -
  let ?cm = "snd (Add id 2 (snd (Add id (1 :: u64) (NewConnManager 5))))"
  have "cm_inv id ?cm" by (intro inv_intros)
  from clear_stops_all [where cm = ?cm and ord = rev and log = "[]", OF _ this] show ?thesis
    by (simp add: ClearConn_def snapshot_def fold_stop_removes Let_def)
      (simp add: Add_def NewConnManager_def Remove_def)
qed

end
