(* ===== verification/Kinz_Client.thy ===== *)
theory Kinz_Client
  imports Kinz_Float Kinz_ConnManager
begin

text \<open>
  The client of \<^verbatim>\<open>src/knet/client.go\<close>: the reconnection backoff, computed in \<^verbatim>\<open>float64\<close>, and the life of a client
  over \<^verbatim>\<open>Start\<close>, \<^verbatim>\<open>Stop\<close>, lost connections and redials. Connections are named by their ids; what happens inside one
  is the subject of \<^verbatim>\<open>Kinz_Connection\<close>, here a connection is live, is being cleaned up, or is gone.
\<close>

section \<open>Backoff\<close>

record reconnectPolicy =
  initial :: int
  maxDelay :: int
  multiplier :: rat

definition Millisecond :: int where
  "Millisecond = 1000000"

definition defaultReconnect :: reconnectPolicy where
  "defaultReconnect = \<lparr>initial = 500 * Millisecond, maxDelay = 5000 * Millisecond, multiplier = 2\<rparr>"

definition WithReconnect :: "int \<Rightarrow> int \<Rightarrow> rat \<Rightarrow> reconnectPolicy \<Rightarrow> reconnectPolicy" where
  "WithReconnect i mx mul p =
     (let p1 = (if 0 < i then p\<lparr>initial := i\<rparr> else p);
          p2 = (if 0 < mx then p1\<lparr>maxDelay := mx\<rparr> else p1)
      in if 1 < mul then p2\<lparr>multiplier := mul\<rparr> else p2)"

text \<open>The loop of \<^verbatim>\<open>backoffValue\<close>; \<open>rnd\<close> is the rounding of the float operations.\<close>

fun backoff_loop :: "(rat \<Rightarrow> rat) \<Rightarrow> rat \<Rightarrow> rat \<Rightarrow> nat \<Rightarrow> rat \<Rightarrow> rat" where
  "backoff_loop rnd mx mul 0 d = d"
| "backoff_loop rnd mx mul (Suc n) d = (if d < mx then backoff_loop rnd mx mul n (rnd (d * mul)) else d)"

definition backoffValue :: "(rat \<Rightarrow> rat) \<Rightarrow> reconnectPolicy \<Rightarrow> int \<Rightarrow> int" where
  "backoffValue rnd p attempt =
     (let mx = rnd (of_int (maxDelay p));
          d = backoff_loop rnd mx (multiplier p) (nat attempt) (rnd (of_int (initial p)))
      in \<lfloor>if mx < d then mx else d\<rfloor>)"

text \<open>\<open>r\<close> is the value of \<^verbatim>\<open>rand.Float64()\<close>, in \<open>[0, 1)\<close>.\<close>

definition delay :: "(rat \<Rightarrow> rat) \<Rightarrow> rat \<Rightarrow> reconnectPolicy \<Rightarrow> int \<Rightarrow> int" where
  "delay rnd r p attempt =
     \<lfloor>rnd (rnd (of_int (backoffValue rnd p attempt)) * rnd (1 / 2 + rnd (r * (1 / 2))))\<rfloor>"

definition policy_ok :: "reconnectPolicy \<Rightarrow> bool" where
  "policy_ok p \<longleftrightarrow> 0 < initial p \<and> initial p \<le> 2 ^ 53 \<and> 0 < maxDelay p \<and> maxDelay p \<le> 2 ^ 53 \<and> 1 < multiplier p"

lemma policy_ok_default [simp]: "policy_ok defaultReconnect"
  by (simp add: policy_ok_def defaultReconnect_def Millisecond_def)

lemma policy_ok_With: "policy_ok p \<Longrightarrow> i \<le> 2 ^ 53 \<Longrightarrow> mx \<le> 2 ^ 53 \<Longrightarrow> policy_ok (WithReconnect i mx mul p)"
  by (simp add: policy_ok_def WithReconnect_def Let_def)

context rounding
begin

lemma loop_ge: "0 \<le> n \<Longrightarrow> n \<le> 2 ^ 53 \<Longrightarrow> 1 < mul \<Longrightarrow> of_int n \<le> d \<Longrightarrow> of_int n \<le> backoff_loop rnd mx mul k d"
proof (induction k arbitrary: d)
  case (Suc k)
  have "0 \<le> d" using Suc.prems by (simp add: order_trans [of 0 "of_int n"])
  then have "d \<le> d * mul" using Suc.prems(3) mult_left_mono [of 1 mul d] by simp
  then have "of_int n \<le> rnd (d * mul)" using Suc.prems rnd_ge_int [of n "d * mul"] by simp
  with Suc show ?case by simp
qed simp

lemma loop_mono_Suc:
  assumes "1 < mul" and "0 \<le> d" and "rnd d = d"
  shows "min mx (backoff_loop rnd mx mul k d) \<le> min mx (backoff_loop rnd mx mul (Suc k) d)"
  using assms
proof (induction k arbitrary: d)
  case 0
  have "d \<le> d * mul" using 0 mult_left_mono [of 1 mul d] by simp
  then have "d \<le> rnd (d * mul)" using rnd_mono [of d "d * mul"] 0 by simp
  then show ?case by auto
next
  case (Suc k)
  have pos: "0 \<le> d * mul" using Suc.prems by simp
  have "min mx (backoff_loop rnd mx mul k (rnd (d * mul))) \<le> min mx (backoff_loop rnd mx mul (Suc k) (rnd (d * mul)))"
    by (rule Suc.IH [OF Suc.prems(1) rnd_nonneg [OF pos] rnd_idem [OF pos]])
  then show ?case by (cases "d < mx") simp_all
qed

lemma backoff_floor: "policy_ok p \<Longrightarrow> backoffValue rnd p a =
    \<lfloor>min (of_int (maxDelay p)) (backoff_loop rnd (of_int (maxDelay p)) (multiplier p) (nat a) (of_int (initial p)))\<rfloor>"
  by (simp add: backoffValue_def policy_ok_def Let_def rnd_int min_def)

lemma backoff_le: "policy_ok p \<Longrightarrow> backoffValue rnd p a \<le> maxDelay p"
  by (simp add: backoff_floor floor_le_iff)

lemma backoff_ge: "policy_ok p \<Longrightarrow> min (initial p) (maxDelay p) \<le> backoffValue rnd p a"
  using loop_ge [of "initial p" "multiplier p" "of_int (initial p)" "of_int (maxDelay p)" "nat a"]
  by (auto simp: backoff_floor le_floor_iff policy_ok_def min_def)

lemma backoff_mono:
  assumes "policy_ok p" and "a \<le> b"
  shows "backoffValue rnd p a \<le> backoffValue rnd p b"
proof -
  let ?l = "\<lambda>k. min (of_int (maxDelay p)) (backoff_loop rnd (of_int (maxDelay p)) (multiplier p) k (of_int (initial p)))"
  have "?l k \<le> ?l (Suc k)" for k
    using assms(1) by (intro loop_mono_Suc) (simp_all add: policy_ok_def rnd_int)
  then have "?l (nat a) \<le> ?l (nat b)" by (rule lift_Suc_mono_le [of ?l, OF _ nat_mono [OF assms(2)]])
  then show ?thesis using assms(1) by (simp add: backoff_floor floor_mono)
qed

text \<open>The loop multiplies in every round until it has passed the maximum, up to the error of the multiplications.\<close>

lemma loop_low:
  assumes "1 < mul" and "0 \<le> d"
  shows "min mx (d * (mul * (1 - 1 / 2 ^ 53)) ^ k) \<le> backoff_loop rnd mx mul k d"
  using assms
proof (induction k arbitrary: d)
  case (Suc k)
  let ?q = "mul * (1 - 1 / 2 ^ 53)"
  have pos: "0 \<le> d * mul" "0 \<le> ?q ^ k" using Suc.prems by simp_all
  have "d * ?q ^ Suc k = (d * mul * (1 - 1 / 2 ^ 53)) * ?q ^ k" by simp
  also have "\<dots> \<le> rnd (d * mul) * ?q ^ k" by (rule mult_right_mono [OF rnd_low [OF pos(1)] pos(2)])
  finally show ?case using Suc.IH [OF Suc.prems(1) rnd_nonneg [OF pos(1)]] by auto
qed simp

lemma loop_high:
  assumes "1 < mul" and "0 \<le> d"
  shows "backoff_loop rnd mx mul k d \<le> d * (mul * (1 + 1 / 2 ^ 53)) ^ k"
  using assms
proof (induction k arbitrary: d)
  case (Suc k)
  let ?q = "mul * (1 + 1 / 2 ^ 53)"
  have "mul * 1 \<le> ?q" using Suc.prems by (intro mult_left_mono) simp_all
  then have q: "1 \<le> ?q" using Suc.prems(1) by simp
  have pos: "0 \<le> d * mul" "0 \<le> ?q ^ k" using Suc.prems by simp_all
  have "rnd (d * mul) * ?q ^ k \<le> (d * mul * (1 + 1 / 2 ^ 53)) * ?q ^ k" by (rule mult_right_mono [OF rnd_high [OF pos(1)] pos(2)])
  also have "\<dots> = d * ?q ^ Suc k" by simp
  finally have "backoff_loop rnd mx mul k (rnd (d * mul)) \<le> d * ?q ^ Suc k"
    using Suc.IH [OF Suc.prems(1) rnd_nonneg [OF pos(1)]] by (rule order_trans [rotated])
  moreover have "d * 1 \<le> d * ?q ^ Suc k" using Suc.prems(2) one_le_power [OF q] by (rule mult_left_mono [rotated])
  ultimately show ?case by (simp del: power_Suc)
qed simp

lemma loop_past: "mx \<le> d \<Longrightarrow> backoff_loop rnd mx mul k d = d"
  by (cases k) simp_all

lemma loop_int:
  assumes "1 < m" and "0 < n" and "n \<le> 2 ^ 53" and "M \<le> 2 ^ 53"
  shows "min (of_int M) (backoff_loop rnd (of_int M) (of_int m) k (of_int n)) = of_int (min M (n * m ^ k))"
  using assms(2,3)
proof (induction k arbitrary: n)
  case (Suc k)
  have one: "1 \<le> m ^ k" "1 \<le> m ^ Suc k" using assms(1) by (simp_all del: power_Suc add: one_le_power)
  show ?case
  proof (cases "n < M \<and> n * m \<le> 2 ^ 53")
    case True
    then have "rnd (of_int n * of_int m) = of_int (n * m)" using rnd_int [of "n * m"] Suc.prems(1) assms(1) by simp
    then show ?thesis using True Suc.IH [of "n * m"] Suc.prems(1) assms(1) by (simp add: mult.assoc)
  next
    case False
    have past: "of_int M \<le> rnd (of_int n * of_int m)" if "n < M"
    proof -
      have "M \<le> n * m" using that False assms(4) by simp
      then have "of_int M \<le> (of_int (n * m) :: rat)" by (simp only: of_int_le_iff)
      then show ?thesis using that assms(4) Suc.prems(1) rnd_ge_int [of M "of_int (n * m)"] by simp
    qed
    have "M \<le> n * m ^ Suc k"
    proof (cases "n < M")
      case True
      then have "M \<le> n * m * 1" using False assms(4) by simp
      also have "\<dots> \<le> n * m * m ^ k" using one(1) Suc.prems(1) assms(1) by (intro mult_left_mono) simp_all
      finally show ?thesis by (simp add: mult.assoc)
    next
      case False
      then have "M \<le> n * 1" by simp
      also have "\<dots> \<le> n * m ^ Suc k" using one(2) Suc.prems(1) by (intro mult_left_mono) simp_all
      finally show ?thesis .
    qed
    then show ?thesis using past by (simp add: loop_past min_def del: power_Suc)
  qed
qed simp

lemma backoff_low:
  assumes "policy_ok p"
  shows "\<lfloor>min (of_int (maxDelay p)) (of_int (initial p) * (multiplier p * (1 - 1 / 2 ^ 53)) ^ nat a)\<rfloor> \<le> backoffValue rnd p a"
  using loop_low [of "multiplier p" "of_int (initial p)" "of_int (maxDelay p)" "nat a"] assms
  by (auto simp: backoff_floor policy_ok_def intro!: floor_mono)

lemma backoff_high:
  assumes "policy_ok p"
  shows "backoffValue rnd p a \<le> \<lfloor>min (of_int (maxDelay p)) (of_int (initial p) * (multiplier p * (1 + 1 / 2 ^ 53)) ^ nat a)\<rfloor>"
  using loop_high [of "multiplier p" "of_int (initial p)" "of_int (maxDelay p)" "nat a"] assms
  by (auto simp: backoff_floor policy_ok_def intro!: floor_mono)

lemma backoff_int:
  assumes "policy_ok p" and "multiplier p = of_int m"
  shows "backoffValue rnd p a = min (maxDelay p) (initial p * m ^ nat a)"
  using loop_int [of m "initial p" "maxDelay p" "nat a"] assms by (simp add: backoff_floor policy_ok_def)

lemma jitter_bounds:
  assumes "0 \<le> r" and "r < 1"
  shows "1 / 2 \<le> rnd (1 / 2 + rnd (r * (1 / 2)))" "rnd (1 / 2 + rnd (r * (1 / 2))) \<le> 1"
proof -
  have half: "0 \<le> rnd (r * (1 / 2))" "rnd (r * (1 / 2)) \<le> 1 / 2"
    using assms rnd_nonneg [of "r * (1 / 2)"] rnd_mono [of "r * (1 / 2)" "1 / 2"] rnd_half by simp_all
  then show "1 / 2 \<le> rnd (1 / 2 + rnd (r * (1 / 2)))" "rnd (1 / 2 + rnd (r * (1 / 2))) \<le> 1"
    using rnd_mono [of "1 / 2" "1 / 2 + rnd (r * (1 / 2))"] rnd_half rnd_le_int [of "1 / 2 + rnd (r * (1 / 2))" 1] by simp_all
qed

lemma delay_bounds:
  assumes "policy_ok p" and "0 \<le> r" and "r < 1"
  shows "backoffValue rnd p a div 2 \<le> delay rnd r p a" "delay rnd r p a \<le> backoffValue rnd p a"
proof -
  let ?v = "backoffValue rnd p a" and ?j = "rnd (1 / 2 + rnd (r * (1 / 2)))"
  have v: "0 \<le> ?v" "?v \<le> 2 ^ 53"
    using backoff_ge [OF assms(1), of a] backoff_le [OF assms(1), of a] assms(1) by (auto simp: policy_ok_def min_def split: if_splits)
  have j: "1 / 2 \<le> ?j" "?j \<le> 1" using assms(2,3) by (rule jitter_bounds)+
  have "of_int (?v div 2) \<le> (of_int ?v / 2 :: rat)" by linarith
  also have "\<dots> \<le> of_int ?v * ?j" using mult_left_mono [OF j(1), of "of_int ?v"] v by simp
  finally have lo: "of_int (?v div 2) \<le> of_int ?v * ?j" .
  have hi: "of_int ?v * ?j \<le> of_int ?v" using mult_left_mono [OF j(2), of "of_int ?v"] v by simp
  have pos: "0 \<le> of_int ?v * ?j" using v j by simp
  have d: "delay rnd r p a = \<lfloor>rnd (of_int ?v * ?j)\<rfloor>" using rnd_int [OF v] by (simp add: delay_def)
  show "?v div 2 \<le> delay rnd r p a"
    unfolding d le_floor_iff using lo v by (intro rnd_ge_int) simp_all
  have "rnd (of_int ?v * ?j) \<le> of_int ?v" using pos v hi by (intro rnd_le_int)
  then show "delay rnd r p a \<le> ?v" unfolding d using floor_mono by fastforce
qed

text \<open>The jittered delay is that share of the backoff which the random number gives, up to three roundings.\<close>

lemma delay_share:
  fixes a :: int
  assumes "policy_ok p" and "0 \<le> r"
  defines "x \<equiv> of_int (backoffValue rnd p a) * ((1 + r) / 2)"
  shows "\<lfloor>x * (1 - 1 / 2 ^ 53) ^ 3\<rfloor> \<le> delay rnd r p a" "delay rnd r p a \<le> \<lfloor>x * (1 + 1 / 2 ^ 53) ^ 3\<rfloor>"
proof -
  let ?v = "backoffValue rnd p a" and ?j = "rnd (1 / 2 + rnd (r * (1 / 2)))" and ?lo = "1 - 1 / 2 ^ 53 :: rat" and ?hi = "1 + 1 / 2 ^ 53 :: rat"
  have v: "0 \<le> ?v" "?v \<le> 2 ^ 53"
    using backoff_ge [OF assms(1), of a] backoff_le [OF assms(1), of a] assms(1) by (auto simp: policy_ok_def min_def split: if_splits)
  have h: "r * (1 / 2) * ?lo \<le> rnd (r * (1 / 2))" "rnd (r * (1 / 2)) \<le> r * (1 / 2) * ?hi" "0 \<le> rnd (r * (1 / 2))"
    using rnd_low [of "r * (1 / 2)"] rnd_high [of "r * (1 / 2)"] rnd_nonneg [of "r * (1 / 2)"] assms(2) by simp_all
  have j0: "0 \<le> 1 / 2 + rnd (r * (1 / 2))" "0 \<le> ?j" using h(3) rnd_nonneg [of "1 / 2 + rnd (r * (1 / 2))"] by simp_all
  have "(1 + r) / 2 * ?lo \<le> 1 / 2 + rnd (r * (1 / 2))" using h(1) by (simp add: algebra_simps)
  then have jl: "(1 + r) / 2 * ?lo ^ 2 \<le> ?j"
    using mult_right_mono [of "(1 + r) / 2 * ?lo" "1 / 2 + rnd (r * (1 / 2))" ?lo] rnd_low [OF j0(1)] by (simp add: power2_eq_square mult.assoc)
  have "1 / 2 + rnd (r * (1 / 2)) \<le> (1 + r) / 2 * ?hi" using h(2) by (simp add: algebra_simps)
  then have jh: "?j \<le> (1 + r) / 2 * ?hi ^ 2"
    using mult_right_mono [of "1 / 2 + rnd (r * (1 / 2))" "(1 + r) / 2 * ?hi" ?hi] rnd_high [OF j0(1)] by (simp add: power2_eq_square mult.assoc)
  have d: "delay rnd r p a = \<lfloor>rnd (of_int ?v * ?j)\<rfloor>" using rnd_int [OF v] by (simp add: delay_def)
  have pos: "0 \<le> of_int ?v * ?j" using v(1) j0(2) by simp
  have "x * ?lo ^ 3 = of_int ?v * ((1 + r) / 2 * ?lo ^ 2) * ?lo" by (simp add: x_def power3_eq_cube power2_eq_square mult.assoc)
  also have "\<dots> \<le> of_int ?v * ?j * ?lo" using jl v(1) by (intro mult_right_mono mult_left_mono) simp_all
  also have "\<dots> \<le> rnd (of_int ?v * ?j)" by (rule rnd_low [OF pos])
  finally show "\<lfloor>x * ?lo ^ 3\<rfloor> \<le> delay rnd r p a" unfolding d by (rule floor_mono)
  have "rnd (of_int ?v * ?j) \<le> of_int ?v * ?j * ?hi" by (rule rnd_high [OF pos])
  also have "\<dots> \<le> of_int ?v * ((1 + r) / 2 * ?hi ^ 2) * ?hi" using jh v(1) by (intro mult_right_mono mult_left_mono) simp_all
  also have "\<dots> = x * ?hi ^ 3" by (simp add: x_def power3_eq_cube power2_eq_square mult.assoc)
  finally show "delay rnd r p a \<le> \<lfloor>x * ?hi ^ 3\<rfloor>" unfolding d by (rule floor_mono)
qed

end

section \<open>The client\<close>

text \<open>
  The goroutines of a client: calls of \<^verbatim>\<open>Start\<close> that are dialling or whose dial has failed, the loops of \<^verbatim>\<open>run\<close> with the number of their variable
  \<^verbatim>\<open>attempt\<close>, and calls of \<^verbatim>\<open>Stop\<close>. Each is cut at its accesses to shared state: \<^verbatim>\<open>dial\<close> at the network dial, the section
  under the lock, the registration and the start of the connection; \<^verbatim>\<open>run\<close> at its channel operations and at
  \<^verbatim>\<open>isStopping\<close>; \<^verbatim>\<open>Stop\<close> at its section under the lock, the cancel function, every \<^verbatim>\<open>Connection.Stop\<close> and the emptying of
  the manager.
\<close>

datatype dial_pc = DialNet | DialLock u64 | DialAdd u64 | DialStart u64

datatype run_pc = RunSelect int | RunGot int | RunTimer int | RunDial int dial_pc

datatype stop_pc = StopCancel "nat option" "u64 option" | StopOne u64 | StopClear | StopAll "u64 list"

datatype thread = Starting nat dial_pc | StartFailed | Running nat run_pc | Stopping stop_pc | Finished

text \<open>
  The fields of \<^verbatim>\<open>Client\<close> that its life depends on. Contexts are numbered by the calls of \<^verbatim>\<open>Start\<close>; \<open>ctxs\<close> says of each
  whether it is cancelled, and \<open>cancelFn\<close> names the one that the stored cancel function belongs to. \<open>connGone\<close> says
  whether the channel of capacity one is full. Connections are named by their ids: \<open>published\<close> have been stored where \<^verbatim>\<open>Conn\<close>
  finds them, \<open>live\<close> are running, \<open>closing\<close> have begun their cleanup and not yet left the manager, \<open>silent\<close> are those among
  them that have not called \<^verbatim>\<open>CallOnConnStop\<close> yet, and of \<open>ended\<close> the cleanup has begun.
\<close>

record ClientLife =
  started :: bool
  stopping :: bool
  cancelFn :: "nat option"
  curConn :: "u64 option"
  connID :: u64
  connMgr :: "u64 ConnManager"
  connGone :: bool
  ctxs :: "bool list"
  threads :: "thread list"
  published :: "u64 list"
  live :: "u64 list"
  closing :: "u64 list"
  silent :: "u64 list"
  ended :: "u64 list"

definition new_life :: ClientLife where
  "new_life = \<lparr>started = False, stopping = False, cancelFn = None, curConn = None, connID = 0, connMgr = NewConnManager 1,
     connGone = False, ctxs = [], threads = [], published = [], live = [], closing = [], silent = [], ended = []\<rparr>"

text \<open>
  One step of \<^verbatim>\<open>dial\<close>: where it goes on, or its result. \<open>up\<close> says whether the network dial succeeds, and its error if not. \<^verbatim>\<open>Connection.Start\<close> of
  a connection that was stopped before does nothing.
\<close>

fun dial :: "bool \<times> go_error \<Rightarrow> dial_pc \<Rightarrow> ClientLife \<Rightarrow> (go_error option + dial_pc) \<times> ClientLife" where
  "dial up DialNet c =
     (if fst up then (Inr (DialLock (connID c + 1)), c\<lparr>connID := connID c + 1\<rparr>) else (Inl (Some (snd up)), c))"
| "dial up (DialLock i) c =
     (if stopping c then (Inl (Some (Plain (str ''kinz: client stopping''))), c)
      else (Inr (DialAdd i), c\<lparr>curConn := Some i, published := published c @ [i]\<rparr>))"
| "dial up (DialAdd i) c =
     (case Add id i (connMgr c) of
        (Some e, _) \<Rightarrow> (Inl (Some e), c)
      | (None, m) \<Rightarrow> (Inr (DialStart i), c\<lparr>connMgr := m\<rparr>))"
| "dial up (DialStart i) c = (Inl None, if i \<in> set (ended c) then c else c\<lparr>live := live c @ [i]\<rparr>)"

text \<open>\<^verbatim>\<open>Start\<close> and \<^verbatim>\<open>Stop\<close> up to the end of their first section under the lock.\<close>

definition Start :: "ClientLife \<Rightarrow> go_error option \<times> ClientLife" where
  "Start c =
     (if started c then (Some (Plain (str ''kinz: client already started'')), c)
      else (None, c\<lparr>started := True, stopping := False, cancelFn := Some (length (ctxs c)), ctxs := ctxs c @ [False],
                   threads := threads c @ [Starting (length (ctxs c)) DialNet]\<rparr>))"

definition Stop :: "ClientLife \<Rightarrow> ClientLife" where
  "Stop c =
     (if \<not> started c then c
      else c\<lparr>started := False, stopping := True, cancelFn := None, threads := threads c @ [Stopping (StopCancel (cancelFn c) (curConn c))]\<rparr>)"

text \<open>
  The cleanup of connection \<open>i\<close>: its state is set to closed, then \<^verbatim>\<open>CallOnConnStop\<close> signals \<^verbatim>\<open>connGone\<close> if there is room, and
  later the connection leaves the manager.
\<close>

definition close_begin :: "u64 \<Rightarrow> ClientLife \<Rightarrow> ClientLife" where
  "close_begin i c = c\<lparr>live := remove1 i (live c), closing := closing c @ [i], silent := silent c @ [i], ended := i # ended c\<rparr>"

definition close_signal :: "u64 \<Rightarrow> ClientLife \<Rightarrow> ClientLife" where
  "close_signal i c = c\<lparr>connGone := True, silent := remove1 i (silent c)\<rparr>"

definition close_end :: "u64 \<Rightarrow> ClientLife \<Rightarrow> ClientLife" where
  "close_end i c = c\<lparr>connMgr := Remove id i (connMgr c), closing := remove1 i (closing c)\<rparr>"

text \<open>
  \<^verbatim>\<open>Connection.Stop\<close> inside a call of \<^verbatim>\<open>Stop\<close>: it begins the cleanup if nobody has, otherwise it waits for its end, and then the
  caller goes on with \<open>next\<close>.
\<close>

definition stop_conn :: "u64 \<Rightarrow> thread \<Rightarrow> thread \<Rightarrow> ClientLife \<Rightarrow> (thread \<times> ClientLife) option" where
  "stop_conn i this next c =
     (if i \<notin> set (ended c) then Some (this, close_begin i c)
      else if i \<in> set (closing c) then None
      else Some (next, c))"

text \<open>
  One step of a goroutine, \<^const>\<open>None\<close> when it has to wait. \<open>b\<close> is the outcome of a network dial with the error of a failed one, and at a \<^verbatim>\<open>select\<close> says
  whether the case of the cancelled context is taken.
\<close>

fun thread_step :: "bool \<times> go_error \<Rightarrow> thread \<Rightarrow> ClientLife \<Rightarrow> (thread \<times> ClientLife) option" where
  "thread_step b (Starting k pc) c =
     (case dial b pc c of
        (Inr pc', c') \<Rightarrow> Some (Starting k pc', c')
      | (Inl None, c') \<Rightarrow> Some (Running k (RunSelect 0), c')
      | (Inl (Some e), c') \<Rightarrow> Some (StartFailed, c'))"
| "thread_step b StartFailed c = Some (Finished, c\<lparr>started := False, cancelFn := None\<rparr>)"
| "thread_step b (Running k (RunSelect n)) c =
     (if fst b then (if ctxs c ! k then Some (Finished, c) else None)
      else if connGone c then Some (Running k (RunGot n), c\<lparr>connGone := False\<rparr>) else None)"
| "thread_step b (Running k (RunGot n)) c = Some (if stopping c then Finished else Running k (RunTimer (n + 1)), c)"
| "thread_step b (Running k (RunTimer n)) c =
     (if fst b then (if ctxs c ! k then Some (Finished, c) else None) else Some (Running k (RunDial n DialNet), c))"
| "thread_step b (Running k (RunDial n pc)) c =
     (case dial b pc c of
        (Inr pc', c') \<Rightarrow> Some (Running k (RunDial n pc'), c')
      | (Inl r, c') \<Rightarrow> Some (Running k (RunSelect (if r = None then 0 else n)), c'))"
| "thread_step b (Stopping (StopCancel k co)) c =
     Some (Stopping (case co of Some i \<Rightarrow> StopOne i | None \<Rightarrow> StopClear),
           c\<lparr>ctxs := (case k of Some k \<Rightarrow> (ctxs c)[k := True] | None \<Rightarrow> ctxs c)\<rparr>)"
| "thread_step b (Stopping (StopOne i)) c = stop_conn i (Stopping (StopOne i)) (Stopping StopClear) c"
| "thread_step b (Stopping StopClear) c =
     Some (Stopping (StopAll (map snd (connections (connMgr c)))), c\<lparr>connMgr := (connMgr c)\<lparr>connections := []\<rparr>\<rparr>)"
| "thread_step b (Stopping (StopAll [])) c = Some (Finished, c)"
| "thread_step b (Stopping (StopAll (i # is))) c = stop_conn i (Stopping (StopAll (i # is))) (Stopping (StopAll is)) c"
| "thread_step b Finished c = None"

section \<open>Its life\<close>

text \<open>
  What goes on without a caller of the client: the goroutines run, connections fail or are stopped by whoever holds them, and
  go through their cleanup. The connection counter does not wrap.
\<close>

inductive client_internal :: "ClientLife \<Rightarrow> ClientLife \<Rightarrow> bool" where
  thread: "j < length (threads c) \<Longrightarrow> connID c \<noteq> - 1 \<Longrightarrow> thread_step b (threads c ! j) c = Some (t, c') \<Longrightarrow>
    client_internal c (c'\<lparr>threads := (threads c')[j := t]\<rparr>)"
| lose: "i \<in> set (published c) \<Longrightarrow> i \<notin> set (ended c) \<Longrightarrow> client_internal c (close_begin i c)"
| signal: "i \<in> set (silent c) \<Longrightarrow> client_internal c (close_signal i c)"
| unregister: "i \<in> set (closing c) \<Longrightarrow> i \<notin> set (silent c) \<Longrightarrow> client_internal c (close_end i c)"

inductive client_step :: "ClientLife \<Rightarrow> ClientLife \<Rightarrow> bool" where
  internal: "client_internal c c' \<Longrightarrow> client_step c c'"
| start: "client_step c (snd (Start c))"
| stop: "client_step c (Stop c)"

inductive client_reachable :: "ClientLife \<Rightarrow> bool" where
  new: "client_reachable new_life"
| step: "client_reachable c \<Longrightarrow> client_step c c' \<Longrightarrow> client_reachable c'"


section \<open>What a step does\<close>

fun dial_of :: "thread \<Rightarrow> dial_pc option" where
  "dial_of (Starting k pc) = Some pc"
| "dial_of (Running k (RunDial n pc)) = Some pc"
| "dial_of t = None"

fun dial_id :: "dial_pc \<Rightarrow> u64 option" where
  "dial_id DialNet = None"
| "dial_id (DialLock i) = Some i"
| "dial_id (DialAdd i) = Some i"
| "dial_id (DialStart i) = Some i"

text \<open>The id of the connection a goroutine is dialling, and the ids a \<^verbatim>\<open>Stop\<close> has taken out of the manager and not stopped yet.\<close>

definition flight :: "thread \<Rightarrow> u64 option" where
  "flight t = (case dial_of t of None \<Rightarrow> None | Some pc \<Rightarrow> dial_id pc)"

fun pend :: "thread \<Rightarrow> u64 list" where
  "pend (Stopping (StopAll is)) = is"
| "pend t = []"

text \<open>The changes that no connection takes part in.\<close>

definition same_conns :: "ClientLife \<Rightarrow> ClientLife \<Rightarrow> bool" where
  "same_conns c c' \<longleftrightarrow> connID c' = connID c \<and> connMgr c' = connMgr c \<and> live c' = live c \<and> closing c' = closing c \<and>
     silent c' = silent c \<and> ended c' = ended c \<and> threads c' = threads c"

lemma dial_frame: "dial b pc c = (r, c') \<Longrightarrow> threads c' = threads c \<and> closing c' = closing c \<and> silent c' = silent c \<and> ended c' = ended c \<and> connGone c' = connGone c \<and> ctxs c' = ctxs c"
  by (cases pc) (auto split: if_splits option.splits prod.splits)

lemma dial_thread:
  assumes "dial_of t = Some pc" and "thread_step b t c = Some (t', c')"
  obtains r where "dial b pc c = (r, c')"
    "dial_of t' = (case r of Inr pc' \<Rightarrow> Some pc' | Inl _ \<Rightarrow> None)" "pend t' = []" "pend t = []"
    "\<not> (\<exists>p. t' = Stopping p)" "\<not> (\<exists>p. t = Stopping p)" "r = Inl None \<Longrightarrow> \<exists>k. t' = Running k (RunSelect 0)"
  using assms by (cases t rule: dial_of.cases) (auto split: prod.splits sum.splits option.splits)

lemma running_step:
  assumes "thread_step b (Running k pc) c = Some (t', c')" and "dial_of (Running k pc) = None"
  shows "same_conns c c' \<and> flight t' = None \<and> (\<forall>i. dial_of t' \<noteq> Some (DialStart i)) \<and> pend t' = []"
  using assms by (cases pc) (auto simp: same_conns_def flight_def split: if_splits)

lemma stop_conn_cases:
  "stop_conn i this next c = Some (t', c') \<Longrightarrow>
   i \<notin> set (ended c) \<and> t' = this \<and> c' = close_begin i c \<or> i \<in> set (ended c) \<and> i \<notin> set (closing c) \<and> t' = next \<and> c' = c"
  by (auto simp: stop_conn_def split: if_splits)

lemma stopping_step:
  assumes "thread_step b (Stopping p) c = Some (t', c')"
  shows "(\<exists>i. i \<notin> set (ended c) \<and> t' = Stopping p \<and> c' = close_begin i c) \<or>
    (p = StopClear \<and> t' = Stopping (StopAll (map snd (connections (connMgr c)))) \<and> c' = c\<lparr>connMgr := (connMgr c)\<lparr>connections := []\<rparr>\<rparr>) \<or>
    (same_conns c c' \<and> dial_of t' = None \<and> set (pend (Stopping p)) \<subseteq> set (pend t') \<union> set (ended c) \<and> set (pend t') \<subseteq> set (pend (Stopping p)))"
proof (cases p)
  case (StopCancel k co)
  with assms show ?thesis by (auto simp: same_conns_def split: option.splits)
next
  case (StopOne i)
  with assms have "stop_conn i (Stopping (StopOne i)) (Stopping StopClear) c = Some (t', c')" by simp
  from stop_conn_cases [OF this] StopOne show ?thesis by (auto simp: same_conns_def)
next
  case StopClear
  with assms show ?thesis by simp
next
  case (StopAll ks)
  show ?thesis
  proof (cases ks)
    case Nil
    with assms StopAll show ?thesis by (simp add: same_conns_def)
  next
    case (Cons i js)
    with assms StopAll have "stop_conn i (Stopping (StopAll (i # js))) (Stopping (StopAll js)) c = Some (t', c')" by simp
    from stop_conn_cases [OF this] StopAll Cons show ?thesis by (auto simp: same_conns_def)
  qed
qed

text \<open>The kinds of steps of a goroutine.\<close>

lemma dial_addE:
  assumes "dial b (DialAdd i) c = (r, c')"
  obtains (full) "r = Inl (Some (Sentinel ErrServerFull))" "c' = c"
  | (added) "r = Inr (DialStart i)" "c' = c\<lparr>connMgr := (connMgr c)\<lparr>connections := AList.update i i (connections (connMgr c))\<rparr>\<rparr>"
      "connections (connMgr c) = [] \<or> maxConn (connMgr c) \<le> 0 \<or> 1 < maxConn (connMgr c)"
proof (cases "0 < maxConn (connMgr c) \<and> maxConn (connMgr c) \<le> int (length (connections (connMgr c)))")
  case True
  with assms show thesis by (intro full) (auto simp: Add_def)
next
  case False
  then have "connections (connMgr c) = [] \<or> maxConn (connMgr c) \<le> 0 \<or> 1 < maxConn (connMgr c)" by (cases "connections (connMgr c)") auto
  with assms False show thesis by (intro added) (auto simp: Add_def)
qed

lemma idle_step_cases:
  assumes st: "thread_step b t c = Some (t', c')" and idle: "dial_of t = None"
  obtains
    (close) i where "i \<notin> set (ended c)" "t' = t" "c' = close_begin i c"
  | (clear) "t = Stopping StopClear" "t' = Stopping (StopAll (map snd (connections (connMgr c))))" "c' = c\<lparr>connMgr := (connMgr c)\<lparr>connections := []\<rparr>\<rparr>"
  | (quiet) "same_conns c c'" "flight t' = None \<or> flight t' = flight t" "\<And>i. dial_of t' \<noteq> Some (DialStart i)"
      "set (pend t) \<subseteq> set (pend t') \<union> set (ended c)" "set (pend t') \<subseteq> set (pend t)"
proof (cases t)
  case (Starting k pc)
  with idle show thesis by simp
next
  case StartFailed
  with st show thesis by (intro quiet) (auto simp: same_conns_def flight_def)
next
  case (Running k pc)
  from running_step [OF st [unfolded this]] idle Running show thesis by (intro quiet) auto
next
  case (Stopping p)
  with st have sp: "thread_step b (Stopping p) c = Some (t', c')" by simp
  show thesis
  proof (cases "\<exists>i. i \<notin> set (ended c) \<and> t' = t \<and> c' = close_begin i c")
    case True
    then show thesis using close by blast
  next
    case False
    from stopping_step [OF sp] False Stopping show thesis by (elim disjE) (use clear quiet in \<open>auto simp: flight_def\<close>)
  qed
next
  case Finished
  with st show thesis by simp
qed

lemma thread_step_cases:
  assumes "thread_step b t c = Some (t', c')"
  obtains
    (net) "dial_of t = Some DialNet" "flight t' = Some (connID c + 1)" "dial_of t' = Some (DialLock (connID c + 1))"
      "c' = c\<lparr>connID := connID c + 1\<rparr>" "pend t' = []" "pend t = []"
  | (add) i where "dial_of t = Some (DialAdd i)" "dial_of t' = Some (DialStart i)" "connections (connMgr c) = [] \<or> maxConn (connMgr c) \<le> 0 \<or> 1 < maxConn (connMgr c)"
      "c' = c\<lparr>connMgr := (connMgr c)\<lparr>connections := AList.update i i (connections (connMgr c))\<rparr>\<rparr>" "pend t' = []" "pend t = []"
  | (live) i where "dial_of t = Some (DialStart i)" "dial_of t' = None" "i \<notin> set (ended c)" "c' = c\<lparr>live := live c @ [i]\<rparr>" "pend t' = []" "pend t = []"
  | (close) i where "i \<notin> set (ended c)" "t' = t" "dial_of t = None" "c' = close_begin i c"
  | (clear) "t = Stopping StopClear" "t' = Stopping (StopAll (map snd (connections (connMgr c))))" "c' = c\<lparr>connMgr := (connMgr c)\<lparr>connections := []\<rparr>\<rparr>"
  | (quiet) "same_conns c c'" "flight t' = None \<or> flight t' = flight t" "\<And>i. dial_of t' \<noteq> Some (DialStart i)"
      "set (pend t) \<subseteq> set (pend t') \<union> set (ended c)" "set (pend t') \<subseteq> set (pend t)"
proof (cases "dial_of t")
  case (Some pc)
  then obtain r where d: "dial b pc c = (r, c')"
    "dial_of t' = (case r of Inr pc' \<Rightarrow> Some pc' | Inl _ \<Rightarrow> None)" "pend t' = []" "pend t = []" "r = Inl None \<Longrightarrow> \<exists>k. t' = Running k (RunSelect 0)"
    using dial_thread [OF Some assms] by metis
  show thesis
  proof (cases pc)
    case DialNet
    show thesis
    proof (cases "fst b")
      case True
      with d DialNet Some show thesis by (intro net) (auto simp: flight_def)
    next
      case False
      with d DialNet Some show thesis by (intro quiet) (auto simp: same_conns_def flight_def)
    qed
  next
    case (DialLock i)
    with d Some show thesis by (intro quiet) (auto simp: flight_def same_conns_def split: if_splits)
  next
    case (DialAdd i)
    with d(1) have "dial b (DialAdd i) c = (r, c')" by simp
    then show thesis
    proof (cases rule: dial_addE)
      case full
      with d Some DialAdd show thesis by (intro quiet) (auto simp: flight_def same_conns_def)
    next
      case added
      with d Some DialAdd show thesis by (intro add [of i]) simp_all
    qed
  next
    case (DialStart i)
    show thesis
    proof (cases "i \<in> set (ended c)")
      case True
      with d DialStart Some show thesis by (intro quiet) (auto simp: same_conns_def flight_def)
    next
      case False
      with d DialStart Some show thesis by (intro live [of i]) auto
    qed
  qed
next
  case None
  from assms None show thesis by (cases rule: idle_step_cases) (use None close clear quiet in blast)+
qed


section \<open>Invariants\<close>

text \<open>The manager holds at most one connection; ids are fresh; a connection whose cleanup has begun does not run.\<close>

definition table_inv :: "ClientLife \<Rightarrow> bool" where
  "table_inv c \<longleftrightarrow> maxConn (connMgr c) = 1 \<and> length (connections (connMgr c)) \<le> 1 \<and> (\<forall>(k, d) \<in> set (connections (connMgr c)). d = k)"

text \<open>How often an id is being dialled or running.\<close>

definition uses :: "ClientLife \<Rightarrow> u64 \<Rightarrow> nat" where
  "uses c i = length (filter (\<lambda>t. flight t = Some i) (threads c)) + count_list (live c) i"

definition ids_inv :: "ClientLife \<Rightarrow> bool" where
  "ids_inv c \<longleftrightarrow> (\<forall>i. uses c i \<le> 1 \<and> (0 < uses c i \<longrightarrow> unat i \<le> unat (connID c)))"

definition ended_inv :: "ClientLife \<Rightarrow> bool" where
  "ended_inv c \<longleftrightarrow> set (live c) \<inter> set (ended c) = {} \<and> set (closing c) \<subseteq> set (ended c)"

text \<open>A running connection is registered, or a \<^verbatim>\<open>Stop\<close> that took it out of the manager is about to stop it.\<close>

definition covered :: "ClientLife \<Rightarrow> u64 \<Rightarrow> bool" where
  "covered c i \<longleftrightarrow> i \<in> fst ` set (connections (connMgr c)) \<or> (\<exists>t \<in> set (threads c). i \<in> set (pend t)) \<or> i \<in> set (ended c)"

definition covered_inv :: "ClientLife \<Rightarrow> bool" where
  "covered_inv c \<longleftrightarrow> (\<forall>i \<in> set (live c). covered c i) \<and> (\<forall>t \<in> set (threads c). \<forall>i. dial_of t = Some (DialStart i) \<longrightarrow> covered c i)"

lemmas client_invs = table_inv_def ids_inv_def ended_inv_def

text \<open>The threads after one of them has moved.\<close>

lemma moved_set: "j < length ts \<Longrightarrow> x \<in> set (ts[j := t]) \<Longrightarrow> x = t \<or> x \<in> set ts"
  using set_update_subset_insert [of ts j t] by blast

lemma kept_set: "j < length ts \<Longrightarrow> x \<in> set ts \<Longrightarrow> x = ts ! j \<or> x \<in> set (ts[j := t])"
  by (metis in_set_conv_nth length_list_update nth_list_update_neq)

lemma table_inv_thread:
  assumes "thread_step b t c = Some (t', c')" and "table_inv c"
  shows "table_inv (c'\<lparr>threads := ts\<rparr>)"
  using assms(1)
proof (cases rule: thread_step_cases)
  case (add i)
  then show ?thesis using assms(2) by (auto simp: table_inv_def)
qed (use assms(2) in \<open>auto simp: table_inv_def same_conns_def close_begin_def\<close>)

lemma filter_update:
  "j < length ts \<Longrightarrow> length (filter P (ts[j := t])) + of_bool (P (ts ! j)) = length (filter P ts) + of_bool (P t)"
proof (induction ts arbitrary: j)
  case (Cons a ts)
  show ?case
  proof (cases j)
    case (Suc k)
    then show ?thesis using Cons.IH [of k] Cons.prems by simp
  qed simp
qed simp

lemma count_remove1: "count_list (remove1 x xs) y \<le> count_list xs y"
  by (induction xs) auto

lemma distinct_count: "(\<And>x. count_list xs x \<le> 1) \<Longrightarrow> distinct xs"
proof (induction xs)
  case (Cons x xs)
  have "count_list xs y \<le> 1" for y using Cons.prems [of y] by (simp split: if_splits)
  moreover have "count_list xs x = 0" using Cons.prems [of x] by simp
  ultimately show ?case using Cons.IH by (simp add: count_list_0_iff)
qed simp

lemma ids_inv_le: "ids_inv c \<Longrightarrow> connID c' = connID c \<Longrightarrow> (\<And>i. uses c' i \<le> uses c i) \<Longrightarrow> ids_inv c'"
  unfolding ids_inv_def by (metis less_le_trans order_trans)

lemma uses_moved:
  assumes "j < length (threads c)"
  shows "uses (c'\<lparr>threads := (threads c)[j := t']\<rparr>) i + of_bool (flight (threads c ! j) = Some i) + count_list (live c) i =
    uses c i + of_bool (flight t' = Some i) + count_list (live c') i"
  using filter_update [OF assms, of "\<lambda>t. flight t = Some i" t'] by (simp add: uses_def)

lemma ids_inv_thread:
  assumes "j < length (threads c)" and "connID c \<noteq> - 1" and "thread_step b (threads c ! j) c = Some (t', c')" and "ids_inv c"
  shows "ids_inv (c'\<lparr>threads := (threads c')[j := t']\<rparr>)"
  using assms(3)
proof (cases rule: thread_step_cases)
  case net
  have up: "unat (connID c + 1) = Suc (unat (connID c))"
    using assms(2) unatSuc [of "connID c"] by (metis add.commute add_eq_0_iff)
  have "uses (c'\<lparr>threads := (threads c)[j := t']\<rparr>) i = uses c i + of_bool (i = connID c + 1)" for i
    using uses_moved [OF assms(1), of t' c' i] net by (auto simp: flight_def)
  moreover have "uses c (connID c + 1) = 0" using assms(4) up by (metis Suc_n_not_le_n gr0I ids_inv_def)
  ultimately show ?thesis using assms(4) net up by (auto simp: ids_inv_def intro: le_SucI)
next
  case (live i)
  have "uses (c'\<lparr>threads := (threads c)[j := t']\<rparr>) k = uses c k" for k
    using uses_moved [OF assms(1), of t' c' k] live by (cases "i = k") (simp_all add: flight_def)
  then show ?thesis using ids_inv_le [OF assms(4)] live by simp
next
  case (close i)
  have "uses (c'\<lparr>threads := (threads c)[j := t']\<rparr>) k \<le> uses c k" for k
    using close count_remove1 [of i "live c" k] by (simp add: uses_def close_begin_def)
  then show ?thesis using ids_inv_le [OF assms(4)] close by (simp add: close_begin_def)
next
  case (add i)
  have "uses (c'\<lparr>threads := (threads c)[j := t']\<rparr>) k = uses c k" for k
    using uses_moved [OF assms(1), of t' c' k] add by (simp add: flight_def)
  then show ?thesis using ids_inv_le [OF assms(4)] add by simp
next
  case clear
  have "uses (c'\<lparr>threads := (threads c)[j := t']\<rparr>) k \<le> uses c k" for k
    using uses_moved [OF assms(1), of t' c' k] clear by (simp add: flight_def)
  then show ?thesis using ids_inv_le [OF assms(4)] clear by simp
next
  case quiet
  have "uses (c'\<lparr>threads := (threads c)[j := t']\<rparr>) k \<le> uses c k" for k
    using uses_moved [OF assms(1), of t' c' k] quiet(1,2) by (auto simp: same_conns_def split: if_splits)
  then show ?thesis using ids_inv_le [OF assms(4)] quiet(1) by (simp add: same_conns_def)
qed

lemma ended_inv_thread:
  assumes "thread_step b t c = Some (t', c')" and "ended_inv c" and "distinct (live c)"
  shows "ended_inv (c'\<lparr>threads := ts\<rparr>)"
  using assms(1)
proof (cases rule: thread_step_cases)
  case (close i)
  then show ?thesis using assms(2,3) by (auto simp: ended_inv_def close_begin_def)
qed (use assms(2) in \<open>auto simp: ended_inv_def same_conns_def\<close>)

lemma covered_moved:
  assumes "j < length (threads c)" and "covered c i"
    and "fst ` set (connections (connMgr c)) \<subseteq> fst ` set (connections (connMgr c')) \<union> set (pend t')"
    and "set (pend (threads c ! j)) \<subseteq> set (pend t') \<union> set (ended c')" and "set (ended c) \<subseteq> set (ended c')"
  shows "covered (c'\<lparr>threads := (threads c)[j := t']\<rparr>) i"
proof -
  have new: "t' \<in> set ((threads c)[j := t'])" using assms(1) by (rule set_update_memI)
  from assms(2) consider "i \<in> fst ` set (connections (connMgr c))" | t where "t \<in> set (threads c)" "i \<in> set (pend t)" | "i \<in> set (ended c)"
    by (auto simp: covered_def)
  then show ?thesis
  proof cases
    case 2
    then consider "t = threads c ! j" | "t \<in> set ((threads c)[j := t'])" using kept_set [OF assms(1)] by blast
    then show ?thesis using 2(2) new assms(4) by cases (auto simp: covered_def)
  qed (use new assms(3,5) in \<open>auto simp: covered_def\<close>)
qed

lemma covered_inv_moved:
  assumes "j < length (threads c)" and "covered_inv c"
    and keep: "\<And>i. covered c i \<Longrightarrow> covered (c'\<lparr>threads := (threads c)[j := t']\<rparr>) i"
    and "\<And>i. i \<in> set (live c') \<Longrightarrow> i \<in> set (live c) \<or> covered c i"
    and "\<And>i. dial_of t' = Some (DialStart i) \<Longrightarrow> covered (c'\<lparr>threads := (threads c)[j := t']\<rparr>) i"
  shows "covered_inv (c'\<lparr>threads := (threads c)[j := t']\<rparr>)"
  using assms(2,4,5) keep moved_set [OF assms(1)] unfolding covered_inv_def by simp blast

lemma covered_inv_thread:
  assumes "j < length (threads c)" and "thread_step b (threads c ! j) c = Some (t', c')" and "covered_inv c" and "table_inv c"
  shows "covered_inv (c'\<lparr>threads := (threads c')[j := t']\<rparr>)"
  using assms(2)
proof (cases rule: thread_step_cases)
  case net
  then have "covered_inv (c'\<lparr>threads := (threads c)[j := t']\<rparr>)"
    by (intro covered_inv_moved [OF assms(1,3)] covered_moved [OF assms(1)]) auto
  then show ?thesis using net by simp
next
  case (add i)
  have reg: "fst ` set (AList.update i i (connections (connMgr c))) = insert i (fst ` set (connections (connMgr c)))"
    by (simp add: dom_update)
  have "covered_inv (c'\<lparr>threads := (threads c)[j := t']\<rparr>)"
  proof (rule covered_inv_moved [OF assms(1,3)])
    show "covered (c'\<lparr>threads := (threads c)[j := t']\<rparr>) k" if "covered c k" for k
      using add reg that by (intro covered_moved [OF assms(1)]) auto
    show "covered (c'\<lparr>threads := (threads c)[j := t']\<rparr>) k" if "dial_of t' = Some (DialStart k)" for k
      using add reg that by (auto simp: covered_def)
  qed (use add in auto)
  then show ?thesis using add by simp
next
  case (live i)
  have "covered c i" using assms(1,3) live by (auto simp: covered_inv_def)
  then have "covered_inv (c'\<lparr>threads := (threads c)[j := t']\<rparr>)"
    using live by (intro covered_inv_moved [OF assms(1,3)] covered_moved [OF assms(1)]) auto
  then show ?thesis using live by simp
next
  case (close i)
  then have "covered_inv (c'\<lparr>threads := (threads c)[j := t']\<rparr>)"
    using set_remove1_subset [of i "live c"]
    by (intro covered_inv_moved [OF assms(1,3)] covered_moved [OF assms(1)]) (auto simp: close_begin_def)
  then show ?thesis using close by (simp add: close_begin_def)
next
  case clear
  have "snd x = fst x" if "x \<in> set (connections (connMgr c))" for x using assms(4) that by (auto simp: table_inv_def)
  then have "fst ` set (connections (connMgr c)) \<subseteq> set (map snd (connections (connMgr c)))" by (auto simp: rev_image_eqI)
  then have "covered_inv (c'\<lparr>threads := (threads c)[j := t']\<rparr>)"
    using clear by (intro covered_inv_moved [OF assms(1,3)] covered_moved [OF assms(1)]) auto
  then show ?thesis using clear by simp
next
  case quiet
  then have "covered_inv (c'\<lparr>threads := (threads c)[j := t']\<rparr>)"
    by (intro covered_inv_moved [OF assms(1,3)] covered_moved [OF assms(1)]) (auto simp: same_conns_def)
  then show ?thesis using quiet(1) by (simp add: same_conns_def)
qed

definition client_inv :: "ClientLife \<Rightarrow> bool" where
  "client_inv c \<longleftrightarrow> table_inv c \<and> ids_inv c \<and> ended_inv c \<and> covered_inv c"

lemma live_distinct: "ids_inv c \<Longrightarrow> distinct (live c)"
proof (rule distinct_count)
  fix x
  assume "ids_inv c"
  then have "uses c x \<le> 1" by (simp add: ids_inv_def)
  then show "count_list (live c) x \<le> 1" by (simp add: uses_def)
qed

lemma client_inv_lose: "client_inv c \<Longrightarrow> client_inv (close_begin i c)"
proof -
  assume inv: "client_inv c"
  have "distinct (live c)" using inv live_distinct by (simp add: client_inv_def)
  then have "ended_inv (close_begin i c)" using inv by (auto simp: client_inv_def ended_inv_def close_begin_def)
  moreover have "uses (close_begin i c) k \<le> uses c k" for k
    using count_remove1 [of i "live c" k] by (simp add: uses_def close_begin_def)
  then have "ids_inv (close_begin i c)" using inv ids_inv_le [of c "close_begin i c"] by (simp add: client_inv_def close_begin_def)
  moreover have "covered_inv (close_begin i c)"
    using inv set_remove1_subset [of i "live c"] by (auto simp: client_inv_def covered_inv_def covered_def close_begin_def)
  ultimately show ?thesis using inv by (simp add: client_inv_def table_inv_def close_begin_def)
qed

lemma client_inv_unregister: "client_inv c \<Longrightarrow> i \<in> set (closing c) \<Longrightarrow> client_inv (close_end i c)"
proof -
  assume inv: "client_inv c" and i: "i \<in> set (closing c)"
  then have e: "i \<in> set (ended c)" by (auto simp: client_inv_def ended_inv_def)
  have "covered (close_end i c) k" if "covered c k" for k
    using that e by (cases "k = i") (force simp: covered_def close_end_def Remove_def AList.delete_eq)+
  then have "covered_inv (close_end i c)" using inv by (auto simp: client_inv_def covered_inv_def close_end_def)
  moreover have "table_inv (close_end i c)"
    using inv by (auto simp: client_inv_def table_inv_def close_end_def Remove_def AList.delete_eq intro: le_trans [OF length_filter_le])
  moreover have "ended_inv (close_end i c)"
    using inv set_remove1_subset [of i "closing c"] by (auto simp: client_inv_def ended_inv_def close_end_def)
  moreover have "ids_inv (close_end i c)" using inv by (simp add: client_inv_def ids_inv_def uses_def close_end_def)
  ultimately show ?thesis by (simp add: client_inv_def)
qed

lemma client_inv_signal: "client_inv c \<Longrightarrow> client_inv (close_signal i c)"
  by (simp add: client_inv_def table_inv_def ids_inv_def uses_def ended_inv_def covered_inv_def covered_def close_signal_def)

lemma client_inv_internal: "client_internal c c' \<Longrightarrow> client_inv c \<Longrightarrow> client_inv c'"
proof (induction rule: client_internal.induct)
  case (thread j c b t c')
  then show ?case
    using table_inv_thread [OF thread.hyps(3)] ids_inv_thread [OF thread.hyps] ended_inv_thread [OF thread.hyps(3) _ live_distinct]
      covered_inv_thread [OF thread.hyps(1,3)]
    by (simp add: client_inv_def)
qed (simp_all add: client_inv_lose client_inv_signal client_inv_unregister)

lemma client_inv_new_thread:
  assumes "client_inv c" and "flight t = None" and "pend t = []" and "\<And>i. dial_of t \<noteq> Some (DialStart i)"
    and "connID c' = connID c" "connMgr c' = connMgr c" "live c' = live c" "closing c' = closing c" "ended c' = ended c" "threads c' = threads c @ [t]"
  shows "client_inv c'"
  using assms by (auto simp: client_inv_def table_inv_def ids_inv_def uses_def ended_inv_def covered_inv_def covered_def)

lemma client_inv_Start: "client_inv c \<Longrightarrow> client_inv (snd (Start c))"
  by (cases "started c") (simp_all add: Start_def client_inv_new_thread [where t = "Starting (length (ctxs c)) DialNet"] flight_def)

lemma client_inv_Stop: "client_inv c \<Longrightarrow> client_inv (Stop c)"
  by (cases "started c") (simp_all add: Stop_def client_inv_new_thread [where t = "Stopping (StopCancel (cancelFn c) (curConn c))"] flight_def)

lemma client_reachable_inv: "client_reachable c \<Longrightarrow> client_inv c"
proof (induction rule: client_reachable.induct)
  case new
  show ?case
    by (simp add: new_life_def client_inv_def NewConnManager_def table_inv_def ids_inv_def uses_def ended_inv_def covered_inv_def)
next
  case (step c c')
  from step.hyps(2) step.IH show ?case
    by (induction rule: client_step.induct) (simp_all add: client_inv_internal client_inv_Start client_inv_Stop)
qed

lemma one_live:
  assumes "client_inv c" and "\<forall>t \<in> set (threads c). pend t = []"
  shows "length (live c) \<le> 1 \<and> (\<forall>i \<in> set (live c). Get i (connMgr c) = Inr i)"
proof -
  have reg: "\<forall>i \<in> set (live c). i \<in> fst ` set (connections (connMgr c))"
    using assms by (auto simp: client_inv_def covered_inv_def covered_def ended_inv_def)
  have tab: "length (connections (connMgr c)) \<le> 1" "\<forall>(k, d) \<in> set (connections (connMgr c)). d = k"
    using assms(1) by (simp_all add: client_inv_def table_inv_def)
  show ?thesis
  proof (cases "connections (connMgr c)")
    case Nil
    with reg show ?thesis by auto
  next
    case (Cons x xs)
    then obtain k where k: "connections (connMgr c) = [(k, k)]" using tab by (cases x) auto
    then have sub: "set (live c) \<subseteq> {k}" using reg by auto
    moreover have "distinct (live c)" using assms(1) live_distinct by (simp add: client_inv_def)
    ultimately have "length (live c) \<le> 1" using distinct_card [of "live c"] card_mono [of "{k}" "set (live c)"] by simp
    then show ?thesis using sub k by (auto simp: Get_def)
  qed
qed


section \<open>One session\<close>

text \<open>
  From the first \<^verbatim>\<open>Start\<close> to the end of the first \<^verbatim>\<open>Stop\<close> there is at most one goroutine that dials, the stored connection is
  the only one that can run, and a signal on \<^verbatim>\<open>connGone\<close> means that none does.
\<close>

fun is_dialer :: "thread \<Rightarrow> bool" where
  "is_dialer (Starting k pc) = True"
| "is_dialer (Running k pc) = True"
| "is_dialer t = False"

fun past_lock :: "dial_pc \<Rightarrow> u64 option" where
  "past_lock (DialAdd i) = Some i"
| "past_lock (DialStart i) = Some i"
| "past_lock pc = None"

definition gone :: "ClientLife \<Rightarrow> bool" where
  "gone c \<longleftrightarrow> (\<forall>i. curConn c = Some i \<longrightarrow> i \<in> set (ended c))"

text \<open>A signal has been sent and not received, or is about to be sent.\<close>

definition signalled :: "ClientLife \<Rightarrow> bool" where
  "signalled c \<longleftrightarrow> connGone c \<or> silent c \<noteq> []"

definition one_signal :: "ClientLife \<Rightarrow> bool" where
  "one_signal c \<longleftrightarrow> of_bool (connGone c) + length (silent c) \<le> 1"

text \<open>A goroutine that dials, before and after it has stored its connection.\<close>

definition dialling_ok :: "ClientLife \<Rightarrow> u64 option \<Rightarrow> bool" where
  "dialling_ok c p \<longleftrightarrow> live c = [] \<and> (case p of None \<Rightarrow> gone c \<and> (signalled c \<longrightarrow> stopping c) | Some i \<Rightarrow> curConn c = Some i)"

fun thread_ok :: "ClientLife \<Rightarrow> thread \<Rightarrow> bool" where
  "thread_ok c (Starting k pc) = dialling_ok c (past_lock pc)"
| "thread_ok c (Running k (RunSelect n)) = True"
| "thread_ok c (Running k (RunDial n pc)) = dialling_ok c (past_lock pc)"
| "thread_ok c (Running k pc) = dialling_ok c None"
| "thread_ok c (Stopping (StopCancel k co)) = (stopping c \<and> co = curConn c)"
| "thread_ok c (Stopping (StopOne i)) = (stopping c \<and> curConn c = Some i)"
| "thread_ok c (Stopping p) = (stopping c \<and> gone c)"
| "thread_ok c Finished = True"
| "thread_ok c StartFailed = True"

fun early :: "thread \<Rightarrow> bool" where
  "early (Stopping (StopCancel k co)) = True"
| "early (Stopping (StopOne i)) = True"
| "early t = False"

definition session :: "ClientLife \<Rightarrow> bool" where
  "session c \<longleftrightarrow> length (filter is_dialer (threads c)) \<le> 1 \<and> (\<forall>t \<in> set (threads c). thread_ok c t) \<and>
     (\<forall>i \<in> set (live c). curConn c = Some i) \<and> (\<forall>i \<in> set (published c). i \<in> set (ended c) \<or> curConn c = Some i) \<and>
     (signalled c \<longrightarrow> live c = [] \<and> gone c) \<and> (stopping c \<or> one_signal c) \<and> (stopping c \<longrightarrow> gone c \<or> (\<exists>t \<in> set (threads c). early t)) \<and>
     (ctxs c = [] \<longrightarrow> threads c = [] \<and> live c = [] \<and> \<not> connGone c \<and> silent c = [] \<and> published c = [] \<and> curConn c = None \<and> \<not> stopping c \<and> \<not> started c)"

lemma only_one:
  "length (filter P ts) \<le> 1 \<Longrightarrow> j < length ts \<Longrightarrow> k < length ts \<Longrightarrow> j \<noteq> k \<Longrightarrow> P (ts ! j) \<Longrightarrow> \<not> P (ts ! k)"
proof
  assume le: "length (filter P ts) \<le> 1" and jk: "j < length ts" "k < length ts" "j \<noteq> k" and P: "P (ts ! j)" "P (ts ! k)"
  have "card {i. i < length ts \<and> P (ts ! i)} \<le> 1" using le by (simp add: length_filter_conv_card)
  moreover have "card {j, k} \<le> card {i. i < length ts \<and> P (ts ! i)}" using jk P by (intro card_mono) auto
  ultimately show False using jk(3) by simp
qed

lemma moved_other: "x \<in> set (ts[j := t]) \<Longrightarrow> x = t \<or> (\<exists>k < length ts. k \<noteq> j \<and> x = ts ! k)"
  by (metis in_set_conv_nth length_list_update nth_list_update_eq nth_list_update_neq)

text \<open>A thread that does not dial only looks at the stopping flag, the stored connection and what has ended.\<close>

lemma thread_ok_other:
  assumes "thread_ok c t" and "\<not> is_dialer t" and "stopping c' = stopping c" and "curConn c' = curConn c" and "set (ended c) \<subseteq> set (ended c')"
  shows "thread_ok c' t"
  using assms by (cases "(c, t)" rule: thread_ok.cases) (auto simp: gone_def)

lemma gone_threads [simp]: "gone (c\<lparr>threads := ts\<rparr>) = gone c"
  by (simp add: gone_def)

lemma thread_ok_threads [simp]: "thread_ok (c\<lparr>threads := ts\<rparr>) t = thread_ok c t"
  by (cases "(c, t)" rule: thread_ok.cases) (simp_all add: dialling_ok_def signalled_def split: option.split)

lemma signalled_threads [simp]: "signalled (c\<lparr>threads := ts\<rparr>) = signalled c" "one_signal (c\<lparr>threads := ts\<rparr>) = one_signal c"
  by (simp_all add: signalled_def one_signal_def)

text \<open>The step of the one goroutine that dials.\<close>

lemma session_dialer:
  assumes "session c" and j: "j < length (threads c)" and d: "is_dialer (threads c ! j)"
    and c': "threads c' = threads c" "stopping c' = stopping c" "ended c' = ended c" "ctxs c' = ctxs c"
    and cur: "curConn c' = curConn c \<or> \<not> stopping c"
    and new: "thread_ok c' t'" "\<not> early t'" and liv: "\<forall>i \<in> set (live c'). curConn c' = Some i" "signalled c' \<longrightarrow> live c' = [] \<and> gone c'" "stopping c' \<or> one_signal c'"
      "\<forall>i \<in> set (published c'). i \<in> set (ended c') \<or> curConn c' = Some i"
  shows "session (c'\<lparr>threads := (threads c')[j := t']\<rparr>)"
proof -
  have one: "length (filter is_dialer (threads c)) \<le> 1" using assms(1) by (simp add: session_def)
  have "length (filter is_dialer ((threads c)[j := t'])) \<le> 1"
    using filter_update [OF j, of is_dialer t'] one d by (cases "is_dialer t'") auto
  moreover have "thread_ok c' t" if "t \<in> set ((threads c)[j := t'])" for t
  proof -
    from moved_other [OF that] show ?thesis
    proof (elim disjE exE conjE)
      fix k assume k: "k < length (threads c)" "k \<noteq> j" "t = threads c ! k"
      then have nd: "\<not> is_dialer t" using only_one [OF one j] d by blast
      have ok: "thread_ok c t" using assms(1) k by (simp add: session_def)
      show ?thesis
      proof (cases "stopping c")
        case True
        then have "curConn c' = curConn c" using cur by simp
        from thread_ok_other [OF ok nd c'(2) this] c'(3) show ?thesis by simp
      next
        case False
        then show ?thesis using ok nd by (cases "(c, t)" rule: thread_ok.cases) auto
      qed
    qed (simp add: new)
  qed
  moreover have "gone c' \<or> (\<exists>t \<in> set ((threads c)[j := t']). early t)" if "stopping c'"
  proof -
    have "gone c \<or> (\<exists>t \<in> set (threads c). early t)" using assms(1) that c' by (simp add: session_def)
    moreover have "t \<in> set ((threads c)[j := t'])" if "t \<in> set (threads c)" "early t" for t
      using kept_set [OF j that(1), of t'] d that(2) by (cases "threads c ! j") auto
    ultimately show ?thesis using cur c' that by (auto simp: gone_def)
  qed
  moreover have "ctxs c \<noteq> []" using assms(1) j by (auto simp: session_def)
  ultimately show ?thesis
    using c' liv by (simp add: session_def)
qed

text \<open>What a step of a goroutine inside \<^verbatim>\<open>dial\<close> leaves unchanged, and what it becomes.\<close>

lemma dial_stepE:
  assumes t: "dial_of t = Some pc" and st: "thread_step b t c = Some (t', c')"
  obtains r where "dial b pc c = (r, c')"
    "threads c' = threads c" "ended c' = ended c" "ctxs c' = ctxs c" "signalled c' = signalled c" "one_signal c' = one_signal c"
    "\<not> early t'" "(\<forall>pc'. r = Inr pc' \<longrightarrow> dialling_ok c' (past_lock pc')) \<longrightarrow> thread_ok c' t'"
proof -
  obtain r where r: "dial b pc c = (r, c')"
    "dial_of t' = (case r of Inr pc' \<Rightarrow> Some pc' | Inl _ \<Rightarrow> None)" "r = Inl None \<Longrightarrow> \<exists>k. t' = Running k (RunSelect 0)" "\<not> (\<exists>p. t' = Stopping p)"
    using dial_thread [OF t st] by metis
  have new: "thread_ok c' t'" if "\<forall>pc'. r = Inr pc' \<longrightarrow> dialling_ok c' (past_lock pc')"
  proof (cases r)
    case (Inr pc')
    then show ?thesis using that r(2) by (cases t' rule: dial_of.cases) auto
  next
    case (Inl x)
    then show ?thesis using st t r by (cases t rule: dial_of.cases) (auto split: option.splits)
  qed
  have "\<not> early t'" using r(4) by (cases t' rule: early.cases) auto
  moreover have "threads c' = threads c" "ended c' = ended c" "ctxs c' = ctxs c" "signalled c' = signalled c" "one_signal c' = one_signal c"
    using dial_frame [OF r(1)] by (simp_all add: signalled_def one_signal_def)
  ultimately show thesis using r(1) new by (intro that) blast+
qed

lemma session_dial_step:
  assumes "session c" and "ended_inv c" and j: "j < length (threads c)" and t: "dial_of (threads c ! j) = Some pc"
    and st: "thread_step b (threads c ! j) c = Some (t', c')"
  shows "session (c'\<lparr>threads := (threads c')[j := t']\<rparr>)"
proof -
  have ok: "dialling_ok c (past_lock pc)"
    using assms(1) j t by (cases "threads c ! j" rule: dial_of.cases) (auto simp: session_def dest!: nth_mem)
  then have e: "live c = []" by (simp add: dialling_ok_def)
  have d: "is_dialer (threads c ! j)" using t by (cases "threads c ! j" rule: dial_of.cases) simp_all
  obtain r where r: "dial b pc c = (r, c')"
    and frame: "threads c' = threads c" "ended c' = ended c" "ctxs c' = ctxs c" "signalled c' = signalled c" "one_signal c' = one_signal c"
    and early: "\<not> early t'" and new: "(\<forall>pc'. r = Inr pc' \<longrightarrow> dialling_ok c' (past_lock pc')) \<longrightarrow> thread_ok c' t'"
    by (rule dial_stepE [OF t st])
  have ses: "signalled c \<longrightarrow> gone c" "stopping c \<or> one_signal c" "\<forall>i \<in> set (published c). i \<in> set (ended c) \<or> curConn c = Some i"
    using assms(1) by (simp_all add: session_def)
  have same: "gone c' = gone c" if "curConn c' = curConn c" using that frame by (simp add: gone_def)
  show ?thesis
  proof (cases pc)
    case DialNet
    with r have f: "live c' = live c" "stopping c' = stopping c" "curConn c' = curConn c" "published c' = published c" by (auto split: if_splits)
    moreover have "dialling_ok c' (past_lock pc')" if "r = Inr pc'" for pc'
      using that DialNet r(1) ok frame f same by (auto simp: dialling_ok_def split: if_splits)
    ultimately show ?thesis using frame new early ses e same by (intro session_dialer [OF assms(1) j d]) auto
  next
    case (DialLock i)
    show ?thesis
    proof (cases "stopping c")
      case True
      with DialLock r have "live c' = live c" "stopping c' = stopping c" "curConn c' = curConn c" "published c' = published c" "\<And>pc'. r \<noteq> Inr pc'" by auto
      then show ?thesis using frame new early ses e same by (intro session_dialer [OF assms(1) j d]) auto
    next
      case False
      with DialLock r have f: "live c' = live c" "stopping c' = stopping c" "curConn c' = Some i" "published c' = published c @ [i]" "r = Inr (DialAdd i)"
        by auto
      then have "dialling_ok c' (past_lock pc')" if "r = Inr pc'" for pc' using that e by (simp add: dialling_ok_def)
      moreover have "gone c" "\<not> signalled c" using ok DialLock False by (simp_all add: dialling_ok_def)
      then have "\<forall>k \<in> set (published c'). k \<in> set (ended c') \<or> curConn c' = Some k" using ses(3) f frame by (auto simp: gone_def)
      ultimately show ?thesis using frame new early e f False ses(2) \<open>\<not> signalled c\<close> by (intro session_dialer [OF assms(1) j d]) auto
    qed
  next
    case (DialAdd i)
    with r have f: "live c' = live c" "stopping c' = stopping c" "curConn c' = curConn c" "published c' = published c"
      by (auto split: prod.splits option.splits)
    moreover have "dialling_ok c' (past_lock pc')" if "r = Inr pc'" for pc'
      using that DialAdd r(1) ok f by (auto simp: dialling_ok_def split: prod.splits option.splits)
    ultimately show ?thesis using frame new early ses e same by (intro session_dialer [OF assms(1) j d]) auto
  next
    case (DialStart i)
    with r ok have f: "\<And>pc'. r \<noteq> Inr pc'" "stopping c' = stopping c" "curConn c' = Some i" "curConn c = Some i" "published c' = published c"
      "live c' = (if i \<in> set (ended c) then [] else [i])"
      using e by (auto simp: dialling_ok_def split: if_splits)
    then have "signalled c' \<longrightarrow> live c' = [] \<and> gone c'" using ses(1) frame by (auto simp: gone_def)
    then show ?thesis using f frame new early ses(2,3) by (intro session_dialer [OF assms(1) j d]) auto
  qed
qed

lemma session_run_step:
  assumes "session c" and j: "j < length (threads c)" and t: "threads c ! j = Running k pc" "dial_of (Running k pc) = None"
    and st: "thread_step b (Running k pc) c = Some (t', c')"
  shows "session (c'\<lparr>threads := (threads c')[j := t']\<rparr>)"
proof -
  have ok: "thread_ok c (Running k pc)" using assms(1) j nth_mem [OF j] t(1) by (simp add: session_def)
  have liv: "\<forall>i \<in> set (live c). curConn c = Some i" "signalled c \<longrightarrow> live c = [] \<and> gone c" "stopping c \<or> one_signal c"
    "\<forall>i \<in> set (published c). i \<in> set (ended c) \<or> curConn c = Some i" using assms(1) by (simp_all add: session_def)
  have c': "threads c' = threads c" "stopping c' = stopping c" "ended c' = ended c" "ctxs c' = ctxs c" "curConn c' = curConn c"
    "live c' = live c" "published c' = published c" "signalled c' \<longrightarrow> signalled c" "one_signal c \<longrightarrow> one_signal c'" "\<not> early t'"
    using st t(2) by (cases pc; auto simp: signalled_def one_signal_def split: if_splits)+
  then have same: "gone c' = gone c" by (simp add: gone_def)
  have keep: "dialling_ok c' None" if "dialling_ok c None" using that c' same by (auto simp: dialling_ok_def)
  have got: "dialling_ok (c\<lparr>connGone := False\<rparr>) None" if "connGone c"
    using that liv by (auto simp: dialling_ok_def signalled_def one_signal_def gone_def)
  have "thread_ok c' t'"
    using st t(2) ok keep got by (cases pc) (auto split: if_splits)
  moreover have "signalled c' \<longrightarrow> live c' = [] \<and> gone c'" "stopping c' \<or> one_signal c'" using c' liv same by auto
  ultimately show ?thesis using c' liv t(1) by (intro session_dialer [OF assms(1) j]) auto
qed

lemma session_live: "session c \<Longrightarrow> i \<in> set (live c) \<Longrightarrow> curConn c = Some i"
  by (simp add: session_def)

lemma session_gone: "session c \<Longrightarrow> client_inv c \<Longrightarrow> gone c \<Longrightarrow> live c = []"
  using session_live [of c "hd (live c)"] by (cases "live c") (auto simp: gone_def client_inv_def ended_inv_def)

lemma live_current:
  assumes "session c" and "client_inv c" and "curConn c = Some i"
  shows "live c = [] \<or> live c = [i]"
proof -
  have "set (live c) \<subseteq> {i}" using session_live [OF assms(1)] assms(3) by auto
  moreover have "distinct (live c)" using assms(2) live_distinct by (simp add: client_inv_def)
  ultimately show ?thesis by (cases "live c"; cases "tl (live c)") auto
qed

text \<open>The cleanup of a connection begins: nothing runs any more, and whoever was dialling it finds it ended.\<close>

lemma session_close:
  assumes ses: "session c" and inv: "client_inv c" and cur: "curConn c = Some i \<or> gone c" and stp: "gone c \<Longrightarrow> stopping c" and "ctxs c \<noteq> []"
  shows "session (close_begin i c)"
proof -
  have liv: "live (close_begin i c) = []"
    using cur live_current [OF ses inv] session_gone [OF ses inv] by (auto simp: close_begin_def)
  have gone: "gone (close_begin i c)" using cur by (auto simp: gone_def close_begin_def)
  have f: "threads (close_begin i c) = threads c" "stopping (close_begin i c) = stopping c" "curConn (close_begin i c) = curConn c"
    "ctxs (close_begin i c) = ctxs c" "published (close_begin i c) = published c" "set (ended c) \<subseteq> set (ended (close_begin i c))"
    by (auto simp: close_begin_def)
  have "thread_ok (close_begin i c) t" if "t \<in> set (threads c)" for t
  proof (cases "is_dialer t")
    case True
    have "thread_ok c t" using ses that by (simp add: session_def)
    with True show ?thesis
      using liv gone stp f by (cases "(c, t)" rule: thread_ok.cases) (auto simp: dialling_ok_def split: option.splits)
  next
    case False
    have "thread_ok c t" using ses that by (simp add: session_def)
    from thread_ok_other [OF this False] f show ?thesis by simp
  qed
  moreover have "stopping c \<or> one_signal (close_begin i c)"
    using ses cur stp by (auto simp: session_def signalled_def one_signal_def close_begin_def)
  ultimately show ?thesis using ses liv gone f assms(5) by (simp add: session_def) blast
qed

lemma session_lose:
  assumes "session c" and "client_inv c" and "i \<in> set (published c)" and "i \<notin> set (ended c)"
  shows "session (close_begin i c)"
proof -
  have "curConn c = Some i" using assms by (auto simp: session_def)
  then show ?thesis using assms by (intro session_close) (auto simp: gone_def session_def)
qed

lemma session_signal:
  assumes "session c" and "i \<in> set (silent c)"
  shows "session (close_signal i c)"
proof -
  have "signalled (close_signal i c) = signalled c" using assms(2) by (auto simp: signalled_def close_signal_def)
  moreover from this have "thread_ok (close_signal i c) t = thread_ok c t" for t
    by (cases "(c, t)" rule: thread_ok.cases) (auto simp: gone_def dialling_ok_def close_signal_def split: option.splits)
  moreover have "one_signal c \<longrightarrow> one_signal (close_signal i c)"
    using assms(2) length_pos_if_in_set [OF assms(2)] by (auto simp: one_signal_def close_signal_def length_remove1)
  moreover have "ctxs c \<noteq> []" "silent c \<noteq> []" using assms by (auto simp: session_def)
  ultimately show ?thesis using assms(1) by (simp add: session_def gone_def close_signal_def) blast
qed

lemma kept_member: "x \<in> set xs \<Longrightarrow> x \<noteq> xs ! j \<Longrightarrow> x \<in> set (xs[j := y])"
  by (metis in_set_conv_nth length_list_update nth_list_update_neq)

text \<open>A call of \<^verbatim>\<open>Stop\<close>, or of a \<^verbatim>\<open>Start\<close> whose dial has failed, moves on and no connection changes.\<close>

lemma session_stop_move:
  assumes "session c" and j: "j < length (threads c)" and t: "\<not> is_dialer (threads c ! j)"
    and same: "threads c' = threads c" "live c' = live c" "ended c' = ended c" "curConn c' = curConn c" "signalled c' = signalled c" "one_signal c' = one_signal c" "published c' = published c"
      "stopping c' = stopping c" "length (ctxs c') = length (ctxs c)"
    and new: "thread_ok c t'" "\<not> is_dialer t'" "early t' \<or> gone c \<or> \<not> early (threads c ! j)"
  shows "session (c'\<lparr>threads := (threads c')[j := t']\<rparr>)"
proof -
  have eq: "thread_ok c' x \<longleftrightarrow> thread_ok c x" for x
    using same by (cases "(c, x)" rule: thread_ok.cases) (auto simp: gone_def dialling_ok_def split: option.split)
  have "thread_ok c x" if "x \<in> set ((threads c)[j := t'])" for x
    using moved_set [OF j that] assms(1) new(1) by (auto simp: session_def)
  moreover have "length (filter is_dialer ((threads c)[j := t'])) \<le> 1"
    using filter_update [OF j, of is_dialer t'] assms(1) t new(2) by (simp add: session_def)
  moreover have "ctxs c' \<noteq> []" using assms(1) j same(9) by (auto simp: session_def)
  moreover have "stopping c \<longrightarrow> gone c \<or> (\<exists>x \<in> set ((threads c)[j := t']). early x)"
    using new(3) set_update_memI [OF j, of t'] assms(1) kept_member [of _ "threads c" j t'] unfolding session_def by metis
  moreover have "gone c' = gone c" using same by (simp add: gone_def)
  ultimately show ?thesis using assms(1) same eq by (simp add: session_def)
qed

lemma session_stop_conn:
  assumes ses: "session c" and inv: "client_inv c" and j: "j < length (threads c)" and t: "threads c ! j = Stopping p"
    and st: "stop_conn i (Stopping p) nxt c = Some (t', c')" and cur: "curConn c = Some i \<or> gone c"
    and nxt: "i \<in> set (ended c) \<Longrightarrow> thread_ok c nxt \<and> \<not> is_dialer nxt \<and> (early nxt \<or> gone c)"
  shows "session (c'\<lparr>threads := (threads c')[j := t']\<rparr>)"
proof -
  have stp: "stopping c" using ses nth_mem [OF j] t by (cases p) (auto simp: session_def)
  from stop_conn_cases [OF st] show ?thesis
  proof (elim disjE conjE)
    assume n: "t' = Stopping p" "c' = close_begin i c"
    have "session (close_begin i c)"
      using ses stp cur j by (intro session_close [OF ses inv]) (auto simp: session_def)
    moreover have "(close_begin i c)\<lparr>threads := (threads (close_begin i c))[j := t']\<rparr> = close_begin i c"
      using t n(1) list_update_id [of "threads c" j] by (simp add: close_begin_def)
    ultimately show ?thesis by (simp only: n)
  next
    assume n: "i \<in> set (ended c)" "t' = nxt" "c' = c"
    then show ?thesis using nxt [OF n(1)] t by (intro session_stop_move [OF ses j]) auto
  qed
qed

lemma session_stop_step:
  assumes ses: "session c" and inv: "client_inv c" and j: "j < length (threads c)" and t: "threads c ! j = Stopping p"
    and st: "thread_step b (Stopping p) c = Some (t', c')"
  shows "session (c'\<lparr>threads := (threads c')[j := t']\<rparr>)"
proof -
  have ok: "thread_ok c (Stopping p)" using ses nth_mem [OF j] t by (simp add: session_def)
  show ?thesis
  proof (cases p)
    case (StopCancel k co)
    then have n: "t' = Stopping (case co of Some i \<Rightarrow> StopOne i | None \<Rightarrow> StopClear)"
      "c' = c\<lparr>ctxs := (case k of Some k \<Rightarrow> (ctxs c)[k := True] | None \<Rightarrow> ctxs c)\<rparr>" using st by simp_all
    show ?thesis
      using n ok t StopCancel by (intro session_stop_move [OF ses j]) (auto simp: gone_def signalled_def one_signal_def split: option.splits)
  next
    case (StopOne i)
    then have "stop_conn i (Stopping p) (Stopping StopClear) c = Some (t', c')" using st by simp
    then show ?thesis using ok StopOne by (rule_tac session_stop_conn [OF ses inv j t]) (auto simp: gone_def)
  next
    case StopClear
    then show ?thesis using st ok t by (intro session_stop_move [OF ses j]) (auto simp: signalled_def one_signal_def)
  next
    case (StopAll ks)
    show ?thesis
    proof (cases ks)
      case Nil
      then show ?thesis using st ok t StopAll by (intro session_stop_move [OF ses j]) auto
    next
      case (Cons i js)
      then have "stop_conn i (Stopping p) (Stopping (StopAll js)) c = Some (t', c')" using st StopAll by simp
      then show ?thesis using ok StopAll by (rule_tac session_stop_conn [OF ses inv j t]) auto
    qed
  qed
qed

lemma session_internal:
  assumes "client_internal c c'" and "session c" and "client_inv c"
  shows "session c'"
  using assms
proof (induction rule: client_internal.induct)
  case (thread j c b t c')
  show ?case
  proof (cases "dial_of (threads c ! j)")
    case (Some pc)
    then show ?thesis using session_dial_step [OF thread.prems(1) _ thread.hyps(1) Some thread.hyps(3)] thread.prems(2) by (simp add: client_inv_def)
  next
    case None
    show ?thesis
    proof (cases "threads c ! j")
      case (Running k pc)
      then show ?thesis using session_run_step [OF thread.prems(1) thread.hyps(1) Running] None thread.hyps(3) by simp
    next
      case (Stopping p)
      then show ?thesis using session_stop_step [OF thread.prems thread.hyps(1) Stopping] thread.hyps(3) by simp
    next
      case StartFailed
      then have "t = Finished" "c' = c\<lparr>started := False, cancelFn := None\<rparr>" using thread.hyps(3) by simp_all
      then show ?thesis
        using StartFailed by (intro session_stop_move [OF thread.prems(1) thread.hyps(1)]) (auto simp: signalled_def one_signal_def)
    qed (use None thread.hyps(3) in simp_all)
  qed
next
  case (lose i c)
  then show ?case by (intro session_lose)
next
  case (signal i c)
  then show ?case by (intro session_signal)
next
  case (unregister i c)
  have "thread_ok (close_end i c) t = thread_ok c t" for t
    by (cases "(c, t)" rule: thread_ok.cases) (auto simp: gone_def dialling_ok_def signalled_def close_end_def split: option.splits)
  then show ?case using unregister.prems(1) by (simp add: session_def close_end_def gone_def signalled_def one_signal_def)
qed

lemma session_Stop:
  assumes "session c"
  shows "session (Stop c)"
proof (cases "started c")
  case True
  have "thread_ok (Stop c) t" if "t \<in> set (threads c)" for t
  proof -
    have "thread_ok c t" using assms that by (simp add: session_def)
    then show ?thesis using True by (cases "(c, t)" rule: thread_ok.cases) (auto simp: gone_def dialling_ok_def signalled_def Stop_def split: option.splits)
  qed
  then show ?thesis using assms True by (auto simp: session_def Stop_def signalled_def gone_def one_signal_def)
qed (use assms in \<open>simp add: Stop_def\<close>)

lemma session_Start:
  assumes "session c" and "length (ctxs (snd (Start c))) \<le> 1"
  shows "session (snd (Start c))"
proof (cases "started c")
  case False
  then have "ctxs c = []" using assms(2) by (simp add: Start_def)
  then show ?thesis using assms(1) False by (auto simp: session_def Start_def dialling_ok_def gone_def signalled_def one_signal_def)
qed (use assms in \<open>simp add: Start_def\<close>)

lemma ctxs_thread: "thread_step b t c = Some (t', c') \<Longrightarrow> length (ctxs c') = length (ctxs c)"
proof (cases "dial_of t")
  case (Some pc)
  assume "thread_step b t c = Some (t', c')"
  from dial_thread [OF Some this] obtain r where "dial b pc c = (r, c')" by metis
  then show ?thesis using dial_frame [of b pc c r c'] by simp
next
  case None
  assume "thread_step b t c = Some (t', c')"
  then show ?thesis using None by (cases "(b, t, c)" rule: thread_step.cases) (auto simp: stop_conn_def close_begin_def split: if_splits option.splits)
qed

lemma ctxs_grow: "client_step c c' \<Longrightarrow> length (ctxs c) \<le> length (ctxs c')"
proof (induction rule: client_step.induct)
  case (internal c c')
  then show ?case
    by (induction rule: client_internal.induct) (simp_all add: ctxs_thread close_begin_def close_signal_def close_end_def)
qed (simp_all add: Start_def Stop_def)

lemma reachable_session: "client_reachable c \<Longrightarrow> length (ctxs c) \<le> 1 \<Longrightarrow> session c"
proof (induction rule: client_reachable.induct)
  case new
  show ?case by (simp add: new_life_def session_def signalled_def one_signal_def)
next
  case (step c c')
  then have ses: "session c" using ctxs_grow [OF step.hyps(2)] by simp
  from step.hyps(2) show ?case
  proof (cases rule: client_step.cases)
    case internal
    then show ?thesis by (rule session_internal [OF _ ses client_reachable_inv [OF step.hyps(1)]])
  qed (use ses step.prems session_Start session_Stop in auto)
qed

section \<open>Schedules\<close>

text \<open>Concrete runs: a caller's action, a step of goroutine \<open>j\<close>, or the fate of a connection.\<close>

datatype client_act = CStart | CStop | CStep bool nat | CLose u64 | CSignal u64 | CUnregister u64

fun run_client :: "client_act \<Rightarrow> ClientLife \<Rightarrow> ClientLife option" where
  "run_client CStart c = Some (snd (Start c))"
| "run_client CStop c = Some (Stop c)"
| "run_client (CStep b j) c =
     (if j < length (threads c) \<and> connID c \<noteq> - 1
      then map_option (\<lambda>(t, c'). c'\<lparr>threads := (threads c')[j := t]\<rparr>) (thread_step (b, Plain []) (threads c ! j) c) else None)"
| "run_client (CLose i) c = (if i \<in> set (published c) \<and> i \<notin> set (ended c) then Some (close_begin i c) else None)"
| "run_client (CSignal i) c = (if i \<in> set (silent c) then Some (close_signal i c) else None)"
| "run_client (CUnregister i) c = (if i \<in> set (closing c) \<and> i \<notin> set (silent c) then Some (close_end i c) else None)"

fun run_clients :: "client_act list \<Rightarrow> ClientLife \<Rightarrow> ClientLife option" where
  "run_clients [] c = Some c"
| "run_clients (a # as) c = (case run_client a c of Some c' \<Rightarrow> run_clients as c' | None \<Rightarrow> None)"

lemma run_client_step: "run_client a c = Some c' \<Longrightarrow> client_step c c'"
  by (cases a) (auto intro: client_step.intros client_internal.intros split: if_splits)

lemma run_clients_reachable: "run_clients as c = Some c' \<Longrightarrow> client_reachable c \<Longrightarrow> client_reachable c'"
proof (induction as arbitrary: c)
  case (Cons a as)
  then obtain d where "run_client a c = Some d" "run_clients as d = Some c'" by (auto split: option.splits)
  with Cons show ?case using client_reachable.step [OF Cons.prems(2) run_client_step] by blast
qed simp

lemmas client_defs = new_life_def NewConnManager_def Start_def Add_def Stop_def stop_conn_def close_begin_def close_signal_def close_end_def Remove_def Let_def

text \<open>A dial of goroutine \<open>j\<close> from the network to the start of the connection, and a whole call of \<^verbatim>\<open>Stop\<close> on connection \<open>i\<close>.\<close>

abbreviation whole_dial :: "nat \<Rightarrow> client_act list" where
  "whole_dial j \<equiv> [CStep True j, CStep True j, CStep True j, CStep True j]"

abbreviation whole_stop :: "u64 \<Rightarrow> nat \<Rightarrow> client_act list" where
  "whole_stop i j \<equiv> [CStop, CStep True j, CStep True j, CSignal i, CUnregister i, CStep True j, CStep True j, CStep True j]"

section \<open>Properties\<close>

text \<open>
  C28: the backoff is exponential. For a policy with positive durations of at most \<open>2 ^ 53\<close> nanoseconds (104 days) and a
  multiplier above one, all float arithmetic rounded as IEEE doubles, the deterministic backoff before attempt \<open>a\<close> is the
  initial delay times the multiplier to the power of \<open>a\<close>, cut off at the maximum: exactly for an integral multiplier, as the
  default is, and up to a relative error of \<open>2 ^ - 53\<close> per multiplication otherwise. It never falls below the initial delay (or the maximum, if
  that is less), nor with the attempts. The jittered delay is the share \<open>(1 + r) / 2\<close>
  of it, up to three such errors and to whole nanoseconds, for every random number \<open>r\<close> in \<open>[0, 1)\<close>, and never leaves the range
  between half of the backoff and all of it.
\<close>

theorem backoff_bounds:
  assumes "policy_ok p" and "0 \<le> r" and "r < 1"
  shows "\<lfloor>min (of_int (maxDelay p)) (of_int (initial p) * (multiplier p * (1 - 1 / 2 ^ 53)) ^ nat a)\<rfloor> \<le> backoffValue fl p a \<and>
         backoffValue fl p a \<le> \<lfloor>min (of_int (maxDelay p)) (of_int (initial p) * (multiplier p * (1 + 1 / 2 ^ 53)) ^ nat a)\<rfloor> \<and>
         (\<forall>m. multiplier p = of_int m \<longrightarrow> backoffValue fl p a = min (maxDelay p) (initial p * m ^ nat a)) \<and>
         min (initial p) (maxDelay p) \<le> backoffValue fl p a \<and> (\<forall>b. a \<le> b \<longrightarrow> backoffValue fl p a \<le> backoffValue fl p b) \<and>
         \<lfloor>of_int (backoffValue fl p a) * ((1 + r) / 2) * (1 - 1 / 2 ^ 53) ^ 3\<rfloor> \<le> delay fl r p a \<and>
         delay fl r p a \<le> \<lfloor>of_int (backoffValue fl p a) * ((1 + r) / 2) * (1 + 1 / 2 ^ 53) ^ 3\<rfloor> \<and>
         backoffValue fl p a div 2 \<le> delay fl r p a \<and> delay fl r p a \<le> backoffValue fl p a"
  using assms
  by (intro conjI allI impI float64.backoff_low float64.backoff_high float64.backoff_int float64.backoff_ge float64.backoff_mono float64.delay_share float64.delay_bounds)

theorem backoff_bounds_witness:
  "backoffValue fl defaultReconnect 3 = 4000 * Millisecond \<and> backoffValue fl defaultReconnect 4 = 5000 * Millisecond \<and>
   2000 * Millisecond \<le> delay fl 0 defaultReconnect 3"
  using backoff_bounds [OF policy_ok_default, of 0 3] backoff_bounds [OF policy_ok_default, of 0 4]
  by (auto simp: defaultReconnect_def Millisecond_def dest: spec [of _ 2])

lemma stopped_for_good:
  assumes "client_reachable c" and "length (ctxs c) \<le> 1" and "stopping c" and "\<forall>t \<in> set (threads c). \<not> early t"
  shows "live c = []"
proof -
  have ses: "session c" using assms(1,2) by (rule reachable_session)
  then have "gone c" using assms(3,4) by (auto simp: session_def)
  with ses client_reachable_inv [OF assms(1)] show ?thesis by (rule session_gone)
qed

text \<open>
  A connection that \<^verbatim>\<open>Stop\<close> stopped before its dial registered it stays registered: the manager is full for ever. Every later \<^verbatim>\<open>Start\<close> fails with
  \<^verbatim>\<open>ErrServerFull\<close>, and \<^verbatim>\<open>Stop\<close>, which would empty the manager, does nothing because the client is not started.
\<close>

theorem stale_registration:
  "\<exists>c. client_reachable c \<and> \<not> started c \<and> live c = [] \<and> closing c = [] \<and> connections (connMgr c) = [(2, 2)] \<and> 2 \<in> set (ended c) \<and>
     (\<forall>b i. dial b (DialAdd i) c = (Inl (Some (Sentinel ErrServerFull)), c)) \<and> Stop c = c"
proof -
  obtain c where c: "run_clients ([CStart] @ whole_dial 0 @ [CLose 1, CSignal 1, CUnregister 1, CStep False 0, CStep False 0, CStep False 0, CStep True 0, CStep True 0] @
     whole_stop 2 1 @ [CStep True 0, CStep True 0]) new_life = Some c"
    "\<not> started c" "live c = []" "closing c = []" "connMgr c = \<lparr>connections = [(2, 2)], maxConn = 1\<rparr>" "2 \<in> set (ended c)"
    by (simp add: client_defs)
  then have "dial b (DialAdd i) c = (Inl (Some (Sentinel ErrServerFull)), c)" for b i by (simp add: Add_def)
  with c run_clients_reachable [OF c(1) client_reachable.new] show ?thesis by (auto simp: Stop_def)
qed

text \<open>
  A failed redial is the last one. After a connection is lost and the first attempt to dial again fails, the loop waits
  for a signal that only a connection can send, and there is none: the client, still started and not stopping, takes no
  further step on its own, although the code's comment announces a retry with a longer backoff.
\<close>

theorem failed_redial_is_final:
  "\<exists>c. client_reachable c \<and> started c \<and> \<not> stopping c \<and> live c = [] \<and> threads c = [Running 0 (RunSelect 1)] \<and> (\<forall>c'. \<not> client_internal c c')"
proof -
  obtain c where c: "run_clients ([CStart] @ whole_dial 0 @ [CLose 1, CSignal 1, CUnregister 1, CStep False 0, CStep False 0, CStep False 0, CStep False 0]) new_life = Some c"
    "started c" "\<not> stopping c" "live c = []" "closing c = []" "silent c = []" "\<not> connGone c" "published c = [1]" "ended c = [1]" "threads c = [Running 0 (RunSelect 1)]" "ctxs c = [False]"
    by (simp add: client_defs)
  have "\<not> client_internal c c'" for c'
    using c by (auto elim!: client_internal.cases split: if_splits)
  with c run_clients_reachable [OF c(1) client_reachable.new] show ?thesis by blast
qed

text \<open>
  A restart leaves a stale signal. \<^verbatim>\<open>Stop\<close> closes the connection, whose stop hook fills \<^verbatim>\<open>connGone\<close>, and nobody
  empties it; the loop of the next \<^verbatim>\<open>Start\<close> takes it for the loss of the new connection and dials again. The manager
  rejects the second connection, but \<^verbatim>\<open>c.conn\<close> already names it: \<^verbatim>\<open>Conn()\<close> returns a connection that was never
  started, while the live one is no longer reachable through the client.
\<close>

theorem restart_loses_connection:
  "\<exists>c. client_reachable c \<and> started c \<and> \<not> stopping c \<and> live c = [2] \<and> curConn c = Some 3"
proof -
  obtain c where c: "run_clients ([CStart] @ whole_dial 0 @ whole_stop 1 1 @ [CStep True 0, CStart] @ whole_dial 2 @
      [CStep False 2, CStep False 2, CStep False 2, CStep True 2, CStep True 2, CStep True 2]) new_life = Some c"
    "started c" "\<not> stopping c" "live c = [2]" "curConn c = Some 3"
    by (simp add: client_defs)
  with run_clients_reachable [OF c(1) client_reachable.new] show ?thesis by blast
qed

end
