(* ===== verification/Kinz_Codec.thy ===== *)
theory Kinz_Codec
  imports Kinz_Prelude
begin

text \<open>
  The message container (\<^verbatim>\<open>src/knet/message.go\<close>) and the TLV codec (\<^verbatim>\<open>src/knet/datapack.go\<close>), the default
  implementation of the \<^verbatim>\<open>ICodec\<close> seam (\<^verbatim>\<open>src/kiface/icodec.go\<close>). The locale \<open>stream_codec\<close> states
  what the rest of the framework relies on in a codec; it is interpreted on the TLV codec at the end.
\<close>

section \<open>Messages\<close>

record Message =
  Id :: u32
  DataLen :: u32
  Data :: bytes
  Raw :: bytes

text \<open>\<^verbatim>\<open>uint32(len(data))\<close> truncates, as \<^term>\<open>of_nat\<close> into \<^typ>\<open>u32\<close> does. A nil slice is the empty list.\<close>

definition NewMessage :: "u32 \<Rightarrow> bytes \<Rightarrow> Message" where
  "NewMessage i d = \<lparr>Id = i, DataLen = of_nat (length d), Data = d, Raw = []\<rparr>"

definition SetMsgID :: "u32 \<Rightarrow> Message \<Rightarrow> Message" where
  "SetMsgID i m = m\<lparr>Id := i\<rparr>"

definition SetData :: "bytes \<Rightarrow> Message \<Rightarrow> Message" where
  "SetData d m = m\<lparr>Data := d\<rparr>"

definition SetDataLen :: "u32 \<Rightarrow> Message \<Rightarrow> Message" where
  "SetDataLen l m = m\<lparr>DataLen := l\<rparr>"

lemma NewMessage_sel [simp]:
  "Id (NewMessage i d) = i" "Data (NewMessage i d) = d" "Raw (NewMessage i d) = []"
  by (simp_all add: NewMessage_def)

section \<open>Byte orders\<close>

text \<open>The two orders of \<^verbatim>\<open>encoding/binary\<close>: reading and writing a 32-bit value.\<close>

datatype ByteOrder = LittleEndian | BigEndian

fun Uint32 :: "ByteOrder \<Rightarrow> bytes \<Rightarrow> u32" where
  "Uint32 LittleEndian b =
     ucast (b ! 0) OR push_bit 8 (ucast (b ! 1)) OR push_bit 16 (ucast (b ! 2)) OR push_bit 24 (ucast (b ! 3))"
| "Uint32 BigEndian b =
     ucast (b ! 3) OR push_bit 8 (ucast (b ! 2)) OR push_bit 16 (ucast (b ! 1)) OR push_bit 24 (ucast (b ! 0))"

fun PutUint32 :: "ByteOrder \<Rightarrow> u32 \<Rightarrow> bytes" where
  "PutUint32 LittleEndian v =
     [ucast v, ucast (drop_bit 8 v), ucast (drop_bit 16 v), ucast (drop_bit 24 v)]"
| "PutUint32 BigEndian v =
     [ucast (drop_bit 24 v), ucast (drop_bit 16 v), ucast (drop_bit 8 v), ucast v]"

lemma length_PutUint32 [simp]: "length (PutUint32 ord v) = 4"
  by (cases ord) simp_all

lemma join_split_u32:
  "(ucast (ucast v :: u8) :: u32) OR push_bit 8 (ucast (ucast (drop_bit 8 v) :: u8))
     OR push_bit 16 (ucast (ucast (drop_bit 16 v) :: u8))
     OR push_bit 24 (ucast (ucast (drop_bit 24 v) :: u8)) = (v :: u32)"
proof (rule bit_word_eqI)
  fix n :: nat
  assume "n < LENGTH(32)"
  then consider "n < 8" | "8 \<le> n" "n < 16" | "16 \<le> n" "n < 24" | "24 \<le> n" "n < 32"
    by fastforce
  then show "bit ((ucast (ucast v :: u8) :: u32) OR push_bit 8 (ucast (ucast (drop_bit 8 v) :: u8))
     OR push_bit 16 (ucast (ucast (drop_bit 16 v) :: u8))
     OR push_bit 24 (ucast (ucast (drop_bit 24 v) :: u8))) n \<longleftrightarrow> bit v n"
    by cases (auto simp: bit_simps)
qed

lemma split_join_u32:
  fixes a b c d :: u8
  defines "w \<equiv> (ucast a :: u32) OR push_bit 8 (ucast b) OR push_bit 16 (ucast c) OR push_bit 24 (ucast d)"
  shows "ucast w = a" and "ucast (drop_bit 8 w) = b"
    and "ucast (drop_bit 16 w) = c" and "ucast (drop_bit 24 w) = d"
  unfolding w_def by (rule bit_word_eqI; auto simp: bit_simps dest: bit_imp_le_length)+

lemma Uint32_PutUint32 [simp]: "Uint32 ord (PutUint32 ord v @ rest) = v"
  by (cases ord) (simp_all add: join_split_u32)

lemma length4_conv: "length b = 4 \<Longrightarrow> \<exists>b0 b1 b2 b3. b = [b0, b1, b2, b3]"
  by (auto simp: numeral_eq_Suc length_Suc_conv)

lemma PutUint32_Uint32: "length b = 4 \<Longrightarrow> PutUint32 ord (Uint32 ord b) = b"
  by (cases ord) (auto dest!: length4_conv simp: split_join_u32 simp del: drop_bit_or)

section \<open>The TLV codec\<close>

definition defaultMaxPacketSize :: u32 where
  "defaultMaxPacketSize = 4096"

record TLVPack =
  order :: ByteOrder
  maxPacketSize :: u32
  inbuf :: bytes

text \<open>\<^verbatim>\<open>None\<close> is a nil \<^verbatim>\<open>binary.ByteOrder\<close>.\<close>

definition NewTLVPackWithOrder :: "ByteOrder option \<Rightarrow> u32 \<Rightarrow> TLVPack" where
  "NewTLVPackWithOrder ord mx =
     \<lparr>order = (case ord of None \<Rightarrow> LittleEndian | Some b \<Rightarrow> b), maxPacketSize = mx, inbuf = []\<rparr>"

definition NewTLVPack :: TLVPack where
  "NewTLVPack = NewTLVPackWithOrder (Some LittleEndian) defaultMaxPacketSize"

definition too_large :: "u32 \<Rightarrow> u32 \<Rightarrow> go_error" where
  "too_large dataLen mx = Wrapped ErrTooLargePacket
     (str '': got '' @ itoa (uint dataLen) @ str '' bytes, max '' @ itoa (uint mx))"

text \<open>
  The loop of \<^verbatim>\<open>Decode\<close>: it returns the messages, the error and what is left of \<^verbatim>\<open>t.in\<close>. Every round
  that continues consumes at least the eight header bytes.
\<close>

function decode_loop ::
  "ByteOrder \<Rightarrow> u32 \<Rightarrow> bytes \<Rightarrow> Message list \<Rightarrow> Message list \<times> go_error option \<times> bytes" where
  "decode_loop ord mx inp msgs =
     (if length inp < 8 then (msgs, None, inp)
      else let dataLen = Uint32 ord (take 4 inp); msgID = Uint32 ord (take 4 (drop 4 inp)) in
        if mx > 0 \<and> dataLen > mx then (msgs, Some (too_large dataLen mx), inp)
        else let total = 8 + unat dataLen in
          if length inp < total then (msgs, None, inp)
          else decode_loop ord mx (drop total inp)
            (msgs @ [\<lparr>Id = msgID, DataLen = dataLen,
                      Data = take (total - 8) (drop 8 inp), Raw = take 8 inp\<rparr>]))"
  by pat_completeness auto
termination
  by (relation "measure (\<lambda>(ord, mx, inp, msgs). length inp)") auto

declare decode_loop.simps [simp del]

definition Decode :: "TLVPack \<Rightarrow> bytes \<Rightarrow> Message list \<times> go_error option \<times> TLVPack" where
  "Decode t buff =
     (case decode_loop (order t) (maxPacketSize t) (inbuf t @ buff) [] of
        (msgs, err, rest) \<Rightarrow> (msgs, err, t\<lparr>inbuf := rest\<rparr>))"

text \<open>
  \<^verbatim>\<open>Pack\<close>: \<^verbatim>\<open>binary.Write\<close> of a \<^verbatim>\<open>uint32\<close> or a \<^verbatim>\<open>[]byte\<close> into a \<^verbatim>\<open>bytes.Buffer\<close> never fails, so the three
  error branches are dead; the length written is the \<^verbatim>\<open>DataLen\<close> field, not the length of \<^verbatim>\<open>Data\<close>.
\<close>

definition Pack :: "TLVPack \<Rightarrow> Message \<Rightarrow> go_error + bytes" where
  "Pack t m = Inr (PutUint32 (order t) (DataLen m) @ PutUint32 (order t) (Id m) @ Data m)"

definition Clone :: "TLVPack \<Rightarrow> TLVPack" where
  "Clone t = \<lparr>order = order t, maxPacketSize = maxPacketSize t, inbuf = []\<rparr>"

section \<open>The four outcomes of one round of the loop\<close>

definition frame_len :: "ByteOrder \<Rightarrow> bytes \<Rightarrow> u32" where
  "frame_len ord inp = Uint32 ord (take 4 inp)"

definition frame_msg :: "ByteOrder \<Rightarrow> bytes \<Rightarrow> Message" where
  "frame_msg ord inp =
     \<lparr>Id = Uint32 ord (take 4 (drop 4 inp)), DataLen = frame_len ord inp,
      Data = take (unat (frame_len ord inp)) (drop 8 inp), Raw = take 8 inp\<rparr>"

definition oversize :: "ByteOrder \<Rightarrow> u32 \<Rightarrow> bytes \<Rightarrow> bool" where
  "oversize ord mx inp \<longleftrightarrow> 8 \<le> length inp \<and> mx > 0 \<and> frame_len ord inp > mx"

definition complete :: "ByteOrder \<Rightarrow> bytes \<Rightarrow> bool" where
  "complete ord inp \<longleftrightarrow> 8 + unat (frame_len ord inp) \<le> length inp"

lemma decode_loop_step:
  "decode_loop ord mx inp msgs =
     (if oversize ord mx inp then (msgs, Some (too_large (frame_len ord inp) mx), inp)
      else if complete ord inp
      then decode_loop ord mx (drop (8 + unat (frame_len ord inp)) inp) (msgs @ [frame_msg ord inp])
      else (msgs, None, inp))"
  by (subst decode_loop.simps)
    (auto simp: oversize_def complete_def frame_len_def frame_msg_def Let_def)

lemma decode_loop_error:
  "oversize ord mx inp \<Longrightarrow>
     decode_loop ord mx inp msgs = (msgs, Some (too_large (frame_len ord inp) mx), inp)"
  by (subst decode_loop_step) simp

lemma decode_loop_wait:
  "\<not> oversize ord mx inp \<Longrightarrow> \<not> complete ord inp \<Longrightarrow> decode_loop ord mx inp msgs = (msgs, None, inp)"
  by (subst decode_loop_step) simp

lemma decode_loop_frame:
  "\<not> oversize ord mx inp \<Longrightarrow> complete ord inp \<Longrightarrow>
     decode_loop ord mx inp msgs =
       decode_loop ord mx (drop (8 + unat (frame_len ord inp)) inp) (msgs @ [frame_msg ord inp])"
  by (subst decode_loop_step) simp

text \<open>Induction over the frames of a buffer.\<close>

lemma frames_induct [case_names error wait frame]:
  assumes "\<And>inp. oversize ord mx inp \<Longrightarrow> P inp"
    and "\<And>inp. \<not> oversize ord mx inp \<Longrightarrow> \<not> complete ord inp \<Longrightarrow> P inp"
    and "\<And>inp. \<not> oversize ord mx inp \<Longrightarrow> complete ord inp \<Longrightarrow>
           P (drop (8 + unat (frame_len ord inp)) inp) \<Longrightarrow> P inp"
  shows "P inp"
proof (induction inp rule: length_induct)
  case (1 inp)
  show ?case
  proof (cases "oversize ord mx inp \<or> \<not> complete ord inp")
    case True
    with assms(1,2) show ?thesis by blast
  next
    case False
    then have "length (drop (8 + unat (frame_len ord inp)) inp) < length inp"
      unfolding complete_def length_drop by linarith
    with 1 False assms(3) show ?thesis by blast
  qed
qed

lemma decode_loop_acc:
  "decode_loop ord mx inp msgs =
     (case decode_loop ord mx inp [] of (ms, e, rest) \<Rightarrow> (msgs @ ms, e, rest))"
proof (induction inp arbitrary: msgs rule: frames_induct [of ord mx])
  case (frame inp)
  show ?case
    unfolding decode_loop_frame [OF frame.hyps]
    by (subst (1 2) frame.IH) (simp split: prod.splits)
qed (simp_all add: decode_loop_error decode_loop_wait)

section \<open>More bytes\<close>

lemma frame_len_append: "8 \<le> length inp \<Longrightarrow> frame_len ord (inp @ ext) = frame_len ord inp"
  by (simp add: frame_len_def)

lemma oversize_append: "oversize ord mx inp \<Longrightarrow> oversize ord mx (inp @ ext)"
  by (auto simp: oversize_def frame_len_append)

lemma complete_append: "complete ord inp \<Longrightarrow> complete ord (inp @ ext)"
  by (auto simp: complete_def frame_len_append)

lemma oversize_append_complete:
  "complete ord inp \<Longrightarrow> oversize ord mx (inp @ ext) = oversize ord mx inp"
  by (auto simp: complete_def oversize_def frame_len_append)

lemma frame_msg_append: "complete ord inp \<Longrightarrow> frame_msg ord (inp @ ext) = frame_msg ord inp"
  by (auto simp: complete_def frame_msg_def frame_len_append)

lemma drop_frame_append:
  "complete ord inp \<Longrightarrow>
     drop (8 + unat (frame_len ord (inp @ ext))) (inp @ ext) =
       drop (8 + unat (frame_len ord inp)) inp @ ext"
  by (simp add: complete_def frame_len_append)

lemmas append_frame_simps =
  oversize_append complete_append oversize_append_complete frame_msg_append drop_frame_append

text \<open>Decoding a longer buffer continues where decoding the shorter one stopped.\<close>

lemma decode_loop_append:
  "decode_loop ord mx (inp @ ext) [] =
     (case decode_loop ord mx inp [] of
        (ms, Some e, rest) \<Rightarrow> (ms, Some e, rest @ ext)
      | (ms, None, rest) \<Rightarrow>
          (case decode_loop ord mx (rest @ ext) [] of (ms', e', rest') \<Rightarrow> (ms @ ms', e', rest')))"
proof (induction inp rule: frames_induct [of ord mx])
  case (error inp)
  then show ?case
    by (simp add: decode_loop_error append_frame_simps frame_len_append oversize_def)
next
  case (wait inp)
  then show ?case
    by (simp add: decode_loop_wait)
next
  case (frame inp)
  let ?rest = "drop (8 + unat (frame_len ord inp)) inp"
  have "decode_loop ord mx (inp @ ext) [] = decode_loop ord mx (?rest @ ext) [frame_msg ord inp]"
    using frame.hyps by (subst decode_loop_frame) (simp_all add: append_frame_simps del: drop_append)
  moreover have "decode_loop ord mx inp [] = decode_loop ord mx ?rest [frame_msg ord inp]"
    using frame.hyps by (subst decode_loop_frame) simp_all
  ultimately show ?case
    by (auto simp: decode_loop_acc [of _ _ _ "[frame_msg ord inp]"] frame.IH
        split: prod.splits option.splits)
qed

section \<open>What a decoded buffer was made of\<close>

definition wire :: "ByteOrder \<Rightarrow> Message \<Rightarrow> bytes" where
  "wire ord m = PutUint32 ord (DataLen m) @ PutUint32 ord (Id m) @ Data m"

definition header :: "ByteOrder \<Rightarrow> Message \<Rightarrow> bytes" where
  "header ord m = PutUint32 ord (DataLen m) @ PutUint32 ord (Id m)"

text \<open>What \<^verbatim>\<open>Decode\<close> produces: the payload has the announced length, the limit holds, \<^verbatim>\<open>Raw\<close> is the header.\<close>

definition well_framed :: "ByteOrder \<Rightarrow> u32 \<Rightarrow> Message \<Rightarrow> bool" where
  "well_framed ord mx m \<longleftrightarrow>
     length (Data m) = unat (DataLen m) \<and> (mx > 0 \<longrightarrow> DataLen m \<le> mx) \<and> Raw m = header ord m"

lemma wire_frame_msg: "complete ord inp \<Longrightarrow> wire ord (frame_msg ord inp) = take (8 + unat (frame_len ord inp)) inp"
proof -
  assume c: "complete ord inp"
  then have "length inp \<ge> 8" by (simp add: complete_def)
  then have "take 4 inp @ take 4 (drop 4 inp) @ take n (drop 8 inp) = take (8 + n) inp" for n
    by (simp add: take_add [symmetric] flip: append_assoc take_add)
  then show ?thesis
    using \<open>8 \<le> length inp\<close>
    by (simp add: wire_def frame_msg_def frame_len_def PutUint32_Uint32)
qed

lemma well_framed_frame_msg:
  assumes "\<not> oversize ord mx inp" and "complete ord inp"
  shows "well_framed ord mx (frame_msg ord inp)"
proof -
  have len: "8 \<le> length inp" using assms(2) by (simp add: complete_def)
  have "take 8 inp = take 4 inp @ take 4 (drop 4 inp)"
    by (simp flip: take_add)
  with len assms show ?thesis
    by (auto simp: well_framed_def header_def frame_msg_def frame_len_def PutUint32_Uint32
        complete_def oversize_def)
qed

lemma decode_loop_conserves:
  "decode_loop ord mx inp [] = (ms, e, rest) \<Longrightarrow> inp = concat (map (wire ord) ms) @ rest"
proof (induction inp arbitrary: ms rule: frames_induct [of ord mx])
  case (frame inp)
  let ?rest = "drop (8 + unat (frame_len ord inp)) inp"
  from frame.prems obtain ms' where d: "decode_loop ord mx ?rest [] = (ms', e, rest)"
    and ms: "ms = frame_msg ord inp # ms'"
    by (auto simp: decode_loop_frame [OF frame.hyps] decode_loop_acc [of _ _ _ "[frame_msg ord inp]"]
        split: prod.splits)
  from frame.IH [OF d] frame.hyps(2) show ?case
    by (metis ms append.assoc append_take_drop_id concat.simps(2) list.simps(9) wire_frame_msg)
qed (auto simp: decode_loop_error decode_loop_wait)

lemma decode_loop_well_framed:
  "decode_loop ord mx inp [] = (ms, e, rest) \<Longrightarrow> m \<in> set ms \<Longrightarrow> well_framed ord mx m"
proof (induction inp arbitrary: ms rule: frames_induct [of ord mx])
  case (frame inp)
  then show ?case
    by (auto simp: decode_loop_frame decode_loop_acc [of _ _ _ "[frame_msg ord inp]"]
        well_framed_frame_msg split: prod.splits)
qed (auto simp: decode_loop_error decode_loop_wait)

lemma decode_loop_rest:
  "decode_loop ord mx inp [] = (ms, e, rest) \<Longrightarrow>
     (case e of None \<Rightarrow> \<not> oversize ord mx rest \<and> \<not> complete ord rest
      | Some er \<Rightarrow> oversize ord mx rest \<and> er = too_large (frame_len ord rest) mx)"
proof (induction inp arbitrary: ms rule: frames_induct [of ord mx])
  case (frame inp)
  then show ?case
    by (auto simp: decode_loop_frame decode_loop_acc [of _ _ _ "[frame_msg ord inp]"]
        split: prod.splits)
qed (auto simp: decode_loop_error decode_loop_wait)

section \<open>The contract of a codec\<close>

text \<open>
  \<open>feed\<close> passes the chunks of a stream to a codec one after the other and stops at the first error, as the
  read loop of a connection does.
\<close>

primrec feed :: "('c \<Rightarrow> bytes \<Rightarrow> Message list \<times> go_error option \<times> 'c) \<Rightarrow> 'c \<Rightarrow> bytes list
    \<Rightarrow> Message list \<times> go_error option \<times> 'c" where
  "feed dec c [] = ([], None, c)"
| "feed dec c (b # bs) =
     (case dec c b of
        (ms, Some e, c') \<Rightarrow> (ms, Some e, c')
      | (ms, None, c') \<Rightarrow> (case feed dec c' bs of (ms', e, c'') \<Rightarrow> (ms @ ms', e, c'')))"

text \<open>
  What \<^verbatim>\<open>ICodec\<close> promises. \<open>conf\<close> is the configuration, which decoding keeps and cloning copies; \<open>fresh\<close> means
  that no partial frame is buffered; \<open>sendable\<close> are the messages the configuration can carry and \<open>received\<close>
  is what the peer sees of them.
\<close>

locale stream_codec =
  fixes dec :: "'c \<Rightarrow> bytes \<Rightarrow> Message list \<times> go_error option \<times> 'c"
    and pack :: "'c \<Rightarrow> Message \<Rightarrow> go_error + bytes"
    and clone :: "'c \<Rightarrow> 'c"
    and conf :: "'c \<Rightarrow> 'k"
    and fresh :: "'c \<Rightarrow> bool"
    and sendable :: "'k \<Rightarrow> Message \<Rightarrow> bool"
    and received :: "'k \<Rightarrow> Message \<Rightarrow> Message"
  assumes fresh_clone: "fresh (clone c)"
    and conf_clone: "conf (clone c) = conf c"
    and dec_conf: "dec c b = (ms, e, c') \<Longrightarrow> conf c' = conf c"
    and pack_conf: "conf c = conf c' \<Longrightarrow> pack c m = pack c' m"
    and dec_Nil: "fresh c \<Longrightarrow> dec c [] = ([], None, c)"
    and dec_append: "dec c b = (ms, None, c') \<Longrightarrow>
          dec c (b @ b') = (case dec c' b' of (ms', e, c'') \<Rightarrow> (ms @ ms', e, c''))"
    and dec_append_error: "dec c b = (ms, Some er, c') \<Longrightarrow> \<exists>c''. dec c (b @ b') = (ms, Some er, c'')"
    and dec_pack: "fresh c \<Longrightarrow> sendable (conf c) m \<Longrightarrow>
          \<exists>w c'. pack c m = Inr w \<and> dec c w = ([received (conf c) m], None, c') \<and> fresh c'"
begin

lemma feed_dec:
  assumes "bs \<noteq> []" and "feed dec c bs = (ms, e, c')"
  shows "\<exists>c''. dec c (concat bs) = (ms, e, c'') \<and> (e = None \<longrightarrow> c'' = c')"
  using assms
proof (induction bs arbitrary: c ms e c')
  case (Cons b bs)
  obtain ms1 e1 c1 where d: "dec c b = (ms1, e1, c1)" by (metis prod_cases3)
  show ?case
  proof (cases "bs = [] \<or> e1 \<noteq> None")
    case True
    with Cons.prems d dec_append_error [of c b ms1 _ c1 "concat bs"] show ?thesis
      by (fastforce split: option.splits)
  next
    case False
    then have e1: "e1 = None" and ne: "bs \<noteq> []" by auto
    obtain ms2 e2 c2 where f: "feed dec c1 bs = (ms2, e2, c2)" by (metis prod_cases3)
    with Cons.prems d e1 have r: "ms = ms1 @ ms2" "e = e2" "c' = c2" by auto
    from Cons.IH [OF ne f] obtain c3 where "dec c1 (concat bs) = (ms2, e2, c3)"
      and "e2 = None \<longrightarrow> c3 = c2" by blast
    with d e1 r dec_append [of c b ms1 c1 "concat bs"] show ?thesis by simp
  qed
qed simp

lemma dec_wires:
  assumes "fresh c" and "\<And>m. m \<in> set msgs \<Longrightarrow> sendable (conf c) m"
    and "list_all2 (\<lambda>m w. pack c m = Inr w) msgs ws"
  shows "\<exists>c'. dec c (concat ws) = (map (received (conf c)) msgs, None, c') \<and> fresh c' \<and> conf c' = conf c"
  using assms
proof (induction msgs arbitrary: c ws)
  case Nil
  then show ?case by (simp add: dec_Nil)
next
  case (Cons m msgs)
  then obtain w ws' where ws: "ws = w # ws'" and w: "pack c m = Inr w"
    and ws': "list_all2 (\<lambda>m w. pack c m = Inr w) msgs ws'"
    by (auto simp: list_all2_Cons1)
  from dec_pack [of c m] Cons.prems w obtain c1
    where d: "dec c w = ([received (conf c) m], None, c1)" and "fresh c1" by auto
  have conf: "conf c1 = conf c" using d by (rule dec_conf)
  have "list_all2 (\<lambda>m w. pack c1 m = Inr w) msgs ws'"
    using ws' pack_conf [OF conf] by simp
  with Cons.IH [of c1 ws'] Cons.prems(2) conf \<open>fresh c1\<close> obtain c2
    where "dec c1 (concat ws') = (map (received (conf c)) msgs, None, c2)" "fresh c2" "conf c2 = conf c"
    by auto
  with dec_append [OF d] ws show ?case by simp
qed

text \<open>
  Delivery: whatever the chunks in which the stream arrives, a fresh clone of the sender's codec yields
  exactly the messages sent, in order, and ends with nothing buffered.
\<close>

lemma delivery:
  assumes "\<And>m. m \<in> set msgs \<Longrightarrow> sendable (conf s) m"
    and "list_all2 (\<lambda>m w. pack s m = Inr w) msgs ws"
    and "concat chunks = concat ws"
  shows "\<exists>c'. feed dec (clone s) chunks = (map (received (conf s)) msgs, None, c') \<and> fresh c'"
proof -
  have "list_all2 (\<lambda>m w. pack (clone s) m = Inr w) msgs ws"
    using assms(2) pack_conf [OF conf_clone [of s]] by simp
  with dec_wires [OF fresh_clone [of s], of msgs ws] assms(1) obtain c1
    where d: "dec (clone s) (concat ws) = (map (received (conf s)) msgs, None, c1)" and f: "fresh c1"
    unfolding conf_clone by blast
  show ?thesis
  proof (cases "chunks = []")
    case True
    with d assms(3) have "dec (clone s) [] = (map (received (conf s)) msgs, None, c1)"
      by (metis concat.simps(1))
    with True f show ?thesis by (simp add: dec_Nil fresh_clone)
  next
    case False
    obtain ms e c' where "feed dec (clone s) chunks = (ms, e, c')" by (metis prod_cases3)
    with feed_dec [OF False this] d f assms(3) show ?thesis by auto
  qed
qed

end

section \<open>The TLV codec keeps the contract\<close>

text \<open>
  A message the TLV format can carry: the length field is the length of the payload (as \<^const>\<open>NewMessage\<close>
  sets it below 4 GiB) and it is within the limit, where 0 means no limit.
\<close>

definition tlv_conf :: "TLVPack \<Rightarrow> ByteOrder \<times> u32" where
  "tlv_conf t = (order t, maxPacketSize t)"

definition tlv_fresh :: "TLVPack \<Rightarrow> bool" where
  "tlv_fresh t \<longleftrightarrow> inbuf t = []"

fun tlv_sendable :: "ByteOrder \<times> u32 \<Rightarrow> Message \<Rightarrow> bool" where
  "tlv_sendable (ord, mx) m \<longleftrightarrow> length (Data m) = unat (DataLen m) \<and> (mx > 0 \<longrightarrow> DataLen m \<le> mx)"

fun tlv_received :: "ByteOrder \<times> u32 \<Rightarrow> Message \<Rightarrow> Message" where
  "tlv_received (ord, mx) m = m\<lparr>Raw := header ord m\<rparr>"

lemma frame_of_wire:
  assumes "length (Data m) = unat (DataLen m)"
  shows "frame_len ord (wire ord m) = DataLen m" and "complete ord (wire ord m)"
    and "frame_msg ord (wire ord m) = m\<lparr>Raw := header ord m\<rparr>"
  using assms Uint32_PutUint32 [of ord _ "[]"]
  by (simp_all add: frame_len_def wire_def complete_def frame_msg_def header_def)

lemma decode_loop_wire:
  assumes "tlv_sendable (ord, mx) m"
  shows "decode_loop ord mx (wire ord m) [] = ([tlv_received (ord, mx) m], None, [])"
proof -
  have len: "length (Data m) = unat (DataLen m)" using assms by simp
  have "\<not> oversize ord mx (wire ord m)"
    using assms by (auto simp: oversize_def frame_of_wire [OF len])
  then have "decode_loop ord mx (wire ord m) [] = decode_loop ord mx [] [m\<lparr>Raw := header ord m\<rparr>]"
    by (subst decode_loop_frame) (simp_all add: frame_of_wire [OF len], simp add: wire_def len)
  then show ?thesis
    by (simp add: decode_loop.simps [of _ _ "[]"])
qed

interpretation tlv: stream_codec Decode Pack Clone tlv_conf tlv_fresh tlv_sendable tlv_received
proof (unfold_locales, goal_cases)
  case (3 c b ms e c')
  then show ?case by (auto simp: Decode_def tlv_conf_def split: prod.splits)
next
  case (4 c c' m)
  then show ?case by (simp add: Pack_def tlv_conf_def)
next
  case (5 c)
  then show ?case by (simp add: Decode_def tlv_fresh_def decode_loop.simps [of _ _ "[]"])
next
  case (6 c b ms c' b')
  then show ?case
    using decode_loop_append [of "order c" "maxPacketSize c" "inbuf c @ b" b']
    by (auto simp: Decode_def split: prod.splits)
next
  case (7 c b ms er c' b')
  then show ?case
    using decode_loop_append [of "order c" "maxPacketSize c" "inbuf c @ b" b']
    by (auto simp: Decode_def split: prod.splits)
next
  case (8 c m)
  then show ?case
    using decode_loop_wire [of "order c" "maxPacketSize c" m]
    by (auto simp: Decode_def Pack_def tlv_conf_def tlv_fresh_def wire_def simp del: tlv_sendable.simps)
qed (simp_all add: tlv_fresh_def tlv_conf_def Clone_def)

section \<open>Properties\<close>

lemma Decode_frame [frame_simps]:
  "Decode t b = (ms, e, t') \<Longrightarrow> order t' = order t \<and> maxPacketSize t' = maxPacketSize t"
  by (auto simp: Decode_def split: prod.splits)

lemma Decode_loop_conv:
  "Decode t b = (ms, e, t') \<longleftrightarrow>
     decode_loop (order t) (maxPacketSize t) (inbuf t @ b) [] = (ms, e, inbuf t') \<and> t' = t\<lparr>inbuf := inbuf t'\<rparr>"
  by (auto simp: Decode_def split: prod.splits)

text \<open>
  C6: end-to-end delivery. If every message has a correct length field within the packet limit, then for any
  way of cutting the concatenated output of \<^verbatim>\<open>Pack\<close> into read chunks (sticky and half packets), a clone of
  the codec decodes exactly these messages, in order, without an error, and ends with an empty buffer.
\<close>

theorem tlv_delivery:
  assumes "\<forall>m \<in> set msgs. tlv_sendable (order s, maxPacketSize s) m"
    and "list_all2 (\<lambda>m w. Pack s m = Inr w) msgs ws"
    and "concat chunks = concat ws"
  shows "\<exists>c'. feed Decode (Clone s) chunks =
           (map (tlv_received (order s, maxPacketSize s)) msgs, None, c') \<and> inbuf c' = []"
  using tlv.delivery [of msgs s ws chunks] assms by (simp add: tlv_conf_def tlv_fresh_def)

theorem tlv_delivery_witness:
  "\<exists>c'. feed Decode (Clone NewTLVPack) [[2, 0, 0], [0, 1, 0, 0, 0, 104], [105, 0, 0, 0, 0, 7, 0, 0], [0]] =
     ([\<lparr>Id = 1, DataLen = 2, Data = [104, 105], Raw = [2, 0, 0, 0, 1, 0, 0, 0]\<rparr>,
       \<lparr>Id = 7, DataLen = 0, Data = [], Raw = [0, 0, 0, 0, 7, 0, 0, 0]\<rparr>], None, c') \<and> inbuf c' = []"
  using tlv_delivery [of "[NewMessage 1 [104, 105], NewMessage 7 []]" NewTLVPack
      "[[2, 0, 0, 0, 1, 0, 0, 0, 104, 105], [0, 0, 0, 0, 7, 0, 0, 0]]"
      "[[2, 0, 0], [0, 1, 0, 0, 0, 104], [105, 0, 0, 0, 0, 7, 0, 0], [0]]"]
  by (simp add: NewTLVPack_def NewTLVPackWithOrder_def NewMessage_def Pack_def header_def
      defaultMaxPacketSize_def)

text \<open>
  C15: the chunking of the stream does not matter, also when the stream is malformed: feeding the chunks one by
  one gives the same messages and the same error as one \<^verbatim>\<open>Decode\<close> of the whole stream, and the same codec
  state when there is no error.
\<close>

theorem decode_chunking:
  assumes "bs \<noteq> []" and "feed Decode c bs = (ms, e, c')"
  shows "\<exists>c''. Decode c (concat bs) = (ms, e, c'') \<and> (e = None \<longrightarrow> c'' = c')"
  using assms by (rule tlv.feed_dec)

theorem decode_chunking_witness:
  "\<exists>c''. Decode (NewTLVPackWithOrder None 1) (concat [[0, 0, 0, 0, 7, 0, 0, 0, 9], [0, 0, 0, 1, 0, 0, 0]]) =
     ([\<lparr>Id = 7, DataLen = 0, Data = [], Raw = [0, 0, 0, 0, 7, 0, 0, 0]\<rparr>], Some (too_large 9 1), c'')"
proof -
  have "feed Decode (NewTLVPackWithOrder None 1) [[0, 0, 0, 0, 7, 0, 0, 0, 9], [0, 0, 0, 1, 0, 0, 0]] =
     ([\<lparr>Id = 7, DataLen = 0, Data = [], Raw = [0, 0, 0, 0, 7, 0, 0, 0]\<rparr>], Some (too_large 9 1),
      \<lparr>order = LittleEndian, maxPacketSize = 1, inbuf = [9, 0, 0, 0, 1, 0, 0, 0]\<rparr>)"
    by (simp add: NewTLVPackWithOrder_def Decode_def decode_loop.simps)
  from decode_chunking [OF _ this] show ?thesis by simp
qed

text \<open>
  Nothing is lost, invented or reordered: the bytes held before a \<^verbatim>\<open>Decode\<close> and the bytes passed to it are
  exactly the wire form of the returned messages followed by what stays buffered, and every returned message
  has a payload of the announced length, obeys the limit and carries its header in \<^verbatim>\<open>Raw\<close>.
\<close>

theorem decode_conserves:
  assumes "Decode t b = (ms, e, t')"
  shows "inbuf t @ b = concat (map (wire (order t)) ms) @ inbuf t' \<and>
         (\<forall>m. m \<in> set ms \<longrightarrow> well_framed (order t) (maxPacketSize t) m)"
  using assms decode_loop_conserves decode_loop_well_framed
  unfolding Decode_loop_conv by blast

theorem decode_conserves_witness:
  "inbuf (NewTLVPackWithOrder (Some BigEndian) 0) @ [0, 0, 0, 1, 0, 0, 0, 2, 5, 6] =
     concat (map (wire BigEndian) [\<lparr>Id = 2, DataLen = 1, Data = [5], Raw = [0, 0, 0, 1, 0, 0, 0, 2]\<rparr>]) @ [6]"
proof -
  have "Decode (NewTLVPackWithOrder (Some BigEndian) 0) [0, 0, 0, 1, 0, 0, 0, 2, 5, 6] =
     ([\<lparr>Id = 2, DataLen = 1, Data = [5], Raw = [0, 0, 0, 1, 0, 0, 0, 2]\<rparr>], None,
      \<lparr>order = BigEndian, maxPacketSize = 0, inbuf = [6]\<rparr>)"
    by (simp add: NewTLVPackWithOrder_def Decode_def decode_loop.simps)
  from decode_conserves [OF this] show ?thesis
    by (simp add: NewTLVPackWithOrder_def)
qed

text \<open>
  C16: bounded buffering. With a packet limit, a connection whose stream decodes without an error never holds
  more than one incomplete frame: fewer than \<^verbatim>\<open>8 + maxPacketSize\<close> bytes stay buffered.
\<close>

theorem decode_buffer_bound:
  assumes "Decode t b = (ms, None, t')" and "maxPacketSize t > 0"
  shows "length (inbuf t') < 8 + unat (maxPacketSize t)"
proof -
  have "\<not> oversize (order t) (maxPacketSize t) (inbuf t')" and "\<not> complete (order t) (inbuf t')"
    using assms(1) decode_loop_rest [of "order t" "maxPacketSize t" "inbuf t @ b" ms None "inbuf t'"]
    by (auto simp: Decode_loop_conv)
  with assms(2) show ?thesis
    by (fastforce simp: oversize_def complete_def word_less_nat_alt)
qed

theorem decode_buffer_bound_witness:
  "length (inbuf (snd (snd (Decode NewTLVPack [5, 0, 0, 0, 1, 0, 0, 0, 9])))) < 8 + unat (4096 :: u32)"
proof -
  have "Decode NewTLVPack [5, 0, 0, 0, 1, 0, 0, 0, 9] =
     ([], None, \<lparr>order = LittleEndian, maxPacketSize = 4096, inbuf = [5, 0, 0, 0, 1, 0, 0, 0, 9]\<rparr>)"
    by (simp add: NewTLVPack_def NewTLVPackWithOrder_def defaultMaxPacketSize_def Decode_def decode_loop.simps)
  with decode_buffer_bound [OF this] show ?thesis
    by (simp add: NewTLVPack_def NewTLVPackWithOrder_def defaultMaxPacketSize_def)
qed

text \<open>
  C17: oversized frames. After any number of acceptable messages, a header that announces more than the limit
  makes \<^verbatim>\<open>Decode\<close> fail with an error that wraps \<^verbatim>\<open>ErrTooLargePacket\<close>, whatever follows it, and the messages
  before it are returned along with the error.
\<close>

theorem decode_oversize:
  assumes "\<forall>m \<in> set msgs. tlv_sendable (order t, maxPacketSize t) m"
    and "tlv_fresh t" and "maxPacketSize t > 0" and "n > maxPacketSize t"
  shows "\<exists>t'. Decode t (concat (map (wire (order t)) msgs) @ PutUint32 (order t) n @ PutUint32 (order t) i @ rest) =
           (map (tlv_received (order t, maxPacketSize t)) msgs, Some (too_large n (maxPacketSize t)), t')
         \<and> errors_is (too_large n (maxPacketSize t)) ErrTooLargePacket"
proof -
  let ?bad = "PutUint32 (order t) n @ PutUint32 (order t) i @ rest"
  have "list_all2 (\<lambda>m w. Pack t m = Inr w) msgs (map (wire (order t)) msgs)"
    by (simp add: list_all2_map2 list_all2_same Pack_def wire_def)
  with tlv.dec_wires [of t msgs "map (wire (order t)) msgs"] assms(1,2) obtain t1
    where d: "Decode t (concat (map (wire (order t)) msgs)) =
        (map (tlv_received (order t, maxPacketSize t)) msgs, None, t1)"
      and "inbuf t1 = []" "order t1 = order t" "maxPacketSize t1 = maxPacketSize t"
    by (auto simp: tlv_conf_def tlv_fresh_def)
  then have "Decode t1 ?bad = ([], Some (too_large n (maxPacketSize t)), t1\<lparr>inbuf := ?bad\<rparr>)"
    using assms(3,4)
    by (simp add: Decode_def decode_loop_error oversize_def frame_len_def
        Uint32_PutUint32 [of "order t" n "[]", simplified])
  with tlv.dec_append [OF d, of ?bad] show ?thesis by (simp add: too_large_def)
qed

theorem decode_oversize_witness:
  "\<exists>t'. Decode (NewTLVPackWithOrder None 4) (wire LittleEndian (NewMessage 3 [8]) @ [5, 0, 0, 0, 1, 0, 0, 0, 6]) =
     ([\<lparr>Id = 3, DataLen = 1, Data = [8], Raw = [1, 0, 0, 0, 3, 0, 0, 0]\<rparr>], Some (too_large 5 4), t')"
  using decode_oversize [of "[NewMessage 3 [8]]" "NewTLVPackWithOrder None 4" 5 1 "[6]"]
  by (simp add: NewTLVPackWithOrder_def NewMessage_def tlv_fresh_def header_def)

end
