(* ===== verification/Kinz_Request.thy ===== *)
theory Kinz_Request
  imports Kinz_Codec
begin

text \<open>
  The request object and its handler chain (\<^verbatim>\<open>src/knet/request.go\<close>, \<^verbatim>\<open>src/kiface/irequest.go\<close>,
  \<^verbatim>\<open>src/kiface/irouter.go\<close>). A \<^verbatim>\<open>RouterHandler\<close> is user code; what the framework sees of it is the sequence of
  calls it makes on the request, so a handler is the tree of these calls, with a branch for every answer.
\<close>

section \<open>Handlers and requests\<close>

text \<open>
  \<open>HDo e\<close> stands for any other effect of the user's code (sending, logging), and \<open>HAsk e\<close> for one whose result the code
  goes on with (a property of the connection, the error of a send); \<open>HBind\<close> is a call of \<^verbatim>\<open>BindRouterSlices\<close>, which
  \<^verbatim>\<open>IRequest\<close> also offers to handlers.
\<close>

datatype ('v, 'e) handler =
    HReturn
  | HPanic
  | HNext "('v, 'e) handler"
  | HAbort "('v, 'e) handler"
  | HBind "('v, 'e) handler list" "('v, 'e) handler"
  | HSet bytes 'v "('v, 'e) handler"
  | HGet bytes "'v option \<Rightarrow> ('v, 'e) handler"
  | HGetMessage "Message option \<Rightarrow> ('v, 'e) handler"
  | HSetMessage "Message option" "('v, 'e) handler"
  | HGetConnection "u64 \<Rightarrow> ('v, 'e) handler"
  | HDo 'e "('v, 'e) handler"
  | HAsk 'e "'v \<Rightarrow> ('v, 'e) handler"

text \<open>
  The connection is referred to by its id, a nil \<^verbatim>\<open>IMessage\<close> or context map is \<^const>\<open>None\<close>.
\<close>

record ('v, 'e) Request =
  conn :: u64
  msg :: "Message option"
  handlers :: "('v, 'e) handler list"
  index :: nat
  aborted :: bool
  ctx :: "(bytes \<rightharpoonup> 'v) option"

definition NewRequest :: "u64 \<Rightarrow> Message option \<Rightarrow> ('v, 'e) Request" where
  "NewRequest c m = \<lparr>conn = c, msg = m, handlers = [], index = 0, aborted = False, ctx = None\<rparr>"

text \<open>\<^verbatim>\<open>GetMsgID\<close> and \<^verbatim>\<open>GetData\<close> dereference the message.\<close>

definition GetMsgID :: "('v, 'e) Request \<Rightarrow> u32 outcome" where
  "GetMsgID r = (case msg r of None \<Rightarrow> Panic | Some m \<Rightarrow> Ret (Id m))"

definition GetData :: "('v, 'e) Request \<Rightarrow> bytes outcome" where
  "GetData r = (case msg r of None \<Rightarrow> Panic | Some m \<Rightarrow> Ret (Data m))"

definition SetMessage :: "Message option \<Rightarrow> ('v, 'e) Request \<Rightarrow> ('v, 'e) Request" where
  "SetMessage m r = r\<lparr>msg := m\<rparr>"

definition BindRouterSlices :: "('v, 'e) handler list \<Rightarrow> ('v, 'e) Request \<Rightarrow> ('v, 'e) Request" where
  "BindRouterSlices hs r = r\<lparr>handlers := hs, index := 0, aborted := False\<rparr>"

definition Abort :: "('v, 'e) Request \<Rightarrow> ('v, 'e) Request" where
  "Abort r = r\<lparr>aborted := True\<rparr>"

definition Copy :: "('v, 'e) Request \<Rightarrow> ('v, 'e) Request" where
  "Copy r = \<lparr>conn = conn r, msg = msg r, handlers = handlers r, index = index r,
             aborted = False, ctx = None\<rparr>"

definition SetCtx :: "bytes \<Rightarrow> 'v \<Rightarrow> ('v, 'e) Request \<Rightarrow> ('v, 'e) Request" where
  "SetCtx k v r = r\<lparr>ctx := Some ((case ctx r of None \<Rightarrow> Map.empty | Some c \<Rightarrow> c)(k \<mapsto> v))\<rparr>"

definition GetCtx :: "bytes \<Rightarrow> ('v, 'e) Request \<Rightarrow> 'v option" where
  "GetCtx k r = (case ctx r of None \<Rightarrow> None | Some c \<Rightarrow> c k)"

lemma NewRequest_sel [simp]: "msg (NewRequest c m) = m" "conn (NewRequest c m) = c"
  by (simp_all add: NewRequest_def)

section \<open>Running the chain\<close>

text \<open>The observable trace: which handler was entered, and the effects of the handlers.\<close>

datatype 'e event = Enter nat | Effect 'e

datatype ('v, 'e) run =
    Done "('v, 'e) Request" "'e event list"
  | Panicked "('v, 'e) Request" "'e event list"
  | OutOfFuel

fun run_bind :: "('v, 'e) run \<Rightarrow> (('v, 'e) Request \<Rightarrow> 'e event list \<Rightarrow> ('v, 'e) run) \<Rightarrow> ('v, 'e) run" where
  "run_bind (Done r tr) k = k r tr"
| "run_bind (Panicked r tr) k = Panicked r tr"
| "run_bind OutOfFuel k = OutOfFuel"

text \<open>
  The body of one handler; \<open>nxt\<close> is the request's \<^verbatim>\<open>RouterSlicesNext\<close>. A panic unwinds through every handler
  that waits in \<^verbatim>\<open>RouterSlicesNext\<close>. \<open>ans\<close> is what the rest of the program answers to a call, which may depend on all that
  has happened so far: traces only grow, so that the answers of one run are unrelated unless \<open>ans\<close> relates them.
\<close>

primrec exec_handler ::
  "('e event list \<Rightarrow> 'e \<Rightarrow> 'v) \<Rightarrow> (('v, 'e) Request \<Rightarrow> 'e event list \<Rightarrow> ('v, 'e) run) \<Rightarrow> ('v, 'e) handler
     \<Rightarrow> ('v, 'e) Request \<Rightarrow> 'e event list \<Rightarrow> ('v, 'e) run" where
  "exec_handler ans nxt HReturn = (\<lambda>r tr. Done r tr)"
| "exec_handler ans nxt HPanic = (\<lambda>r tr. Panicked r tr)"
| "exec_handler ans nxt (HNext k) = (\<lambda>r tr. run_bind (nxt r tr) (exec_handler ans nxt k))"
| "exec_handler ans nxt (HAbort k) = (\<lambda>r tr. exec_handler ans nxt k (Abort r) tr)"
| "exec_handler ans nxt (HBind hs k) = (\<lambda>r tr. exec_handler ans nxt k (BindRouterSlices hs r) tr)"
| "exec_handler ans nxt (HSet key v k) = (\<lambda>r tr. exec_handler ans nxt k (SetCtx key v r) tr)"
| "exec_handler ans nxt (HGet key k) = (\<lambda>r tr. exec_handler ans nxt (k (GetCtx key r)) r tr)"
| "exec_handler ans nxt (HGetMessage k) = (\<lambda>r tr. exec_handler ans nxt (k (msg r)) r tr)"
| "exec_handler ans nxt (HSetMessage m k) = (\<lambda>r tr. exec_handler ans nxt k (SetMessage m r) tr)"
| "exec_handler ans nxt (HGetConnection k) = (\<lambda>r tr. exec_handler ans nxt (k (conn r)) r tr)"
| "exec_handler ans nxt (HDo e k) = (\<lambda>r tr. exec_handler ans nxt k r (tr @ [Effect e]))"
| "exec_handler ans nxt (HAsk e k) = (\<lambda>r tr. exec_handler ans nxt (k (ans tr e)) r (tr @ [Effect e]))"

text \<open>
  \<^verbatim>\<open>RouterSlicesNext\<close>. A handler that rebinds the chain can make it run forever, hence the fuel, which counts
  the nesting of calls; \<open>RouterSlicesNext_enough\<close> below says how much is enough.
\<close>

primrec RouterSlicesNext :: "('e event list \<Rightarrow> 'e \<Rightarrow> 'v) \<Rightarrow> nat \<Rightarrow> ('v, 'e) Request \<Rightarrow> 'e event list \<Rightarrow> ('v, 'e) run" where
  "RouterSlicesNext ans 0 = (\<lambda>r tr. OutOfFuel)"
| "RouterSlicesNext ans (Suc fuel) = (\<lambda>r tr.
     if aborted r then Done r tr
     else if index r \<ge> length (handlers r) then Done r tr
     else exec_handler ans (RouterSlicesNext ans fuel) (handlers r ! index r)
            (r\<lparr>index := index r + 1\<rparr>) (tr @ [Enter (index r)]))"

section \<open>Handlers that keep to the chain\<close>

text \<open>
  \<open>no_bind\<close>: the handler never rebinds the chain. \<open>sets_msg P\<close>: every message it
  installs satisfies \<open>P\<close>; \<open>keeps_msg\<close>: it never replaces the message by nil.
\<close>

primrec no_bind :: "('v, 'e) handler \<Rightarrow> bool" where
  "no_bind HReturn \<longleftrightarrow> True"
| "no_bind HPanic \<longleftrightarrow> True"
| "no_bind (HNext k) \<longleftrightarrow> no_bind k"
| "no_bind (HAbort k) \<longleftrightarrow> no_bind k"
| "no_bind (HBind hs k) \<longleftrightarrow> False"
| "no_bind (HSet key v k) \<longleftrightarrow> no_bind k"
| "no_bind (HGet key k) \<longleftrightarrow> (\<forall>v. no_bind (k v))"
| "no_bind (HGetMessage k) \<longleftrightarrow> (\<forall>m. no_bind (k m))"
| "no_bind (HSetMessage m k) \<longleftrightarrow> no_bind k"
| "no_bind (HGetConnection k) \<longleftrightarrow> (\<forall>c. no_bind (k c))"
| "no_bind (HDo e k) \<longleftrightarrow> no_bind k"
| "no_bind (HAsk e k) \<longleftrightarrow> (\<forall>v. no_bind (k v))"

primrec sets_msg :: "(Message option \<Rightarrow> bool) \<Rightarrow> ('v, 'e) handler \<Rightarrow> bool" where
  "sets_msg P HReturn \<longleftrightarrow> True"
| "sets_msg P HPanic \<longleftrightarrow> True"
| "sets_msg P (HNext k) \<longleftrightarrow> sets_msg P k"
| "sets_msg P (HAbort k) \<longleftrightarrow> sets_msg P k"
| "sets_msg P (HBind hs k) \<longleftrightarrow> sets_msg P k"
| "sets_msg P (HSet key v k) \<longleftrightarrow> sets_msg P k"
| "sets_msg P (HGet key k) \<longleftrightarrow> (\<forall>v. sets_msg P (k v))"
| "sets_msg P (HGetMessage k) \<longleftrightarrow> (\<forall>m. sets_msg P (k m))"
| "sets_msg P (HSetMessage m k) \<longleftrightarrow> P m \<and> sets_msg P k"
| "sets_msg P (HGetConnection k) \<longleftrightarrow> (\<forall>c. sets_msg P (k c))"
| "sets_msg P (HDo e k) \<longleftrightarrow> sets_msg P k"
| "sets_msg P (HAsk e k) \<longleftrightarrow> (\<forall>v. sets_msg P (k v))"

abbreviation keeps_msg :: "('v, 'e) handler \<Rightarrow> bool" where
  "keeps_msg \<equiv> sets_msg (\<lambda>m. m \<noteq> None)"

lemma sets_msg_True [simp]: "sets_msg (\<lambda>_. True) h"
  by (induction h) auto

text \<open>\<open>run_all Q\<close>: the run ends (does not run out of fuel) in a state that satisfies \<open>Q\<close>, panicked or not.\<close>

fun run_all :: "(('v, 'e) Request \<Rightarrow> 'e event list \<Rightarrow> bool) \<Rightarrow> ('v, 'e) run \<Rightarrow> bool" where
  "run_all Q (Done r tr) \<longleftrightarrow> Q r tr"
| "run_all Q (Panicked r tr) \<longleftrightarrow> Q r tr"
| "run_all Q OutOfFuel \<longleftrightarrow> False"

lemma run_all_bind:
  "run_all Q x \<Longrightarrow> (\<And>r tr. Q r tr \<Longrightarrow> run_all Q (k r tr)) \<Longrightarrow> run_all Q (run_bind x k)"
  by (cases x) auto

lemma run_all_mono: "run_all Q x \<Longrightarrow> (\<And>r tr. Q r tr \<Longrightarrow> Q' r tr) \<Longrightarrow> run_all Q' x"
  by (cases x) auto

text \<open>
  A property of requests and traces that every call a handler may make preserves is preserved by the handler:
  the framework's view of user code.
\<close>

locale handler_invariant =
  fixes P :: "Message option \<Rightarrow> bool"
    and Q :: "('v, 'e) Request \<Rightarrow> 'e event list \<Rightarrow> bool"
  assumes Q_Abort: "Q r tr \<Longrightarrow> Q (Abort r) tr"
    and Q_SetCtx: "Q r tr \<Longrightarrow> Q (SetCtx key v r) tr"
    and Q_SetMessage: "Q r tr \<Longrightarrow> P m \<Longrightarrow> Q (SetMessage m r) tr"
    and Q_Effect: "Q r tr \<Longrightarrow> Q r (tr @ [Effect e])"
begin

lemma exec_handler_keeps:
  assumes nxt: "\<And>r tr. Q r tr \<Longrightarrow> run_all Q (nxt r tr)"
    and "no_bind h" and "sets_msg P h" and "Q r tr"
  shows "run_all Q (exec_handler ans nxt h r tr)"
  using assms(2-)
proof (induction h arbitrary: r tr)
  case (HNext k)
  then show ?case by (auto intro!: run_all_bind nxt)
next
  case (HAsk e k)
  then show ?case using Q_Effect [of r tr e] by auto
qed (auto intro: Q_Abort Q_SetCtx Q_Effect Q_SetMessage)

end

section \<open>Walking the chain\<close>

fun entries :: "'e event list \<Rightarrow> nat list" where
  "entries [] = []"
| "entries (Enter i # tr) = i # entries tr"
| "entries (Effect e # tr) = entries tr"

fun effects :: "'e event list \<Rightarrow> 'e list" where
  "effects [] = []"
| "effects (Enter i # tr) = effects tr"
| "effects (Effect e # tr) = e # effects tr"

lemma entries_append [simp]: "entries (tr @ tr') = entries tr @ entries tr'"
  by (induction tr rule: entries.induct) simp_all

lemma effects_append [simp]: "effects (tr @ tr') = effects tr @ effects tr'"
  by (induction tr rule: effects.induct) simp_all

text \<open>
  A request on its way through chain \<open>H\<close>: the chain is unchanged, the handlers entered so far are exactly the
  first \<open>index\<close> ones, in order, and at least \<open>i\<close> of them.
\<close>

definition in_chain :: "(Message option \<Rightarrow> bool) \<Rightarrow> ('v, 'e) handler list \<Rightarrow> nat
    \<Rightarrow> ('v, 'e) Request \<Rightarrow> 'e event list \<Rightarrow> bool" where
  "in_chain P H i r tr \<longleftrightarrow>
     handlers r = H \<and> i \<le> index r \<and> index r \<le> length H \<and> entries tr = [0..<index r] \<and> P (msg r)"

interpretation chain: handler_invariant P "in_chain P H i" for P H i
  by unfold_locales (auto simp: in_chain_def Abort_def SetCtx_def SetMessage_def)

lemma in_chain_mono: "in_chain P H j r tr \<Longrightarrow> i \<le> j \<Longrightarrow> in_chain P H i r tr"
  by (simp add: in_chain_def)

lemma RouterSlicesNext_chain:
  assumes "\<forall>h \<in> set H. no_bind h \<and> sets_msg P h" and "length H - i < fuel" and "in_chain P H i r tr"
  shows "run_all (in_chain P H i) (RouterSlicesNext ans fuel r tr)"
  using assms(2,3)
proof (induction fuel arbitrary: i r tr)
  case 0
  then show ?case by simp
next
  case (Suc fuel)
  show ?case
  proof (cases "aborted r \<or> index r \<ge> length (handlers r)")
    case True
    with Suc.prems show ?thesis by auto
  next
    case False
    let ?r = "r\<lparr>index := index r + 1\<rparr>" and ?j = "index r + 1" and ?tr = "tr @ [Enter (index r)]"
    from Suc.prems False have H: "handlers r = H" "index r < length H" "i \<le> index r"
      by (auto simp: in_chain_def)
    have "in_chain P H ?j ?r ?tr"
      using Suc.prems(2) H by (auto simp: in_chain_def)
    moreover have "run_all (in_chain P H ?j) (RouterSlicesNext ans fuel r' tr')" if "in_chain P H ?j r' tr'" for r' tr'
      using that H Suc.prems(1) by (intro Suc.IH) auto
    moreover have "no_bind (H ! index r) \<and> sets_msg P (H ! index r)"
      using assms(1) H by auto
    ultimately have "run_all (in_chain P H ?j) (exec_handler ans (RouterSlicesNext ans fuel) (H ! index r) ?r ?tr)"
      by (intro chain.exec_handler_keeps) auto
    then have "run_all (in_chain P H i) (exec_handler ans (RouterSlicesNext ans fuel) (H ! index r) ?r ?tr)"
      using H(3) by (auto elim!: run_all_mono in_chain_mono)
    with False H show ?thesis by simp
  qed
qed

text \<open>After \<^verbatim>\<open>Abort\<close> no handler is entered any more.\<close>

definition stopped_at :: "nat list \<Rightarrow> ('v, 'e) Request \<Rightarrow> 'e event list \<Rightarrow> bool" where
  "stopped_at es r tr \<longleftrightarrow> aborted r \<and> entries tr = es"

interpretation stopped: handler_invariant "\<lambda>_. True" "stopped_at es" for es
  by unfold_locales (auto simp: stopped_at_def Abort_def SetCtx_def SetMessage_def)

lemma RouterSlicesNext_stopped: "stopped_at es r tr \<Longrightarrow> RouterSlicesNext ans (Suc fuel) r tr = Done r tr"
  by (simp add: stopped_at_def)

section \<open>The onion\<close>

text \<open>A middleware that acts before and after the rest of the chain, and a route handler that ends it.\<close>

definition middleware :: "'e \<times> 'e \<Rightarrow> ('v, 'e) handler" where
  "middleware ab = HDo (fst ab) (HNext (HDo (snd ab) HReturn))"

definition leaf :: "'e \<Rightarrow> ('v, 'e) handler" where
  "leaf e = HDo e HReturn"

lemma RouterSlicesNext_onion:
  assumes "handlers r = pre @ map middleware ms @ leaf e # rest" and "index r = length pre"
    and "\<not> aborted r" and "length ms < fuel"
  shows "\<exists>tr'. RouterSlicesNext ans fuel r tr = Done (r\<lparr>index := length pre + length ms + 1\<rparr>) tr' \<and>
           effects tr' = effects tr @ map fst ms @ e # rev (map snd ms)"
  using assms
proof (induction ms arbitrary: fuel r tr pre)
  case Nil
  then show ?case
    by (cases fuel) (auto simp: leaf_def)
next
  case (Cons ab ms)
  then obtain n where fuel: "fuel = Suc n" and "length ms < n" by (cases fuel) auto
  let ?r = "r\<lparr>index := index r + 1\<rparr>" and ?tr = "tr @ [Enter (index r), Effect (fst ab)]"
  from Cons.IH [of ?r "pre @ [middleware ab]" n ?tr] Cons.prems \<open>length ms < n\<close> obtain tr'
    where "RouterSlicesNext ans n ?r ?tr = Done (r\<lparr>index := length pre + length ms + 2\<rparr>) tr'"
      and "effects tr' = effects tr @ fst ab # map fst ms @ e # rev (map snd ms)"
    by auto
  then show ?case
    using Cons.prems fuel by (auto simp: middleware_def [of ab] nth_append)
qed

section \<open>Properties\<close>

text \<open>
  C14: the chain terminates and is walked in order. If no handler of the chain rebinds it, then calling
  \<^verbatim>\<open>RouterSlicesNext\<close> on a freshly bound request returns (normally or by a panic), the chain is unchanged, and the
  handlers entered are exactly the first \<^verbatim>\<open>index\<close> ones, each once and in registration order.
\<close>

theorem chain_walk:
  assumes "\<forall>h \<in> set H. no_bind h" and "length H < fuel"
  shows "run_all (\<lambda>r' tr'. handlers r' = H \<and> index r' \<le> length H \<and> entries tr' = [0..<index r'])
           (RouterSlicesNext ans fuel (BindRouterSlices H r) [])"
proof -
  have "in_chain (\<lambda>_. True) H 0 (BindRouterSlices H r) []"
    by (simp add: in_chain_def BindRouterSlices_def)
  with assms have "run_all (in_chain (\<lambda>_. True) H 0) (RouterSlicesNext ans fuel (BindRouterSlices H r) [])"
    by (intro RouterSlicesNext_chain) auto
  then show ?thesis by (rule run_all_mono) (simp add: in_chain_def)
qed

theorem chain_walk_witness:
  "run_all (\<lambda>r' tr'. handlers r' = [middleware (1, 2), HAbort (HNext HReturn), leaf 9] \<and> index r' \<le> 3
       \<and> entries tr' = [0..<index r'])
     (RouterSlicesNext (\<lambda>_ _. 0) 4 (BindRouterSlices [middleware (1, 2), HAbort (HNext HReturn), leaf 9]
        (NewRequest 1 None :: (nat, nat) Request)) [])"
  using chain_walk [of "[middleware (1, 2), HAbort (HNext HReturn), leaf 9 :: (nat, nat) handler]" 4 "\<lambda>_ _. 0" "NewRequest 1 None"]
  by (simp add: middleware_def leaf_def numeral_3_eq_3)

text \<open>
  \<^verbatim>\<open>Abort\<close> stops the chain. Once the request is aborted, whatever a handler still does (short of rebinding the
  chain), its remaining code runs to the end or panics, no further handler is entered and the request stays aborted.
\<close>

theorem abort_stops_chain:
  assumes "aborted r" and "no_bind h"
  shows "run_all (\<lambda>r' tr'. aborted r' \<and> entries tr' = entries tr)
           (exec_handler ans (RouterSlicesNext ans (Suc fuel)) h r tr)"
proof -
  have "run_all (stopped_at (entries tr)) (exec_handler ans (RouterSlicesNext ans (Suc fuel)) h r tr)"
    using assms RouterSlicesNext_stopped
    by (intro stopped.exec_handler_keeps) (simp_all add: stopped_at_def)
  then show ?thesis by (rule run_all_mono) (simp add: stopped_at_def)
qed

theorem abort_stops_chain_witness:
  "run_all (\<lambda>r' tr'. aborted r' \<and> entries tr' = entries [Enter 0])
     (exec_handler (\<lambda>_ _. 0) (RouterSlicesNext (\<lambda>_ _. 0) (Suc 4)) (HNext (HDo 5 HReturn))
        (Abort (BindRouterSlices [HReturn, leaf 9] (NewRequest 1 None)) :: (nat, nat) Request) [Enter 0])"
  using abort_stops_chain [of "Abort (BindRouterSlices [HReturn, leaf 9] (NewRequest 1 None)) :: (nat, nat) Request"
      "HNext (HDo 5 HReturn)" "[Enter 0]" "\<lambda>_ _. 0" 4]
  by (simp add: Abort_def)

end
