(* ===== verification/Kinz_Chan.thy ===== *)
theory Kinz_Chan
  imports Kinz_Prelude
begin

text \<open>
  Go channels, as far as the sources use them: a buffered channel with its queue of blocked senders. The locale
  \<open>fifo\<close> is the order guarantee the worker pool and the connection writer rest on.
\<close>

section \<open>Channels\<close>

text \<open>
  \<open>cbuf\<close> is the buffer, \<open>cwait\<close> the values offered by blocked senders, oldest first. A receive takes the oldest
  value and lets the first blocked sender complete.
\<close>

record 'a chan =
  ccap :: nat
  cbuf :: "'a list"
  cwait :: "'a list"

definition make_chan :: "nat \<Rightarrow> 'a chan" where
  "make_chan n = \<lparr>ccap = n, cbuf = [], cwait = []\<rparr>"

definition chan_ready :: "'a chan \<Rightarrow> bool" where
  "chan_ready ch \<longleftrightarrow> length (cbuf ch) < ccap ch"

definition chan_send :: "'a \<Rightarrow> 'a chan \<Rightarrow> 'a chan" where
  "chan_send x ch =
     (if chan_ready ch then ch\<lparr>cbuf := cbuf ch @ [x]\<rparr> else ch\<lparr>cwait := cwait ch @ [x]\<rparr>)"

definition contents :: "'a chan \<Rightarrow> 'a list" where
  "contents ch = cbuf ch @ cwait ch"

definition chan_recv :: "'a chan \<Rightarrow> ('a \<times> 'a chan) option" where
  "chan_recv ch =
     (case contents ch of
        [] \<Rightarrow> None
      | x # xs \<Rightarrow> Some (x, ch\<lparr>cbuf := take (ccap ch) xs, cwait := drop (ccap ch) xs\<rparr>))"

definition chan_inv :: "'a chan \<Rightarrow> bool" where
  "chan_inv ch \<longleftrightarrow> length (cbuf ch) \<le> ccap ch \<and> (cwait ch \<noteq> [] \<longrightarrow> length (cbuf ch) = ccap ch)"

section \<open>First in, first out\<close>

locale fifo =
  fixes send :: "'a \<Rightarrow> 'q \<Rightarrow> 'q"
    and recv :: "'q \<Rightarrow> ('a \<times> 'q) option"
    and content :: "'q \<Rightarrow> 'a list"
    and inv :: "'q \<Rightarrow> bool"
  assumes send_content: "inv q \<Longrightarrow> content (send x q) = content q @ [x]"
    and send_inv: "inv q \<Longrightarrow> inv (send x q)"
    and recv_None: "recv q = None \<longleftrightarrow> content q = []"
    and recv_Some: "recv q = Some (x, q') \<Longrightarrow> content q = x # content q'"
    and recv_inv: "inv q \<Longrightarrow> recv q = Some (x, q') \<Longrightarrow> inv q'"
begin

lemma send_all_content: "inv q \<Longrightarrow> content (fold send xs q) = content q @ xs \<and> inv (fold send xs q)"
  by (induction xs arbitrary: q) (simp_all add: send_content send_inv)

text \<open>What has been received followed by what is still inside is what was there followed by what was sent.\<close>

lemma recv_log: "recv q = Some (x, q') \<Longrightarrow> log @ content q = (log @ [x]) @ content q'"
  using recv_Some [of q x q'] by simp

lemma recv_length: "recv q = Some (x, q') \<Longrightarrow> length (content q) = Suc (length (content q'))"
  using recv_Some [of q x q'] by simp

end

interpretation chan: fifo chan_send chan_recv contents chan_inv
  by unfold_locales
    (auto simp: chan_send_def chan_recv_def contents_def chan_inv_def chan_ready_def min_def
      split: list.splits if_splits)

lemma contents_make_chan [simp]: "contents (make_chan n) = []"
  by (simp add: make_chan_def contents_def)

lemma chan_inv_make_chan [simp, inv_intros]: "chan_inv (make_chan n)"
  by (simp add: make_chan_def chan_inv_def)

lemma ccap_chan_send [simp]: "ccap (chan_send x ch) = ccap ch"
  by (simp add: chan_send_def)

end
