(* ===== verification/Kinz_Router.thy ===== *)
theory Kinz_Router
  imports Kinz_Request Kinz_Chan
begin

text \<open>
  The routing half of \<^verbatim>\<open>MsgHandler\<close> (\<^verbatim>\<open>src/knet/msgHandler.go\<close>, \<^verbatim>\<open>src/knet/routerSlices.go\<close>): registration of
  route handlers, global middleware and range middleware, and \<^verbatim>\<open>Execute\<close>, which builds the chain of a message,
  runs it and recovers panics. The mutex makes every registration atomic, so each operation is one state change.
  The locale \<open>route_table\<close> is what its clients rely on.
\<close>

section \<open>State\<close>

record ('v, 'e) groupRange =
  gstart :: u32
  gend :: u32
  ghandlers :: "('v, 'e) handler list"

text \<open>How often each handle of \<^verbatim>\<open>handlerMetrics\<close> (\<^verbatim>\<open>src/knet/metrics.go\<close>) was incremented or observed.\<close>

record handlerMetrics =
  panics :: nat
  duration :: nat
  queueFull :: nat

text \<open>
  The struct: \<open>taskQueue\<close> holds the worker channels; \<open>workerCtx\<close> is \<^const>\<open>None\<close> while nil and
  otherwise says whether the context is cancelled; \<open>workerCancel\<close> says whether the cancel function is set;
  \<open>workerWG\<close> is the counter of the wait group.
\<close>

record ('v, 'e) MsgHandler =
  apis :: "u32 \<rightharpoonup> ('v, 'e) handler list"
  groupRanges :: "('v, 'e) groupRange list"
  globalHandlers :: "('v, 'e) handler list"
  workerPoolSize :: u32
  maxWorkerTaskLen :: u32
  taskQueue :: "('v, 'e) Request chan list"
  workerCtx :: "bool option"
  workerCancel :: bool
  workerWG :: nat
  metrics :: "handlerMetrics option"

definition NewMsgHandler :: "u32 \<Rightarrow> u32 \<Rightarrow> ('v, 'e) MsgHandler" where
  "NewMsgHandler ps tlen =
     \<lparr>apis = Map.empty, groupRanges = [], globalHandlers = [], workerPoolSize = ps, maxWorkerTaskLen = tlen,
      taskQueue = [], workerCtx = None, workerCancel = False, workerWG = 0, metrics = None\<rparr>"

definition SetMetrics :: "handlerMetrics option \<Rightarrow> ('v, 'e) MsgHandler \<Rightarrow> ('v, 'e) MsgHandler" where
  "SetMetrics m mh = mh\<lparr>metrics := m\<rparr>"

section \<open>Registration\<close>

definition addSlices :: "u32 \<Rightarrow> ('v, 'e) handler list \<Rightarrow> ('v, 'e) MsgHandler
    \<Rightarrow> go_error option \<times> ('v, 'e) MsgHandler" where
  "addSlices msgID hs mh =
     (case apis mh msgID of
        Some _ \<Rightarrow> (Some (Wrapped ErrMsgIDRegistered (str '': msgID '' @ itoa (uint msgID))), mh)
      | None \<Rightarrow> (None, mh\<lparr>apis := (apis mh)(msgID \<mapsto> hs)\<rparr>))"

text \<open>The returned handles point back to the handler; only success matters of them.\<close>

definition AddRouterSlices :: "u32 \<Rightarrow> ('v, 'e) handler list \<Rightarrow> ('v, 'e) MsgHandler
    \<Rightarrow> (go_error + unit) \<times> ('v, 'e) MsgHandler" where
  "AddRouterSlices msgID hs mh =
     (case addSlices msgID hs mh of
        (Some e, mh') \<Rightarrow> (Inl e, mh')
      | (None, mh') \<Rightarrow> (Inr (), mh'))"

text \<open>A \<^verbatim>\<open>groupRouterSlices\<close> handle is its range.\<close>

definition Group :: "u32 \<Rightarrow> u32 \<Rightarrow> ('v, 'e) handler list \<Rightarrow> ('v, 'e) MsgHandler
    \<Rightarrow> (go_error + u32 \<times> u32) \<times> ('v, 'e) MsgHandler" where
  "Group s e hs mh =
     (if s > e
      then (Inl (Plain (str ''kinz: invalid group range ['' @ itoa (uint s) @ str '', '' @ itoa (uint e) @ str '']'')), mh)
      else (Inr (s, e), mh\<lparr>groupRanges := groupRanges mh @ [\<lparr>gstart = s, gend = e, ghandlers = hs\<rparr>]\<rparr>))"

definition Use :: "('v, 'e) handler list \<Rightarrow> ('v, 'e) MsgHandler \<Rightarrow> ('v, 'e) MsgHandler" where
  "Use hs mh = (if hs = [] then mh else mh\<lparr>globalHandlers := globalHandlers mh @ hs\<rparr>)"

text \<open>The \<^verbatim>\<open>routerSlices\<close> handle: \<^verbatim>\<open>Use\<close> without the empty check, \<^verbatim>\<open>AddHandler\<close>, \<^verbatim>\<open>Group\<close>, \<^verbatim>\<open>GetHandlers\<close>.\<close>

definition rs_Use :: "('v, 'e) handler list \<Rightarrow> ('v, 'e) MsgHandler \<Rightarrow> ('v, 'e) MsgHandler" where
  "rs_Use hs mh = mh\<lparr>globalHandlers := globalHandlers mh @ hs\<rparr>"

definition rs_AddHandler :: "u32 \<Rightarrow> ('v, 'e) handler list \<Rightarrow> ('v, 'e) MsgHandler
    \<Rightarrow> go_error option \<times> ('v, 'e) MsgHandler" where
  "rs_AddHandler msgID hs mh = addSlices msgID hs mh"

definition rs_Group :: "u32 \<Rightarrow> u32 \<Rightarrow> ('v, 'e) handler list \<Rightarrow> ('v, 'e) MsgHandler
    \<Rightarrow> (u32 \<times> u32) option \<times> ('v, 'e) MsgHandler" where
  "rs_Group s e hs mh =
     (case Group s e hs mh of (Inl err, mh') \<Rightarrow> (None, mh') | (Inr g, mh') \<Rightarrow> (Some g, mh'))"

definition GetHandlers :: "u32 \<Rightarrow> ('v, 'e) MsgHandler \<Rightarrow> ('v, 'e) handler list option" where
  "GetHandlers msgID mh = apis mh msgID"

text \<open>\<^verbatim>\<open>groupRouterSlices.Use\<close> appends to the first range with the handle's bounds.\<close>

fun append_first :: "u32 \<Rightarrow> u32 \<Rightarrow> ('v, 'e) handler list \<Rightarrow> ('v, 'e) groupRange list \<Rightarrow> ('v, 'e) groupRange list" where
  "append_first s e hs [] = []"
| "append_first s e hs (g # gs) =
     (if gstart g = s \<and> gend g = e then g\<lparr>ghandlers := ghandlers g @ hs\<rparr> # gs
      else g # append_first s e hs gs)"

definition group_Use :: "u32 \<times> u32 \<Rightarrow> ('v, 'e) handler list \<Rightarrow> ('v, 'e) MsgHandler \<Rightarrow> ('v, 'e) MsgHandler" where
  "group_Use g hs mh = mh\<lparr>groupRanges := append_first (fst g) (snd g) hs (groupRanges mh)\<rparr>"

definition group_AddHandler :: "u32 \<times> u32 \<Rightarrow> u32 \<Rightarrow> ('v, 'e) handler list \<Rightarrow> ('v, 'e) MsgHandler
    \<Rightarrow> go_error option \<times> ('v, 'e) MsgHandler" where
  "group_AddHandler g msgID hs mh =
     (if msgID < fst g \<or> msgID > snd g
      then (Some (Plain (str ''kinz: msgID '' @ itoa (uint msgID) @ str '' outside group range ['' @
              itoa (uint (fst g)) @ str '', '' @ itoa (uint (snd g)) @ str '']'')), mh)
      else addSlices msgID hs mh)"

section \<open>Dispatch\<close>

definition group_handlers :: "u32 \<Rightarrow> ('v, 'e) groupRange list \<Rightarrow> ('v, 'e) handler list" where
  "group_handlers msgID gs = concat (map ghandlers (filter (\<lambda>g. msgID \<ge> gstart g \<and> msgID \<le> gend g) gs))"

definition count_panic :: "('v, 'e) MsgHandler \<Rightarrow> ('v, 'e) MsgHandler" where
  "count_panic mh = mh\<lparr>metrics := map_option (\<lambda>m. m\<lparr>panics := panics m + 1\<rparr>) (metrics mh)\<rparr>"

definition observe_duration :: "('v, 'e) MsgHandler \<Rightarrow> ('v, 'e) MsgHandler" where
  "observe_duration mh = mh\<lparr>metrics := map_option (\<lambda>m. m\<lparr>duration := duration m + 1\<rparr>) (metrics mh)\<rparr>"

text \<open>
  The deferred function of \<^verbatim>\<open>Execute\<close> on a recovered panic: it counts the panic and logs
  \<^verbatim>\<open>request.GetMsgID()\<close>; when the message is nil by then, that call panics inside the deferred function and the
  panic leaves \<^verbatim>\<open>Execute\<close>.
\<close>

definition recover_panic :: "('v, 'e) MsgHandler \<Rightarrow> ('v, 'e) Request \<Rightarrow> 'e event list
    \<Rightarrow> (('v, 'e) MsgHandler \<times> ('v, 'e) Request \<times> 'e event list) outcome" where
  "recover_panic mh r tr =
     (case GetMsgID r of
        Panic \<Rightarrow> Panic
      | Ret _ \<Rightarrow> Ret (observe_duration (count_panic mh), r, tr))"

text \<open>The chain of a message: global middleware, then the matching ranges, then the route handlers.\<close>

definition chain_of :: "u32 \<Rightarrow> ('v, 'e) MsgHandler \<Rightarrow> ('v, 'e) handler list" where
  "chain_of msgID mh = globalHandlers mh @ group_handlers msgID (groupRanges mh) @
     (case apis mh msgID of None \<Rightarrow> [] | Some hs \<Rightarrow> hs)"

definition registered :: "u32 \<Rightarrow> ('v, 'e) MsgHandler \<Rightarrow> bool" where
  "registered msgID mh \<longleftrightarrow>
     apis mh msgID \<noteq> None \<or> globalHandlers mh \<noteq> [] \<or> group_handlers msgID (groupRanges mh) \<noteq> []"

text \<open>
  \<^verbatim>\<open>Execute\<close>: \<^const>\<open>None\<close> when the fuel of the chain runs out, \<^const>\<open>Panic\<close> when a panic escapes.
\<close>

definition Execute :: "('e event list \<Rightarrow> 'e \<Rightarrow> 'v) \<Rightarrow> nat \<Rightarrow> ('v, 'e) MsgHandler \<Rightarrow> ('v, 'e) Request
    \<Rightarrow> (('v, 'e) MsgHandler \<times> ('v, 'e) Request \<times> 'e event list) outcome option" where
  "Execute ans fuel mh r =
     (case GetMsgID r of
        Panic \<Rightarrow> Some (recover_panic mh r [])
      | Ret msgID \<Rightarrow>
          if \<not> registered msgID mh then Some (Ret (observe_duration mh, r, []))
          else case RouterSlicesNext ans fuel (BindRouterSlices (chain_of msgID mh) r) [] of
                 Done r' tr' \<Rightarrow> Some (Ret (observe_duration mh, r', tr'))
               | Panicked r' tr' \<Rightarrow> Some (recover_panic mh r' tr')
               | OutOfFuel \<Rightarrow> None)"

section \<open>The contract of a route table\<close>

locale route_table =
  fixes add :: "u32 \<Rightarrow> 'h list \<Rightarrow> 't \<Rightarrow> go_error option \<times> 't"
    and get :: "u32 \<Rightarrow> 't \<Rightarrow> 'h list option"
  assumes add_new: "get i t = None \<Longrightarrow> fst (add i hs t) = None"
    and get_add: "get i t = None \<Longrightarrow> get j (snd (add i hs t)) = (if j = i then Some hs else get j t)"
    and add_dup: "get i t = Some hs' \<Longrightarrow> \<exists>e. add i hs t = (Some e, t) \<and> errors_is e ErrMsgIDRegistered"
begin

definition add_all :: "(u32 \<times> 'h list) list \<Rightarrow> 't \<Rightarrow> 't" where
  "add_all regs t = fold (\<lambda>(i, hs) t. snd (add i hs t)) regs t"

lemma get_add_any:
  "get j (snd (add i hs t)) = (case get j t of Some h \<Rightarrow> Some h | None \<Rightarrow> if j = i then Some hs else None)"
  using add_dup [of i t _ hs] get_add [of i t j hs] by (cases "get i t") (auto split: option.splits)

text \<open>The first registration of an id wins, whatever is registered later.\<close>

lemma get_add_all:
  "get j (add_all regs t) = (case get j t of Some h \<Rightarrow> Some h | None \<Rightarrow> map_of regs j)"
  by (induction regs arbitrary: t) (auto simp: add_all_def get_add_any split: option.splits prod.splits)

end

interpretation routes: route_table addSlices GetHandlers
  by unfold_locales (auto simp: addSlices_def GetHandlers_def)

interpretation routes_handle: route_table rs_AddHandler GetHandlers
  by unfold_locales (auto simp: rs_AddHandler_def addSlices_def GetHandlers_def)

section \<open>Chains\<close>

lemma group_handlers_append [simp]: "group_handlers i (gs @ gs') = group_handlers i gs @ group_handlers i gs'"
  by (simp add: group_handlers_def)

lemma group_handlers_simps [simp]:
  "group_handlers i [] = []"
  "group_handlers i (g # gs) =
     (if i \<ge> gstart g \<and> i \<le> gend g then ghandlers g else []) @ group_handlers i gs"
  by (simp_all add: group_handlers_def)

lemma group_handlers_append_first_other:
  "i < s \<or> i > e \<Longrightarrow> group_handlers i (append_first s e hs gs) = group_handlers i gs"
  by (induction gs) auto

lemma append_first_last:
  "\<forall>g \<in> set gs. (gstart g, gend g) \<noteq> (s, e) \<Longrightarrow>
     append_first s e hs (gs @ [\<lparr>gstart = s, gend = e, ghandlers = hs'\<rparr>]) =
       gs @ [\<lparr>gstart = s, gend = e, ghandlers = hs' @ hs\<rparr>]"
  by (induction gs) auto

lemma registered_chain: "registered i mh \<longleftrightarrow> chain_of i mh \<noteq> [] \<or> apis mh i = Some []"
  by (auto simp: registered_def chain_of_def)

lemma Execute_registered:
  assumes "msg r = Some m" and "registered (Id m) mh"
  shows "Execute ans fuel mh r =
     (case RouterSlicesNext ans fuel (BindRouterSlices (chain_of (Id m) mh) r) [] of
        Done r' tr' \<Rightarrow> Some (Ret (observe_duration mh, r', tr'))
      | Panicked r' tr' \<Rightarrow> Some (recover_panic mh r' tr')
      | OutOfFuel \<Rightarrow> None)"
  using assms by (simp add: Execute_def GetMsgID_def)

lemma Execute_unregistered:
  assumes "msg r = Some m" and "\<not> registered (Id m) mh"
  shows "Execute ans fuel mh r = Some (Ret (observe_duration mh, r, []))"
  using assms by (simp add: Execute_def GetMsgID_def)

lemma Execute_frame:
  "Execute ans fuel mh r = Some (Ret (mh', r', tr')) \<Longrightarrow> \<exists>m. mh' = mh\<lparr>metrics := m\<rparr>"
  by (auto simp: Execute_def recover_panic_def observe_duration_def count_panic_def
      split: outcome.splits if_splits run.splits)

lemma Execute_returns:
  assumes "msg r = Some m" and "\<forall>h \<in> set (chain_of (Id m) mh). no_bind h \<and> keeps_msg h"
  shows "\<exists>fuel mh' r' tr'. Execute ans fuel mh r = Some (Ret (mh', r', tr'))"
proof (cases "registered (Id m) mh")
  case True
  let ?fuel = "Suc (length (chain_of (Id m) mh))"
  have "in_chain (\<lambda>m. m \<noteq> None) (chain_of (Id m) mh) 0 (BindRouterSlices (chain_of (Id m) mh) r) []"
    using assms(1) by (simp add: in_chain_def BindRouterSlices_def)
  then have "run_all (in_chain (\<lambda>m. m \<noteq> None) (chain_of (Id m) mh) 0)
      (RouterSlicesNext ans ?fuel (BindRouterSlices (chain_of (Id m) mh) r) [])"
    using assms(2) by (intro RouterSlicesNext_chain) auto
  then have "\<exists>mh' r' tr'. Execute ans ?fuel mh r = Some (Ret (mh', r', tr'))"
    unfolding Execute_registered [OF assms(1) True]
    by (cases "RouterSlicesNext ans ?fuel (BindRouterSlices (chain_of (Id m) mh) r) []")
      (auto simp: in_chain_def recover_panic_def GetMsgID_def simp del: RouterSlicesNext.simps)
  then show ?thesis by blast
next
  case False
  with assms(1) Execute_unregistered show ?thesis by blast
qed

section \<open>Properties\<close>

text \<open>
  C12: the onion. For a handler on which global middleware, one range of middleware and one route were registered
  through \<^verbatim>\<open>Use\<close>, \<^verbatim>\<open>Group\<close> and \<^verbatim>\<open>AddRouterSlices\<close>, executing a message with the route's id performs the before-parts
  of the global middleware, then of the range middleware if the id is in the range, then the route handler, then the
  after-parts in the reverse order, and no panic escapes.
\<close>

theorem execute_onion:
  assumes "s \<le> t" and "length us + length gs < fuel"
  shows "\<exists>mh' r' tr'.
     Execute ans fuel (snd (AddRouterSlices i [leaf e]
        (snd (Group s t (map middleware gs) (Use (map middleware us) (NewMsgHandler ps tlen))))))
       (NewRequest c (Some (NewMessage i d)) :: ('v, 'e) Request) = Some (Ret (mh', r', tr')) \<and>
     effects tr' = (let ms = us @ (if s \<le> i \<and> i \<le> t then gs else [])
                    in map fst ms @ e # rev (map snd ms))"
proof -
  define ms where "ms = us @ (if s \<le> i \<and> i \<le> t then gs else [])"
  define mh :: "('v, 'e) MsgHandler" where "mh = snd (AddRouterSlices i [leaf e]
        (snd (Group s t (map middleware gs) (Use (map middleware us) (NewMsgHandler ps tlen)))))"
  let ?r = "BindRouterSlices (chain_of i mh) (NewRequest c (Some (NewMessage i d)))"
  have chain: "chain_of i mh = map middleware ms @ [leaf e]" and reg: "registered i mh"
    using assms(1) unfolding mh_def ms_def
    by (auto simp: AddRouterSlices_def addSlices_def Group_def Use_def NewMsgHandler_def chain_of_def registered_def)
  have "length ms < fuel" using assms(2) by (simp add: ms_def)
  then obtain tr' where "RouterSlicesNext ans fuel ?r [] = Done (?r\<lparr>index := length ms + 1\<rparr>) tr'"
    and "effects tr' = map fst ms @ e # rev (map snd ms)"
    using RouterSlicesNext_onion [of ?r "[]" ms e "[]" fuel ans "[]"] chain
    by (auto simp: BindRouterSlices_def)
  with reg have "\<exists>mh' r' tr'. Execute ans fuel mh (NewRequest c (Some (NewMessage i d))) = Some (Ret (mh', r', tr')) \<and>
      effects tr' = map fst ms @ e # rev (map snd ms)"
    by (simp add: Execute_registered [where m = "NewMessage i d"])
  then show ?thesis unfolding mh_def ms_def Let_def .
qed

theorem execute_onion_witness:
  "\<exists>mh' r' tr'.
     Execute (\<lambda>_ _. 0) 4 (snd (AddRouterSlices 7 [leaf 0]
        (snd (Group 5 9 (map middleware [(3, 4)]) (Use (map middleware [(1, 2)]) (NewMsgHandler 10 1024))))))
       (NewRequest 1 (Some (NewMessage 7 [])) :: (nat, nat) Request) = Some (Ret (mh', r', tr')) \<and>
     effects tr' = [1, 3, 0, 4, 2]"
  using execute_onion [of 5 9 "[(1 :: nat, 2)]" "[(3, 4)]" 4 "\<lambda>_ _. 0 :: nat" 7 0 10 1024 1 "[]"] by simp

text \<open>
  C13: dispatch of well-behaved handlers is total and contains panics. If the id of the message is registered and the handlers of
  its chain neither rebind the chain nor install a nil message (without which it fails: \<open>nil_message_panic_escapes\<close> below), then
  with fuel above the length of the chain \<^verbatim>\<open>Execute\<close> returns and no panic escapes; the
  handlers entered are an initial segment of the chain, each once and in order; the routing tables and queues are
  untouched, the duration is observed exactly once, and the panic counter moves, by one, exactly when the chain panicked.
\<close>

theorem execute_safe:
  assumes "msg r = Some m" and "registered (Id m) mh"
    and "\<forall>h \<in> set (chain_of (Id m) mh). no_bind h \<and> keeps_msg h"
    and "length (chain_of (Id m) mh) < fuel"
  shows "\<exists>mh' r' tr'. Execute ans fuel mh r = Some (Ret (mh', r', tr')) \<and>
     index r' \<le> length (chain_of (Id m) mh) \<and> entries tr' = [0..<index r'] \<and>
     mh' = (case RouterSlicesNext ans fuel (BindRouterSlices (chain_of (Id m) mh) r) [] of
              Panicked _ _ \<Rightarrow> observe_duration (count_panic mh)
            | _ \<Rightarrow> observe_duration mh)"
proof -
  let ?H = "chain_of (Id m) mh"
  let ?run = "RouterSlicesNext ans fuel (BindRouterSlices ?H r) []"
  have "in_chain (\<lambda>m. m \<noteq> None) ?H 0 (BindRouterSlices ?H r) []"
    using assms(1) by (simp add: in_chain_def BindRouterSlices_def)
  then have "run_all (in_chain (\<lambda>m. m \<noteq> None) ?H 0) ?run"
    using assms(3,4) by (intro RouterSlicesNext_chain) auto
  then show ?thesis
    using assms(1,2)
    by (cases ?run) (auto simp: Execute_registered in_chain_def recover_panic_def GetMsgID_def)
qed

theorem execute_safe_witness:
  "\<exists>mh' r' tr'. Execute (\<lambda>_ _. 0) 2 (snd (AddRouterSlices 1 [HPanic] (NewMsgHandler 0 0)))
       (NewRequest 1 (Some (NewMessage 1 [])) :: (nat, nat) Request) = Some (Ret (mh', r', tr')) \<and>
     entries tr' = [0..<index r']"
proof -
  let ?mh = "snd (AddRouterSlices 1 [HPanic] (NewMsgHandler 0 0)) :: (nat, nat) MsgHandler"
  have "registered (Id (NewMessage 1 [])) ?mh" and "chain_of (Id (NewMessage 1 [])) ?mh = [HPanic]"
    by (simp_all add: registered_def chain_of_def AddRouterSlices_def addSlices_def NewMsgHandler_def NewMessage_def)
  then show ?thesis
    using execute_safe [of "NewRequest 1 (Some (NewMessage 1 []))" "NewMessage 1 []" ?mh 2 "\<lambda>_ _. 0"]
    by (auto simp: NewRequest_def)
qed

text \<open>
  First registration wins. Over any sequence of \<^verbatim>\<open>addSlices\<close> calls, a lookup returns what the id was first
  registered with, and registering a taken id fails with an error that wraps \<^verbatim>\<open>ErrMsgIDRegistered\<close> and changes nothing.
\<close>

theorem first_registration_wins:
  "GetHandlers j (fold (\<lambda>(i, hs) mh. snd (addSlices i hs mh)) regs mh) =
     (case GetHandlers j mh of Some h \<Rightarrow> Some h | None \<Rightarrow> map_of regs j)
   \<and> (GetHandlers j mh \<noteq> None \<longrightarrow>
       (\<exists>e. addSlices j hs mh = (Some e, mh) \<and> errors_is e ErrMsgIDRegistered))"
  using routes.get_add_all [of j regs mh] routes.add_dup [of j mh _ hs]
  unfolding routes.add_all_def by blast

theorem first_registration_wins_witness:
  "GetHandlers 5 (fold (\<lambda>(i, hs) mh. snd (addSlices i hs mh)) [(5, [HReturn]), (6, []), (5, [HPanic])]
      (NewMsgHandler 0 0 :: (nat, nat) MsgHandler)) = Some [HReturn]"
  using first_registration_wins [of 5 "[(5, [HReturn]), (6, []), (5, [HPanic])]" "NewMsgHandler 0 0 :: (nat, nat) MsgHandler" "[]"]
  by (simp add: GetHandlers_def NewMsgHandler_def)

text \<open>
  Group scope. After \<^verbatim>\<open>Group(s, t, hs)\<close> and \<^verbatim>\<open>Use(more)\<close> on the returned handle, a message inside the range
  has exactly \<open>hs @ more\<close> between the earlier middleware and its route handlers (when no earlier group has the same
  bounds), a message outside has the chain it had before, and the handle refuses to register ids outside its range.
\<close>

theorem group_scope:
  assumes "s \<le> t" and "\<forall>g \<in> set (groupRanges mh). (gstart g, gend g) \<noteq> (s, t)"
  shows "chain_of i (group_Use (s, t) ext (snd (Group s t hs mh))) =
      globalHandlers mh @ group_handlers i (groupRanges mh) @
      (if s \<le> i \<and> i \<le> t then hs @ ext else []) @ (case apis mh i of None \<Rightarrow> [] | Some h \<Rightarrow> h)
    \<and> (i < s \<or> i > t \<longrightarrow> (\<exists>e. group_AddHandler (s, t) i h2 mh = (Some e, mh)))
    \<and> (s \<le> i \<and> i \<le> t \<longrightarrow> group_AddHandler (s, t) i h2 mh = addSlices i h2 mh)"
  using assms
  by (auto simp: Group_def group_Use_def group_AddHandler_def chain_of_def append_first_last)

theorem group_scope_witness:
  "chain_of 6 (group_Use (5, 9) [HPanic] (snd (Group 5 9 [HReturn] (Use [leaf 1] (NewMsgHandler 0 0 :: (nat, nat) MsgHandler))))) =
     [leaf 1, HReturn, HPanic]"
  using group_scope [of 5 9 "Use [leaf 1] (NewMsgHandler 0 0 :: (nat, nat) MsgHandler)" 6 "[HPanic]" "[HReturn]" "[]"]
  by (simp add: Use_def NewMsgHandler_def)

text \<open>
  The limit of panic recovery. A handler that installs a nil message and then panics takes the process down:
  the recovery code itself dereferences the message, so the panic leaves \<^verbatim>\<open>Execute\<close>.
\<close>

theorem nil_message_panic_escapes:
  "Execute ans (Suc fuel) (snd (AddRouterSlices i [HSetMessage None HPanic] (NewMsgHandler ps tlen)))
     (NewRequest c (Some (NewMessage i d))) = Some Panic"
  by (simp add: Execute_def GetMsgID_def NewRequest_def NewMessage_def AddRouterSlices_def addSlices_def
      NewMsgHandler_def registered_def chain_of_def BindRouterSlices_def SetMessage_def recover_panic_def)

end
