(* ===== verification/Kinz_Heartbeat.thy ===== *)
theory Kinz_Heartbeat
  imports Kinz_Router
begin

text \<open>
  The heartbeat checker of \<^verbatim>\<open>src/knet/heartbeat.go\<close> with the option record of \<^verbatim>\<open>src/kiface/iheartbeat.go\<close>, and the
  loops that its starts launch. The liveness test itself is the connection's \<^verbatim>\<open>IsAlive\<close>, a parameter here and modelled in \<^verbatim>\<open>Kinz_Connection\<close>.
\<close>

section \<open>The checker\<close>

definition HeartBeatDefaultMsgID :: u32 where
  "HeartBeatDefaultMsgID = 99999"

definition ServerFullMsgID :: u32 where
  "ServerFullMsgID = 0xFFFFFFFE"

definition Second :: int where
  "Second = 1000000000"

text \<open>
  The user's callbacks are values of type \<open>'f\<close>; the default of \<^verbatim>\<open>onRemoteNotAlive\<close> is \<open>NotAliveDefault\<close>, which stops
  the connection. Connections are named by their ids.
\<close>

datatype 'f not_alive_fn = NotAliveDefault | NotAliveUser 'f

definition makeDefaultMsg :: "u64 \<Rightarrow> bytes" where
  "makeDefaultMsg c = str ''heartbeat''"

text \<open>What a check does to the outside: call a callback on the connection, or send a message on it.\<close>

datatype 'f hb_effect = CallNotAlive "'f not_alive_fn" u64 | CallBeat 'f u64 | SendBeat u64 u32 bytes

text \<open>
  A goroutine running \<^verbatim>\<open>loop\<close>: about to evaluate the cases of its \<^verbatim>\<open>select\<close>, which reads the field \<^verbatim>\<open>h.quit\<close> anew and without the
  lock; waiting for a tick or for the channel it has read; evaluating a tick in \<^verbatim>\<open>check\<close>; about to make the call that \<^verbatim>\<open>check\<close>
  has decided on; inside that call; or returned.
\<close>

datatype 'f hb_loop = LoopTop | LoopSelect "nat option" | LoopCheck | LoopCall "'f hb_effect" | LoopWait | LoopDone

text \<open>
  The struct: \<open>quits\<close> says of every quit channel made so far whether it is closed, the field \<open>quit\<close> names one of them or is
  \<^const>\<open>None\<close> while nil; \<open>loops\<close> are the goroutines that \<^verbatim>\<open>Start\<close> has launched; \<open>hmetrics\<close> is \<^const>\<open>None\<close> while nil and otherwise
  how often \<^verbatim>\<open>missed\<close> was incremented.
\<close>

record ('v, 'e, 'f) HeartBeatChecker =
  interval :: int
  timeout :: int
  hstarted :: bool
  quit :: "nat option"
  quits :: "bool list"
  loops :: "'f hb_loop list"
  makeMsg :: "u64 \<Rightarrow> bytes"
  onRemoteNotAlive :: "'f not_alive_fn"
  beatFunc :: "'f option"
  msgID :: u32
  routerSlices :: "('v, 'e) handler list"
  hmetrics :: "nat option"
  hconn :: "u64 option"

definition NewHeartbeatChecker :: "int \<Rightarrow> ('v, 'e, 'f) HeartBeatChecker" where
  "NewHeartbeatChecker ival =
     (let ival' = if ival \<le> 0 then 10 * Second else ival in
      \<lparr>interval = ival', timeout = wrap64 (3 * ival'), hstarted = False, quit = None, quits = [], loops = [], makeMsg = makeDefaultMsg,
       onRemoteNotAlive = NotAliveDefault, beatFunc = None, msgID = HeartBeatDefaultMsgID, routerSlices = [],
       hmetrics = None, hconn = None\<rparr>)"

definition hb_SetMetrics :: "('v, 'e, 'f) HeartBeatChecker \<Rightarrow> ('v, 'e, 'f) HeartBeatChecker" where
  "hb_SetMetrics h = h\<lparr>hmetrics := Some 0\<rparr>"

definition SetTimeout :: "int \<Rightarrow> ('v, 'e, 'f) HeartBeatChecker \<Rightarrow> ('v, 'e, 'f) HeartBeatChecker" where
  "SetTimeout t h = (if 0 < t then h\<lparr>timeout := t\<rparr> else h)"

definition SetOnRemoteNotAlive :: "'f not_alive_fn option \<Rightarrow> ('v, 'e, 'f) HeartBeatChecker \<Rightarrow> ('v, 'e, 'f) HeartBeatChecker" where
  "SetOnRemoteNotAlive f h = (case f of None \<Rightarrow> h | Some g \<Rightarrow> h\<lparr>onRemoteNotAlive := g\<rparr>)"

definition SetHeartBeatMsgFunc :: "(u64 \<Rightarrow> bytes) option \<Rightarrow> ('v, 'e, 'f) HeartBeatChecker \<Rightarrow> ('v, 'e, 'f) HeartBeatChecker" where
  "SetHeartBeatMsgFunc f h = (case f of None \<Rightarrow> h | Some g \<Rightarrow> h\<lparr>makeMsg := g\<rparr>)"

definition SetHeartbeatFunc :: "'f option \<Rightarrow> ('v, 'e, 'f) HeartBeatChecker \<Rightarrow> ('v, 'e, 'f) HeartBeatChecker" where
  "SetHeartbeatFunc f h = (case f of None \<Rightarrow> h | Some g \<Rightarrow> h\<lparr>beatFunc := Some g\<rparr>)"

definition hb_BindRouterSlices :: "u32 \<Rightarrow> ('v, 'e) handler list \<Rightarrow> ('v, 'e, 'f) HeartBeatChecker \<Rightarrow> ('v, 'e, 'f) HeartBeatChecker" where
  "hb_BindRouterSlices i hs h = (if hs \<noteq> [] then h\<lparr>msgID := i, routerSlices := routerSlices h @ hs\<rparr> else h)"

definition hb_BindConn :: "u64 \<Rightarrow> ('v, 'e, 'f) HeartBeatChecker \<Rightarrow> ('v, 'e, 'f) HeartBeatChecker" where
  "hb_BindConn c h = h\<lparr>hconn := Some c\<rparr>"

definition hb_Start :: "('v, 'e, 'f) HeartBeatChecker \<Rightarrow> ('v, 'e, 'f) HeartBeatChecker" where
  "hb_Start h =
     (if hstarted h then h
      else h\<lparr>hstarted := True, quits := quits h @ [False], quit := Some (length (quits h)), loops := loops h @ [LoopTop]\<rparr>)"

text \<open>\<^verbatim>\<open>close\<close> panics on a nil or a closed channel.\<close>

definition hb_Stop :: "('v, 'e, 'f) HeartBeatChecker \<Rightarrow> ('v, 'e, 'f) HeartBeatChecker outcome" where
  "hb_Stop h =
     (if \<not> hstarted h then Ret h
      else case quit h of
             None \<Rightarrow> Panic
           | Some k \<Rightarrow> if quits h ! k then Panic else Ret (h\<lparr>hstarted := False, quits := (quits h)[k := True]\<rparr>))"

definition hb_Clone :: "('v, 'e, 'f) HeartBeatChecker \<Rightarrow> ('v, 'e, 'f) HeartBeatChecker" where
  "hb_Clone h =
     \<lparr>interval = interval h, timeout = timeout h, hstarted = False, quit = None, quits = [], loops = [], makeMsg = makeMsg h,
      onRemoteNotAlive = onRemoteNotAlive h, beatFunc = beatFunc h, msgID = msgID h, routerSlices = [] @ routerSlices h,
      hmetrics = None, hconn = None\<rparr>"

definition SendHeartBeatMsg :: "('v, 'e, 'f) HeartBeatChecker \<Rightarrow> 'f hb_effect option" where
  "SendHeartBeatMsg h = (case hconn h of None \<Rightarrow> None | Some c \<Rightarrow> Some (SendBeat c (msgID h) (makeMsg h c)))"

definition hb_check ::
  "(u64 \<Rightarrow> int \<Rightarrow> bool) \<Rightarrow> ('v, 'e, 'f) HeartBeatChecker \<Rightarrow> 'f hb_effect option \<times> ('v, 'e, 'f) HeartBeatChecker" where
  "hb_check IsAlive h =
     (case hconn h of
        None \<Rightarrow> (None, h)
      | Some c \<Rightarrow>
          if \<not> IsAlive c (timeout h)
          then (Some (CallNotAlive (onRemoteNotAlive h) c), h\<lparr>hmetrics := map_option Suc (hmetrics h)\<rparr>)
          else case beatFunc h of
                 Some f \<Rightarrow> (Some (CallBeat f c), h)
               | None \<Rightarrow> (SendHeartBeatMsg h, h))"

text \<open>
  A step of loop \<open>j\<close>, with the call it makes on the outside; \<open>tick\<close> says whether the case of the ticker is taken, \<open>alive\<close> is
  \<^verbatim>\<open>IsAlive\<close> at that moment. A receive from a nil or an open channel waits. A call can return at any time.
\<close>

definition loop_step ::
  "bool \<Rightarrow> (u64 \<Rightarrow> int \<Rightarrow> bool) \<Rightarrow> nat \<Rightarrow> ('v, 'e, 'f) HeartBeatChecker \<Rightarrow> ('f hb_effect option \<times> ('v, 'e, 'f) HeartBeatChecker) option" where
  "loop_step tick alive j h =
     (case loops h ! j of
        LoopTop \<Rightarrow> Some (None, h\<lparr>loops := (loops h)[j := LoopSelect (quit h)]\<rparr>)
      | LoopSelect q \<Rightarrow>
          if tick then Some (None, h\<lparr>loops := (loops h)[j := LoopCheck]\<rparr>)
          else (case q of
                  None \<Rightarrow> None
                | Some k \<Rightarrow> if quits h ! k then Some (None, h\<lparr>loops := (loops h)[j := LoopDone]\<rparr>) else None)
      | LoopCheck \<Rightarrow>
          let (e, h') = hb_check alive h
          in Some (None, h'\<lparr>loops := (loops h')[j := case e of None \<Rightarrow> LoopTop | Some x \<Rightarrow> LoopCall x]\<rparr>)
      | LoopCall x \<Rightarrow> Some (Some x, h\<lparr>loops := (loops h)[j := LoopWait]\<rparr>)
      | LoopWait \<Rightarrow> Some (None, h\<lparr>loops := (loops h)[j := LoopTop]\<rparr>)
      | LoopDone \<Rightarrow> None)"

text \<open>
  The option record, and what \<^verbatim>\<open>Server.SetHeartBeatWithOption\<close> and \<^verbatim>\<open>Client.StartHeartBeatWithOption\<close> make of it: both
  build the same template, the server with metrics.
\<close>

record ('v, 'e, 'f) HeartBeatOption =
  oMakeMsg :: "(u64 \<Rightarrow> bytes) option"
  oOnRemoteNotAlive :: "'f option"
  oHeartBeatMsgID :: u32
  oRouterSlices :: "('v, 'e) handler list"
  oTimeout :: int

definition apply_option ::
  "('v, 'e, 'f) HeartBeatOption option \<Rightarrow> ('v, 'e, 'f) HeartBeatChecker \<Rightarrow> ('v, 'e, 'f) HeartBeatChecker" where
  "apply_option opt h =
     (case opt of
        None \<Rightarrow> h
      | Some p \<Rightarrow>
          let h1 = (if oMakeMsg p \<noteq> None then SetHeartBeatMsgFunc (oMakeMsg p) h else h);
              h2 = (if oOnRemoteNotAlive p \<noteq> None then SetOnRemoteNotAlive (map_option NotAliveUser (oOnRemoteNotAlive p)) h1 else h1);
              h3 = (if 0 < oTimeout p then SetTimeout (oTimeout p) h2 else h2);
              h4 = (if oHeartBeatMsgID p \<noteq> 0 then h3\<lparr>msgID := oHeartBeatMsgID p\<rparr> else h3)
          in if oRouterSlices p \<noteq> [] then hb_BindRouterSlices (oHeartBeatMsgID p) (oRouterSlices p) h4 else h4)"

definition server_template :: "int \<Rightarrow> ('v, 'e, 'f) HeartBeatOption option \<Rightarrow> ('v, 'e, 'f) HeartBeatChecker" where
  "server_template ival opt = apply_option opt (hb_SetMetrics (NewHeartbeatChecker ival))"

definition client_template :: "int \<Rightarrow> ('v, 'e, 'f) HeartBeatOption option \<Rightarrow> ('v, 'e, 'f) HeartBeatChecker" where
  "client_template ival opt = apply_option opt (NewHeartbeatChecker ival)"

section \<open>Start and stop\<close>

text \<open>What a connection relies on when it starts and stops a checker from different goroutines.\<close>

locale idempotent_service =
  fixes start :: "'s \<Rightarrow> 's"
    and stop :: "'s \<Rightarrow> 's outcome"
    and running :: "'s \<Rightarrow> bool"
    and inv :: "'s \<Rightarrow> bool"
  assumes start_inv: "inv s \<Longrightarrow> inv (start s)"
    and start_running: "running (start s)"
    and stop_ok: "inv s \<Longrightarrow> \<exists>s'. stop s = Ret s' \<and> inv s' \<and> \<not> running s'"
    and start_idem: "running s \<Longrightarrow> start s = s"
    and stop_idem: "\<not> running s \<Longrightarrow> stop s = Ret s"
begin

lemma stop_stop: "inv s \<Longrightarrow> stop s = Ret s' \<Longrightarrow> stop s' = Ret s'"
  using stop_ok [of s] stop_idem [of s'] by auto

lemma start_start: "start (start s) = start s"
  using start_running by (rule start_idem)

end

text \<open>A history of calls on a service: \<^const>\<open>True\<close> is \<^verbatim>\<open>Start\<close>, \<^const>\<open>False\<close> is \<^verbatim>\<open>Stop\<close>.\<close>

fun service_calls :: "('s \<Rightarrow> 's) \<Rightarrow> ('s \<Rightarrow> 's outcome) \<Rightarrow> bool list \<Rightarrow> 's \<Rightarrow> 's outcome" where
  "service_calls start stop [] s = Ret s"
| "service_calls start stop (b # bs) s =
     (if b then service_calls start stop bs (start s)
      else case stop s of Ret s' \<Rightarrow> service_calls start stop bs s' | Panic \<Rightarrow> Panic)"

context idempotent_service
begin

lemma calls_safe:
  "inv s \<Longrightarrow> \<exists>s'. service_calls start stop bs s = Ret s' \<and> inv s' \<and>
     (running s' \<longleftrightarrow> (if bs = [] then running s else last bs))"
proof (induction bs arbitrary: s)
  case (Cons b bs)
  obtain t where t: "stop s = Ret t" "inv t" "\<not> running t" using stop_ok [OF Cons.prems] by blast
  show ?case
  proof (cases b)
    case True
    with Cons.IH [OF start_inv [OF Cons.prems]] start_running show ?thesis by auto
  next
    case False
    with Cons.IH [OF t(2)] t show ?thesis by auto
  qed
qed simp

end

text \<open>
  Every \<^verbatim>\<open>Start\<close> that is not a repetition makes one channel and one loop; the field holds the last channel, which is open exactly
  while the checker is started, and a waiting loop waits for a channel that exists.
\<close>

definition hb_inv :: "('v, 'e, 'f) HeartBeatChecker \<Rightarrow> bool" where
  "hb_inv h \<longleftrightarrow> length (loops h) = length (quits h) \<and>
     (\<forall>i < length (quits h). quits h ! i \<longleftrightarrow> \<not> (hstarted h \<and> Suc i = length (quits h))) \<and>
     quit h = (if quits h = [] then None else Some (length (quits h) - 1)) \<and> (hstarted h \<longrightarrow> quits h \<noteq> []) \<and>
     (\<forall>q. LoopSelect q \<in> set (loops h) \<longrightarrow> (\<exists>k < length (quits h). q = Some k))"

lemma hb_Start_inv: "hb_inv h \<Longrightarrow> hb_inv (hb_Start h)"
  by (auto simp: hb_inv_def hb_Start_def nth_append less_Suc_eq)

lemma hb_Stop_inv: "hb_inv h \<Longrightarrow> \<exists>h'. hb_Stop h = Ret h' \<and> hb_inv h' \<and> \<not> hstarted h' \<and> loops h' = loops h"
proof (cases "hstarted h")
  case True
  assume inv: "hb_inv h"
  let ?k = "length (quits h) - 1" and ?h = "h\<lparr>hstarted := False, quits := (quits h)[length (quits h) - 1 := True]\<rparr>"
  have q: "quits h \<noteq> []" using True inv by (simp add: hb_inv_def)
  then have k: "quit h = Some ?k" "\<not> quits h ! ?k" "?k < length (quits h)" using True inv by (simp_all add: hb_inv_def)
  then have "hb_Stop h = Ret ?h" using True by (simp add: hb_Stop_def)
  moreover have "(quits h)[?k := True] ! i" if "i < length (quits h)" for i
    using that inv True by (cases "i = ?k") (auto simp: hb_inv_def)
  then have "hb_inv ?h" using inv q by (simp add: hb_inv_def)
  ultimately show ?thesis by simp
qed (simp add: hb_Stop_def)

interpretation hb: idempotent_service hb_Start hb_Stop hstarted hb_inv
proof
  show "hb_inv h \<Longrightarrow> \<exists>h'. hb_Stop h = Ret h' \<and> hb_inv h' \<and> \<not> hstarted h'" for h :: "('a, 'b, 'c) HeartBeatChecker"
    using hb_Stop_inv [of h] by blast
qed (simp_all add: hb_Start_inv, simp_all add: hb_Start_def hb_Stop_def)

lemma hb_check_frame:
  "hb_check alive h = (e, h') \<Longrightarrow> hstarted h' = hstarted h \<and> quit h' = quit h \<and> quits h' = quits h \<and> loops h' = loops h"
  by (auto simp: hb_check_def split: option.splits if_splits)

text \<open>How far a loop is from returning when it takes no further tick.\<close>

fun loop_rank :: "'f hb_loop \<Rightarrow> nat" where
  "loop_rank LoopDone = 0" | "loop_rank (LoopSelect q) = 1" | "loop_rank LoopTop = 2"
| "loop_rank LoopWait = 3" | "loop_rank (LoopCall x) = 4" | "loop_rank LoopCheck = 5"

lemma loop_step_frame:
  assumes "loop_step tick alive j h = Some (e, h')"
  shows "\<exists>l. loops h' = (loops h)[j := l] \<and> (\<forall>q. l = LoopSelect q \<longrightarrow> q = quit h) \<and> hstarted h' = hstarted h \<and>
    quit h' = quit h \<and> quits h' = quits h \<and> (\<not> tick \<longrightarrow> loop_rank l < loop_rank (loops h ! j))"
proof (cases "loops h ! j")
  case LoopCheck
  obtain x g where c: "hb_check alive h = (x, g)" by (cases "hb_check alive h")
  with assms LoopCheck hb_check_frame [OF c] show ?thesis
    by (intro exI [of _ "case x of None \<Rightarrow> LoopTop | Some y \<Rightarrow> LoopCall y"]) (auto simp: loop_step_def split: option.split)
next
  case (LoopSelect q)
  with assms show ?thesis
    by (intro exI [of _ "if tick then LoopCheck else LoopDone"]) (auto simp: loop_step_def split: if_splits option.splits)
qed (use assms in \<open>auto simp: loop_step_def\<close>)

lemma loop_step_inv:
  assumes "hb_inv h" and "j < length (loops h)" and "loop_step tick alive j h = Some (e, h')"
  shows "hb_inv h'"
proof -
  obtain l where l: "loops h' = (loops h)[j := l]" "\<forall>q. l = LoopSelect q \<longrightarrow> q = quit h" "hstarted h' = hstarted h"
      "quit h' = quit h" "quits h' = quits h"
    using loop_step_frame [OF assms(3)] by blast
  have "quits h \<noteq> []" using assms(1,2) by (auto simp: hb_inv_def)
  moreover have "\<exists>k < length (quits h). q = Some k" if "LoopSelect q \<in> set ((loops h)[j := l])" for q
    using that set_update_subset_insert [of "loops h" j l] l(2) assms(1) \<open>quits h \<noteq> []\<close> by (auto simp: hb_inv_def)
  ultimately show ?thesis using assms(1) l unfolding hb_inv_def by simp
qed

text \<open>The loop of a stopped checker never waits: without a further tick it returns.\<close>

lemma stopped_loop:
  assumes "hb_inv h" and "\<not> hstarted h" and "j < length (loops h)" and "loops h ! j \<noteq> LoopDone"
  shows "\<exists>e h'. loop_step False alive j h = Some (e, h') \<and> loop_rank (loops h' ! j) < loop_rank (loops h ! j)"
proof -
  have "\<exists>k. q = Some k \<and> quits h ! k" if "loops h ! j = LoopSelect q" for q
  proof -
    have "LoopSelect q \<in> set (loops h)" using that nth_mem [OF assms(3)] by simp
    then obtain k where "k < length (quits h)" "q = Some k" using assms(1) by (auto simp: hb_inv_def)
    with assms(1,2) show ?thesis by (simp add: hb_inv_def)
  qed
  then have "loop_step False alive j h \<noteq> None"
    using assms(4) by (cases "loops h ! j") (auto simp: loop_step_def split: prod.split)
  then obtain e h' where s: "loop_step False alive j h = Some (e, h')" by auto
  with loop_step_frame [OF s] assms(3) show ?thesis by auto
qed

lemma hb_inv_New [simp, inv_intros]: "hb_inv (NewHeartbeatChecker ival)"
  by (simp add: hb_inv_def NewHeartbeatChecker_def Let_def)

lemma hb_inv_Clone [simp, inv_intros]: "hb_inv (hb_Clone h)"
  by (simp add: hb_inv_def hb_Clone_def)

lemma hb_inv_BindConn [simp]: "hb_inv (hb_BindConn c h) = hb_inv h"
  by (simp add: hb_inv_def hb_BindConn_def)

lemmas hb_setters = SetTimeout_def SetOnRemoteNotAlive_def SetHeartBeatMsgFunc_def SetHeartbeatFunc_def hb_BindRouterSlices_def

lemma apply_option_frame [simp, frame_simps]:
  "interval (apply_option opt h) = interval h" "hstarted (apply_option opt h) = hstarted h"
  "quit (apply_option opt h) = quit h" "quits (apply_option opt h) = quits h" "loops (apply_option opt h) = loops h" "hmetrics (apply_option opt h) = hmetrics h"
  "hconn (apply_option opt h) = hconn h" "beatFunc (apply_option opt h) = beatFunc h"
  by (simp_all add: apply_option_def hb_setters Let_def split: option.split)

lemma timeout_apply_option [simp]:
  "timeout (apply_option opt h) = (case opt of Some p \<Rightarrow> if 0 < oTimeout p then oTimeout p else timeout h | None \<Rightarrow> timeout h)"
  by (simp add: apply_option_def hb_setters Let_def split: option.split)

lemma msgID_apply_option [simp]:
  "msgID (apply_option opt h) =
     (case opt of Some p \<Rightarrow> if oHeartBeatMsgID p \<noteq> 0 \<or> oRouterSlices p \<noteq> [] then oHeartBeatMsgID p else msgID h | None \<Rightarrow> msgID h)"
  by (auto simp: apply_option_def hb_setters Let_def split: option.split)

lemma hmetrics_check: "hmetrics (snd (hb_check alive h)) = None \<longleftrightarrow> hmetrics h = None"
  by (simp add: hb_check_def split: option.split)

section \<open>Properties\<close>

text \<open>
  Starting and stopping. Whatever sequence of \<^verbatim>\<open>Start\<close> and \<^verbatim>\<open>Stop\<close> calls a checker created by
  \<^verbatim>\<open>NewHeartbeatChecker\<close>, or cloned from any template and bound to a connection, receives, no call panics (the quit
  channel is never closed twice), and afterwards it is started exactly when the last call was \<^verbatim>\<open>Start\<close>.
\<close>

theorem heartbeat_start_stop:
  "(\<exists>h'. service_calls hb_Start hb_Stop calls (NewHeartbeatChecker ival) = Ret h' \<and>
      (hstarted h' \<longleftrightarrow> calls \<noteq> [] \<and> last calls)) \<and>
   (\<exists>h'. service_calls hb_Start hb_Stop calls (hb_BindConn c (hb_Clone h)) = Ret h' \<and>
      (hstarted h' \<longleftrightarrow> calls \<noteq> [] \<and> last calls))"
proof -
  have "\<not> hstarted (NewHeartbeatChecker ival)" "\<not> hstarted (hb_BindConn c (hb_Clone h))"
    by (simp_all add: NewHeartbeatChecker_def Let_def hb_BindConn_def hb_Clone_def)
  with hb.calls_safe [OF hb_inv_New, of calls ival] hb.calls_safe [of "hb_BindConn c (hb_Clone h)" calls] show ?thesis
    by (auto split: if_splits)
qed

text \<open>
  The template. For an interval whose triple fits in 64 bits, a template waits three intervals (of the default
  ten seconds when the interval is not positive) unless the option has a positive timeout, so its timeout is always
  positive and the check is live. Its message id is the option's when that is not zero or the
  option has handlers, and the default otherwise: an option with handlers and without an id gives the id zero.
\<close>

theorem heartbeat_template:
  fixes opt :: "('v, 'e, 'f) HeartBeatOption option"
  assumes "ival \<le> (2 ^ 63 - 1) div 3"
  defines "h \<equiv> server_template ival opt"
  shows "0 < interval h \<and> 0 < timeout h \<and>
         timeout h = (case opt of
             Some p \<Rightarrow> if 0 < oTimeout p then oTimeout p else 3 * interval h
           | None \<Rightarrow> 3 * interval h) \<and>
         msgID h = (case opt of
             Some p \<Rightarrow> if oRouterSlices p \<noteq> [] then oHeartBeatMsgID p
                       else if oHeartBeatMsgID p \<noteq> 0 then oHeartBeatMsgID p else HeartBeatDefaultMsgID
           | None \<Rightarrow> HeartBeatDefaultMsgID)"
proof -
  have "wrap64 (3 * (if ival \<le> 0 then 10 * Second else ival)) = 3 * (if ival \<le> 0 then 10 * Second else ival)"
    using assms(1) by (intro wrap64_id) (simp add: in_int64_def Second_def)
  then show ?thesis
    by (simp add: h_def server_template_def hb_SetMetrics_def NewHeartbeatChecker_def Second_def Let_def split: option.split)
qed

definition handlers_only :: "(nat, nat, nat) HeartBeatOption" where
  "handlers_only = \<lparr>oMakeMsg = None, oOnRemoteNotAlive = None, oHeartBeatMsgID = 0, oRouterSlices = [HReturn], oTimeout = 0\<rparr>"

theorem heartbeat_template_witness:
  "timeout (server_template (5 * Second) (Some handlers_only)) = 15 * Second \<and>
   msgID (server_template (5 * Second) (Some handlers_only)) = 0"
proof -
  have i: "5 * Second \<le> (2 ^ 63 - 1) div 3" by (simp add: Second_def)
  have "interval (server_template (5 * Second) (Some handlers_only)) = 5 * Second"
    by (simp add: server_template_def hb_SetMetrics_def NewHeartbeatChecker_def Second_def Let_def)
  with heartbeat_template [OF i, of "Some handlers_only"] show ?thesis by (simp add: handlers_only_def)
qed

text \<open>
  Clones. The checker a connection runs is a clone of the server's template: it has the template's configuration,
  so it tests and beats as the template would. But \<^verbatim>\<open>Clone\<close> does not copy \<^verbatim>\<open>metrics\<close>: although the template has the
  counter, no check of a clone ever increments \<^verbatim>\<open>kinz_heartbeat_missed_total\<close>.
\<close>

theorem heartbeat_clone:
  "fst (hb_check alive (hb_BindConn c (hb_Clone (server_template ival opt)))) =
     fst (hb_check alive (hb_BindConn c (server_template ival opt))) \<and>
   hmetrics (server_template ival opt) = Some 0 \<and>
   hmetrics (((snd \<circ> hb_check alive) ^^ n) (hb_BindConn c (hb_Clone (server_template ival opt)))) = None"
proof (intro conjI)
  show "hmetrics (((snd \<circ> hb_check alive) ^^ n) (hb_BindConn c (hb_Clone (server_template ival opt)))) = None"
  proof (induction n)
    case 0
    then show ?case by (simp add: hb_BindConn_def hb_Clone_def)
  qed (simp add: hmetrics_check)
qed (simp_all add: hb_check_def hb_BindConn_def hb_Clone_def SendHeartBeatMsg_def server_template_def hb_SetMetrics_def
      split: option.split)

end
