(* ===== verification/Kinz_Connection.thy ===== *)
theory Kinz_Connection
  imports Kinz_Heartbeat "HOL-Library.Sublist"
begin

text \<open>
  One connection (\<^verbatim>\<open>src/knet/connection.go\<close>): its reader and writer goroutines, the write queue, the one-time
  cleanup, the heartbeat checker it owns and its liveness timestamp. Every atomic action of the goroutines that touch a
  connection is a function on the record, and \<open>conn_step\<close> interleaves them in any order. The codec is used through
  \<^verbatim>\<open>ICodec\<close> only: the steps take \<^verbatim>\<open>Decode\<close> and \<^verbatim>\<open>Pack\<close> as arguments, and the delivery lemmas hold for every
  \<open>stream_codec\<close>.
\<close>

section \<open>The record\<close>

definition readChunkSize :: nat where
  "readChunkSize = 4096"

datatype conn_state = stateCreated | stateRunning | stateClosed

text \<open>Where the call of \<^verbatim>\<open>Start\<close> that won the compare-and-swap is: the next action it takes.\<close>

datatype start_pc = StartCas | StartBind | StartHb | StartFlag | GoReader | GoWriter | CallStart | StartReturned

text \<open>Where the function of \<^verbatim>\<open>closeOnce.Do\<close> is. \<open>StopHb b\<close> has loaded the checker reference, non-nil if \<open>b\<close>.\<close>

datatype once_pc =
    OnceIdle | StoreClosed | CallStop | TakeHb | StopHb bool | CountDown | CountClosed | CloseConn | CloseDone | MgrRemove | OnceDone

datatype reader = NoReader | Reading | Dispatching "Message list" | ReaderClosing | ReaderExited

text \<open>\<open>CountOut n\<close> has written \<open>n\<close> bytes and is about to count them.\<close>

datatype writer = NoWriter | Selecting | Writing bytes | CountOut nat | WriterClosing | WriterExited

text \<open>
  A call of \<^verbatim>\<open>Stop\<close>: inside \<^verbatim>\<open>stopOnce\<close>, waiting for the goroutines, or returned. The first flag says whether the
  connection had been started when \<^verbatim>\<open>Stop\<close> was called, the second one whether it waited.
\<close>

datatype stopper = StopIn bool | StopWait bool | StopRet bool bool

datatype hook = OnConnStart | OnConnStop

text \<open>
  The handles of \<^verbatim>\<open>connMetrics\<close> (\<^verbatim>\<open>src/knet/metrics.go\<close>). The counters are shared by all connections of a host; the
  record holds what this connection has added to each.
\<close>

record connMetrics =
  active :: int
  closed :: nat
  bytesIn :: nat
  bytesOut :: nat
  msgsRecv :: nat
  msgsSent :: nat

text \<open>
  The struct. The heartbeat checker is an object of its own: \<open>clone\<close> is that object once \<^verbatim>\<open>Start\<close> has made it and
  \<open>hb\<close> says whether the field \<^verbatim>\<open>hb\<close> points to it. \<open>cdone\<close> and \<open>sockClosed\<close> say whether the done channel and the
  socket are closed. \<open>senders\<close> are the calls of \<^verbatim>\<open>SendMsg\<close> waiting in their \<^verbatim>\<open>select\<close>, with the message and the packed
  wire, and \<open>tallying\<close> is how many have sent theirs on the channel and not yet counted it. The last group records history: the hooks called, the removals from the manager, the chunks read, the messages
  handed to the worker pool, the messages accepted by \<^verbatim>\<open>SendMsg\<close> and the bytes written to the socket.
\<close>

record ('c, 'v, 'e, 'f) Connection =
  connID :: u64
  codec :: 'c
  writeTimeout :: int
  metrics :: "connMetrics option"
  msgChan :: "bytes chan"
  cdone :: bool
  cstate :: conn_state
  cwg :: nat
  lastActivity :: int
  started :: bool
  hb :: bool
  clone :: "('v, 'e, 'f) HeartBeatChecker option"
  property :: "bytes \<rightharpoonup> 'v"
  sockClosed :: bool
  spc :: start_pc
  opc :: once_pc
  rd :: reader
  wr :: writer
  stops :: "stopper list"
  senders :: "(Message \<times> bytes) list"
  tallying :: nat
  hooks :: "hook list"
  removals :: nat
  rcvd :: "bytes list"
  dispatched :: "Message list"
  accepted :: "(Message \<times> bytes) list"
  written :: bytes

definition touch :: "int \<Rightarrow> ('c, 'v, 'e, 'f) Connection \<Rightarrow> ('c, 'v, 'e, 'f) Connection" where
  "touch now c = c\<lparr>lastActivity := now\<rparr>"

text \<open>\<^verbatim>\<open>make(chan []byte, n)\<close> panics for a negative \<open>n\<close>.\<close>

definition no_counts :: connMetrics where
  "no_counts = \<lparr>active = 0, closed = 0, bytesIn = 0, bytesOut = 0, msgsRecv = 0, msgsSent = 0\<rparr>"

definition new_conn :: "u64 \<Rightarrow> 'c \<Rightarrow> nat \<Rightarrow> int \<Rightarrow> bool \<Rightarrow> ('c, 'v, 'e, 'f) Connection" where
  "new_conn i cod n wt counting =
     \<lparr>connID = i, codec = cod, writeTimeout = wt, metrics = (if counting then Some no_counts else None),
      msgChan = make_chan n, cdone = False, cstate = stateCreated, cwg = 2, lastActivity = 0, started = False,
      hb = False, clone = None, property = Map.empty, sockClosed = False, spc = StartCas, opc = OnceIdle, rd = NoReader,
      wr = NoWriter, stops = [], senders = [], tallying = 0, hooks = [], removals = 0, rcvd = [], dispatched = [], accepted = [],
      written = []\<rparr>"

definition NewConnection :: "u64 \<Rightarrow> 'c \<Rightarrow> int \<Rightarrow> int \<Rightarrow> bool \<Rightarrow> int \<Rightarrow> ('c, 'v, 'e, 'f) Connection outcome" where
  "NewConnection i cod writeQueueSize wt counting now =
     (if writeQueueSize < 0 then Panic else Ret (touch now (new_conn i cod (nat writeQueueSize) wt counting)))"

lemma NewConnectionD:
  "NewConnection i cod wq wt counting now = Ret c \<Longrightarrow> 0 \<le> wq \<and> c = touch now (new_conn i cod (nat wq) wt counting)"
  by (auto simp: NewConnection_def split: if_splits)

section \<open>Start and stop\<close>

text \<open>
  The actions of \<^verbatim>\<open>Start\<close>, one at a time. \<open>tpl\<close> is the host's heartbeat template at that moment. A call that loses
  the compare-and-swap returns without an effect.
\<close>

fun start_action ::
  "('v, 'e, 'f) HeartBeatChecker option \<Rightarrow> start_pc \<Rightarrow> ('c, 'v, 'e, 'f) Connection \<Rightarrow> ('c, 'v, 'e, 'f) Connection option" where
  "start_action tpl StartCas c =
     (if cstate c = stateCreated then Some (c\<lparr>cstate := stateRunning, spc := StartBind\<rparr>) else None)"
| "start_action tpl StartBind c =
     (case tpl of
        None \<Rightarrow> Some (c\<lparr>spc := StartFlag\<rparr>)
      | Some t \<Rightarrow> Some (c\<lparr>clone := Some (hb_BindConn (connID c) (hb_Clone t)), hb := True, spc := StartHb\<rparr>))"
| "start_action tpl StartHb c =
     (if cstate c = stateRunning then Some (c\<lparr>clone := map_option hb_Start (clone c), spc := StartFlag\<rparr>)
      else Some (c\<lparr>hb := False, spc := StartFlag\<rparr>))"
| "start_action tpl StartFlag c = Some (c\<lparr>started := True, spc := GoReader\<rparr>)"
| "start_action tpl GoReader c = Some (c\<lparr>rd := Reading, spc := GoWriter\<rparr>)"
| "start_action tpl GoWriter c = Some (c\<lparr>wr := Selecting, spc := CallStart\<rparr>)"
| "start_action tpl CallStart c = Some (c\<lparr>hooks := hooks c @ [OnConnStart], spc := StartReturned\<rparr>)"
| "start_action tpl StartReturned c = None"

definition count_down :: "connMetrics \<Rightarrow> connMetrics" where
  "count_down m = m\<lparr>active := active m - 1\<rparr>"

definition count_closed :: "connMetrics \<Rightarrow> connMetrics" where
  "count_closed m = m\<lparr>closed := Suc (closed m)\<rparr>"

text \<open>The actions of the function that \<^verbatim>\<open>stopOnce\<close> runs once.\<close>

fun once_action :: "once_pc \<Rightarrow> ('c, 'v, 'e, 'f) Connection \<Rightarrow> ('c, 'v, 'e, 'f) Connection outcome" where
  "once_action OnceIdle c = Ret (c\<lparr>opc := StoreClosed\<rparr>)"
| "once_action StoreClosed c = Ret (c\<lparr>cstate := stateClosed, opc := CallStop\<rparr>)"
| "once_action CallStop c = Ret (c\<lparr>hooks := hooks c @ [OnConnStop], opc := TakeHb\<rparr>)"
| "once_action TakeHb c = Ret (c\<lparr>hb := False, opc := StopHb (hb c)\<rparr>)"
| "once_action (StopHb b) c =
     (if b
      then (case clone c of
              None \<Rightarrow> Panic
            | Some h \<Rightarrow> (case hb_Stop h of Panic \<Rightarrow> Panic | Ret h' \<Rightarrow> Ret (c\<lparr>clone := Some h', opc := CountDown\<rparr>)))
      else Ret (c\<lparr>opc := CountDown\<rparr>))"
| "once_action CountDown c = Ret (c\<lparr>metrics := map_option count_down (metrics c), opc := CountClosed\<rparr>)"
| "once_action CountClosed c = Ret (c\<lparr>metrics := map_option count_closed (metrics c), opc := CloseConn\<rparr>)"
| "once_action CloseConn c = Ret (c\<lparr>sockClosed := True, opc := CloseDone\<rparr>)"
| "once_action CloseDone c = (if cdone c then Panic else Ret (c\<lparr>cdone := True, opc := MgrRemove\<rparr>))"
| "once_action MgrRemove c = Ret (c\<lparr>removals := Suc (removals c), opc := OnceDone\<rparr>)"
| "once_action OnceDone c = Ret c"

text \<open>\<^verbatim>\<open>closeOnce.Do\<close> is entered by whoever calls \<^verbatim>\<open>stopOnce\<close> first; every other caller waits until it is done.\<close>

definition stop_wanted :: "('c, 'v, 'e, 'f) Connection \<Rightarrow> bool" where
  "stop_wanted c \<longleftrightarrow> rd c = ReaderClosing \<or> wr c = WriterClosing \<or> (\<exists>b. StopIn b \<in> set (stops c))"

definition stop_call :: "('c, 'v, 'e, 'f) Connection \<Rightarrow> ('c, 'v, 'e, 'f) Connection" where
  "stop_call c = c\<lparr>stops := stops c @ [StopIn (started c)]\<rparr>"

fun stop_action :: "nat \<Rightarrow> stopper \<Rightarrow> ('c, 'v, 'e, 'f) Connection \<Rightarrow> ('c, 'v, 'e, 'f) Connection option" where
  "stop_action i (StopIn b) c =
     (if opc c = OnceDone then Some (c\<lparr>stops := (stops c)[i := if started c then StopWait b else StopRet b False]\<rparr>) else None)"
| "stop_action i (StopWait b) c = (if cwg c = 0 then Some (c\<lparr>stops := (stops c)[i := StopRet b True]\<rparr>) else None)"
| "stop_action i (StopRet b w) c = None"

section \<open>Reader\<close>

definition count_in :: "nat \<Rightarrow> connMetrics \<Rightarrow> connMetrics" where
  "count_in n m = m\<lparr>bytesIn := bytesIn m + n\<rparr>"

definition count_recv :: "connMetrics \<Rightarrow> connMetrics" where
  "count_recv m = m\<lparr>msgsRecv := Suc (msgsRecv m)\<rparr>"

text \<open>One successful \<^verbatim>\<open>Read\<close> of \<open>b\<close>: messages decoded together with an error are not dispatched.\<close>

definition read_chunk ::
  "('c \<Rightarrow> bytes \<Rightarrow> Message list \<times> go_error option \<times> 'c) \<Rightarrow> int \<Rightarrow> bytes \<Rightarrow> ('c, 'v, 'e, 'f) Connection \<Rightarrow> ('c, 'v, 'e, 'f) Connection" where
  "read_chunk dec now b c =
     (case dec (codec c) b of (ms, e, cod) \<Rightarrow>
        (touch now c)\<lparr>metrics := map_option (count_in (length b)) (metrics c), codec := cod, rcvd := rcvd c @ [b],
          rd := (case e of None \<Rightarrow> Dispatching ms | Some _ \<Rightarrow> ReaderClosing)\<rparr>)"

fun dispatch_action :: "Message list \<Rightarrow> ('c, 'v, 'e, 'f) Connection \<Rightarrow> ('c, 'v, 'e, 'f) Connection" where
  "dispatch_action [] c = c\<lparr>rd := Reading\<rparr>"
| "dispatch_action (m # ms) c =
     c\<lparr>metrics := map_option count_recv (metrics c), dispatched := dispatched c @ [m], rd := Dispatching ms\<rparr>"

section \<open>Writer and senders\<close>

definition count_out :: "nat \<Rightarrow> connMetrics \<Rightarrow> connMetrics" where
  "count_out n m = m\<lparr>bytesOut := bytesOut m + n\<rparr>"

definition write_ok :: "bytes \<Rightarrow> ('c, 'v, 'e, 'f) Connection \<Rightarrow> ('c, 'v, 'e, 'f) Connection" where
  "write_ok d c = c\<lparr>written := written c @ d, wr := CountOut (length d)\<rparr>"

definition count_written :: "nat \<Rightarrow> ('c, 'v, 'e, 'f) Connection \<Rightarrow> ('c, 'v, 'e, 'f) Connection" where
  "count_written n c = c\<lparr>metrics := map_option (count_out n) (metrics c), wr := Selecting\<rparr>"

text \<open>A failed \<^verbatim>\<open>Write\<close> may have put a part of the data on the wire.\<close>

definition write_failed :: "nat \<Rightarrow> bytes \<Rightarrow> ('c, 'v, 'e, 'f) Connection \<Rightarrow> ('c, 'v, 'e, 'f) Connection" where
  "write_failed n d c = c\<lparr>written := written c @ (if sockClosed c then [] else take n d), wr := WriterClosing\<rparr>"

text \<open>
  \<^verbatim>\<open>SendMsg\<close> up to its \<^verbatim>\<open>select\<close>, and the cases of the \<^verbatim>\<open>select\<close> that can be taken; an unbuffered channel passes the
  wire to a writer that waits for it.
\<close>

definition SendMsg_check ::
  "('c \<Rightarrow> Message \<Rightarrow> go_error + bytes) \<Rightarrow> u32 \<Rightarrow> bytes \<Rightarrow> ('c, 'v, 'e, 'f) Connection \<Rightarrow> go_error + bytes" where
  "SendMsg_check pack i data c =
     (if cstate c \<noteq> stateRunning then Inl (Sentinel ErrConnClosed) else pack (codec c) (NewMessage i data))"

datatype send_case = CaseSend | CaseDone | CaseTimeout

definition count_sent :: "connMetrics \<Rightarrow> connMetrics" where
  "count_sent m = m\<lparr>msgsSent := Suc (msgsSent m)\<rparr>"

definition accept_wire :: "Message \<times> bytes \<Rightarrow> ('c, 'v, 'e, 'f) Connection \<Rightarrow> ('c, 'v, 'e, 'f) Connection" where
  "accept_wire mw c =
     (let c' = c\<lparr>accepted := accepted c @ [mw], tallying := Suc (tallying c)\<rparr> in
      if ccap (msgChan c) = 0 then c'\<lparr>wr := Writing (snd mw)\<rparr> else c'\<lparr>msgChan := chan_send (snd mw) (msgChan c)\<rparr>)"

definition can_accept :: "('c, 'v, 'e, 'f) Connection \<Rightarrow> bool" where
  "can_accept c \<longleftrightarrow> (if ccap (msgChan c) = 0 then wr c = Selecting else chan_ready (msgChan c))"

fun SendMsg_select ::
  "send_case \<Rightarrow> Message \<times> bytes \<Rightarrow> ('c, 'v, 'e, 'f) Connection \<Rightarrow> (go_error option \<times> ('c, 'v, 'e, 'f) Connection) option" where
  "SendMsg_select CaseSend mw c = (if can_accept c then Some (None, accept_wire mw c) else None)"
| "SendMsg_select CaseDone mw c = (if cdone c then Some (Some (Sentinel ErrConnClosed), c) else None)"
| "SendMsg_select CaseTimeout mw c =
     (if 0 < writeTimeout c then Some (Some (Wrapped ErrTimeout (str '': write queue full'')), c) else None)"

text \<open>What is left of \<^verbatim>\<open>SendMsg\<close> after the send on the channel.\<close>

definition SendMsg_count :: "('c, 'v, 'e, 'f) Connection \<Rightarrow> ('c, 'v, 'e, 'f) Connection" where
  "SendMsg_count c = c\<lparr>tallying := tallying c - 1, metrics := map_option count_sent (metrics c)\<rparr>"

section \<open>Liveness and properties\<close>

text \<open>\<^verbatim>\<open>Time.Sub\<close> saturates at the limits of a duration.\<close>

definition time_sub :: "int \<Rightarrow> int \<Rightarrow> int" where
  "time_sub t u = max (- (2 ^ 63)) (min (2 ^ 63 - 1) (t - u))"

definition IsAlive :: "int \<Rightarrow> int \<Rightarrow> ('c, 'v, 'e, 'f) Connection \<Rightarrow> bool" where
  "IsAlive now tmo c \<longleftrightarrow>
     (if tmo \<le> 0 then True else if lastActivity c = 0 then True else time_sub now (lastActivity c) \<le> tmo)"

definition SetProperty :: "bytes \<Rightarrow> 'v \<Rightarrow> ('c, 'v, 'e, 'f) Connection \<Rightarrow> ('c, 'v, 'e, 'f) Connection" where
  "SetProperty k v c = c\<lparr>property := (property c)(k \<mapsto> v)\<rparr>"

definition GetProperty :: "bytes \<Rightarrow> ('c, 'v, 'e, 'f) Connection \<Rightarrow> go_error + 'v" where
  "GetProperty k c = (case property c k of Some v \<Rightarrow> Inr v | None \<Rightarrow> Inl (Plain (str ''kinz: no property found'')))"

definition RemoveProperty :: "bytes \<Rightarrow> ('c, 'v, 'e, 'f) Connection \<Rightarrow> ('c, 'v, 'e, 'f) Connection" where
  "RemoveProperty k c = c\<lparr>property := (property c)(k := None)\<rparr>"

text \<open>
  What a call made by the heartbeat loop does to the connection: the default callback calls \<^verbatim>\<open>Stop\<close>, a beat is a call of
  \<^verbatim>\<open>SendMsg\<close>. A callback of the user does what the calls it makes do; these are steps of their own.
\<close>

fun beat_call ::
  "('c \<Rightarrow> Message \<Rightarrow> go_error + bytes) \<Rightarrow> 'f hb_effect option \<Rightarrow> ('c, 'v, 'e, 'f) Connection \<Rightarrow> ('c, 'v, 'e, 'f) Connection" where
  "beat_call pack None c = c"
| "beat_call pack (Some (CallNotAlive NotAliveDefault i)) c = stop_call c"
| "beat_call pack (Some (CallNotAlive (NotAliveUser f) i)) c = c"
| "beat_call pack (Some (CallBeat f i)) c = c"
| "beat_call pack (Some (SendBeat i m data)) c =
     (case SendMsg_check pack m data c of
        Inl e \<Rightarrow> c
      | Inr w \<Rightarrow> c\<lparr>senders := senders c @ [(NewMessage m data, w)]\<rparr>)"

section \<open>Interleaving\<close>

text \<open>The steps of the goroutines that belong to the connection.\<close>

inductive conn_internal ::
  "('c \<Rightarrow> bytes \<Rightarrow> Message list \<times> go_error option \<times> 'c) \<Rightarrow>
   ('c, 'v, 'e, 'f) Connection \<Rightarrow> ('c, 'v, 'e, 'f) Connection \<Rightarrow> bool" for dec where
  start: "start_action tpl (spc c) c = Some c' \<Longrightarrow> conn_internal dec c c'"
| once: "opc c \<noteq> OnceDone \<Longrightarrow> opc c = OnceIdle \<longrightarrow> stop_wanted c \<Longrightarrow> once_action (opc c) c = Ret c' \<Longrightarrow> conn_internal dec c c'"
| read: "rd c = Reading \<Longrightarrow> \<not> sockClosed c \<Longrightarrow> length b \<le> readChunkSize \<Longrightarrow> conn_internal dec c (read_chunk dec now b c)"
| read_error: "rd c = Reading \<Longrightarrow> conn_internal dec c (c\<lparr>rd := ReaderClosing\<rparr>)"
| handoff: "rd c = Dispatching ms \<Longrightarrow> conn_internal dec c (dispatch_action ms c)"
| read_exit: "rd c = ReaderClosing \<Longrightarrow> opc c = OnceDone \<Longrightarrow> conn_internal dec c (c\<lparr>rd := ReaderExited, cwg := cwg c - 1\<rparr>)"
| take: "wr c = Selecting \<Longrightarrow> chan_recv (msgChan c) = Some (d, ch) \<Longrightarrow> conn_internal dec c (c\<lparr>msgChan := ch, wr := Writing d\<rparr>)"
| put: "wr c = Writing d \<Longrightarrow> \<not> sockClosed c \<Longrightarrow> conn_internal dec c (write_ok d c)"
| tally: "wr c = CountOut n \<Longrightarrow> conn_internal dec c (count_written n c)"
| put_error: "wr c = Writing d \<Longrightarrow> conn_internal dec c (write_failed n d c)"
| see_done: "wr c = Selecting \<Longrightarrow> cdone c \<Longrightarrow> conn_internal dec c (c\<lparr>wr := WriterExited, cwg := cwg c - 1\<rparr>)"
| write_exit: "wr c = WriterClosing \<Longrightarrow> opc c = OnceDone \<Longrightarrow> conn_internal dec c (c\<lparr>wr := WriterExited, cwg := cwg c - 1\<rparr>)"
| stop: "i < length (stops c) \<Longrightarrow> stop_action i (stops c ! i) c = Some c' \<Longrightarrow> conn_internal dec c c'"

text \<open>All steps: those, the calls of other goroutines, and the loop of the heartbeat checker.\<close>

inductive conn_step ::
  "('c \<Rightarrow> bytes \<Rightarrow> Message list \<times> go_error option \<times> 'c) \<Rightarrow> ('c \<Rightarrow> Message \<Rightarrow> go_error + bytes) \<Rightarrow>
   ('c, 'v, 'e, 'f) Connection \<Rightarrow> ('c, 'v, 'e, 'f) Connection \<Rightarrow> bool" for dec pack where
  internal: "conn_internal dec c c' \<Longrightarrow> conn_step dec pack c c'"
| call_stop: "conn_step dec pack c (stop_call c)"
| send_check: "SendMsg_check pack i data c = Inr w \<Longrightarrow>
    conn_step dec pack c (c\<lparr>senders := senders c @ [(NewMessage i data, w)]\<rparr>)"
| send_select: "k < length (senders c) \<Longrightarrow> SendMsg_select sc (senders c ! k) c = Some (r, c') \<Longrightarrow>
    conn_step dec pack c (c'\<lparr>senders := take k (senders c) @ drop (Suc k) (senders c)\<rparr>)"
| send_count: "0 < tallying c \<Longrightarrow> conn_step dec pack c (SendMsg_count c)"
| beat: "clone c = Some h \<Longrightarrow> j < length (loops h) \<Longrightarrow> loop_step tick (\<lambda>_ tmo. IsAlive now tmo c) j h = Some (e, h') \<Longrightarrow>
    conn_step dec pack c (beat_call pack e (c\<lparr>clone := Some h'\<rparr>))"
| set_property: "conn_step dec pack c (SetProperty key v c)"
| remove_property: "conn_step dec pack c (RemoveProperty key c)"

inductive conn_reachable ::
  "('c \<Rightarrow> bytes \<Rightarrow> Message list \<times> go_error option \<times> 'c) \<Rightarrow> ('c \<Rightarrow> Message \<Rightarrow> go_error + bytes) \<Rightarrow> 'c \<Rightarrow>
   ('c, 'v, 'e, 'f) Connection \<Rightarrow> bool" for dec pack cod where
  new: "NewConnection i cod wq wt counting now = Ret c \<Longrightarrow> conn_reachable dec pack cod c"
| step: "conn_reachable dec pack cod c \<Longrightarrow> conn_step dec pack c c' \<Longrightarrow> conn_reachable dec pack cod c'"

section \<open>Invariants\<close>

text \<open>The order of the actions of \<^verbatim>\<open>Start\<close> and of the one-time cleanup.\<close>

fun spos :: "start_pc \<Rightarrow> nat" where
  "spos StartCas = 0" | "spos StartBind = 1" | "spos StartHb = 2" | "spos StartFlag = 3"
| "spos GoReader = 4" | "spos GoWriter = 5" | "spos CallStart = 6" | "spos StartReturned = 7"

fun opos :: "once_pc \<Rightarrow> nat" where
  "opos OnceIdle = 0" | "opos StoreClosed = 1" | "opos CallStop = 2" | "opos TakeHb = 3" | "opos (StopHb b) = 4"
| "opos CountDown = 5" | "opos CountClosed = 6" | "opos CloseConn = 7" | "opos CloseDone = 8" | "opos MgrRemove = 9" | "opos OnceDone = 10"

definition life_inv :: "('c, 'v, 'e, 'f) Connection \<Rightarrow> bool" where
  "life_inv c \<longleftrightarrow>
     cwg c = (if rd c = ReaderExited then 0 else 1) + (if wr c = WriterExited then 0 else 1) \<and>
     (started c \<longleftrightarrow> 4 \<le> spos (spc c)) \<and> (rd c = NoReader \<longleftrightarrow> spos (spc c) \<le> 4) \<and> (wr c = NoWriter \<longleftrightarrow> spos (spc c) \<le> 5) \<and>
     (cstate c = stateClosed \<longleftrightarrow> 2 \<le> opos (opc c)) \<and> (cstate c = stateCreated \<longleftrightarrow> spos (spc c) = 0 \<and> opos (opc c) \<le> 1)"

definition once_inv :: "('c, 'v, 'e, 'f) Connection \<Rightarrow> bool" where
  "once_inv c \<longleftrightarrow>
     (sockClosed c \<longleftrightarrow> 8 \<le> opos (opc c)) \<and> (cdone c \<longleftrightarrow> 9 \<le> opos (opc c)) \<and>
     removals c = of_bool (10 \<le> opos (opc c)) \<and>
     count_list (hooks c) OnConnStop = of_bool (3 \<le> opos (opc c)) \<and>
     count_list (hooks c) OnConnStart = of_bool (7 \<le> spos (spc c))"

definition checker_inv :: "('c, 'v, 'e, 'f) Connection \<Rightarrow> bool" where
  "checker_inv c \<longleftrightarrow>
     (case clone c of
        None \<Rightarrow> \<not> hb c \<and> opc c \<noteq> StopHb True \<and> spc c \<noteq> StartHb
      | Some h \<Rightarrow> 2 \<le> spos (spc c) \<and> hb_inv h \<and> length (loops h) \<le> of_bool (3 \<le> spos (spc c)) \<and>
          (hstarted h \<longrightarrow> spc c \<noteq> StartHb \<and> (hb c \<and> opos (opc c) \<le> 3 \<or> opc c = StopHb True)) \<and>
          (spc c = StartHb \<and> opos (opc c) \<le> 3 \<longrightarrow> hb c) \<and> (hb c \<and> 4 \<le> opos (opc c) \<longrightarrow> spc c = StartHb))"

fun stopper_inv :: "('c, 'v, 'e, 'f) Connection \<Rightarrow> stopper \<Rightarrow> bool" where
  "stopper_inv c (StopIn b) \<longleftrightarrow> (b \<longrightarrow> started c)"
| "stopper_inv c (StopWait b) \<longleftrightarrow> started c \<and> opc c = OnceDone"
| "stopper_inv c (StopRet b w) \<longleftrightarrow> opc c = OnceDone \<and> (b \<longrightarrow> w) \<and> (w \<longrightarrow> started c \<and> cwg c = 0)"

text \<open>The bytes written and not yet counted.\<close>

fun uncounted :: "writer \<Rightarrow> nat" where
  "uncounted (CountOut n) = n"
| "uncounted w = 0"

definition metrics_inv :: "('c, 'v, 'e, 'f) Connection \<Rightarrow> bool" where
  "metrics_inv c \<longleftrightarrow>
     (case metrics c of
        None \<Rightarrow> True
      | Some m \<Rightarrow> active m = - of_bool (6 \<le> opos (opc c)) \<and> closed m = of_bool (7 \<le> opos (opc c)) \<and>
          bytesIn m = length (concat (rcvd c)) \<and> msgsRecv m = length (dispatched c) \<and> msgsSent m + tallying c = length (accepted c) \<and>
          bytesOut m + uncounted (wr c) \<le> length (written c) \<and>
          (wr c \<notin> {WriterClosing, WriterExited} \<longrightarrow> bytesOut m + uncounted (wr c) = length (written c)))"

lemma opos_10 [simp]: "10 \<le> opos p \<longleftrightarrow> p = OnceDone"
  by (cases p) simp_all

lemma spos_7 [simp]: "7 \<le> spos p \<longleftrightarrow> p = StartReturned"
  by (cases p) simp_all

lemma spos_0 [simp]: "spos p = 0 \<longleftrightarrow> p = StartCas"
  by (cases p) simp_all

lemmas conn_defs = touch_def read_chunk_def write_ok_def count_written_def write_failed_def accept_wire_def SendMsg_count_def stop_call_def
  SetProperty_def RemoveProperty_def Let_def

lemma start_actionE:
  assumes act: "start_action tpl (spc c) c = Some c'"
  obtains (cas) "spc c = StartCas" "cstate c = stateCreated" "c' = c\<lparr>cstate := stateRunning, spc := StartBind\<rparr>"
  | (no_template) "spc c = StartBind" "c' = c\<lparr>spc := StartFlag\<rparr>"
  | (bind) t where "spc c = StartBind" "c' = c\<lparr>clone := Some (hb_BindConn (connID c) (hb_Clone t)), hb := True, spc := StartHb\<rparr>"
  | (hb_on) "spc c = StartHb" "cstate c = stateRunning" "c' = c\<lparr>clone := map_option hb_Start (clone c), spc := StartFlag\<rparr>"
  | (hb_off) "spc c = StartHb" "cstate c \<noteq> stateRunning" "c' = c\<lparr>hb := False, spc := StartFlag\<rparr>"
  | (flag) "spc c = StartFlag" "c' = c\<lparr>started := True, spc := GoReader\<rparr>"
  | (reader) "spc c = GoReader" "c' = c\<lparr>rd := Reading, spc := GoWriter\<rparr>"
  | (writer) "spc c = GoWriter" "c' = c\<lparr>wr := Selecting, spc := CallStart\<rparr>"
  | (hook) "spc c = CallStart" "c' = c\<lparr>hooks := hooks c @ [OnConnStart], spc := StartReturned\<rparr>"
proof (cases "spc c")
  case StartCas
  with act show ?thesis by (intro cas) (auto split: if_splits)
next
  case StartBind
  with act show ?thesis by (cases tpl) (auto intro: no_template bind)
next
  case StartHb
  with act show ?thesis by (cases "cstate c = stateRunning") (auto intro: hb_on hb_off)
next
  case StartFlag
  with act show ?thesis by (intro flag) auto
next
  case GoReader
  with act show ?thesis by (intro reader) auto
next
  case GoWriter
  with act show ?thesis by (intro writer) auto
next
  case CallStart
  with act show ?thesis by (intro hook) auto
next
  case StartReturned
  with act show ?thesis by (simp only: start_action.simps option.distinct)
qed

lemma once_actionE:
  assumes act: "once_action (opc c) c = Ret c'" and undone: "opc c \<noteq> OnceDone"
  obtains (enter) "opc c = OnceIdle" "c' = c\<lparr>opc := StoreClosed\<rparr>"
  | (store) "opc c = StoreClosed" "c' = c\<lparr>cstate := stateClosed, opc := CallStop\<rparr>"
  | (hook) "opc c = CallStop" "c' = c\<lparr>hooks := hooks c @ [OnConnStop], opc := TakeHb\<rparr>"
  | (fetch) "opc c = TakeHb" "c' = c\<lparr>hb := False, opc := StopHb (hb c)\<rparr>"
  | (halt) h h' where "opc c = StopHb True" "clone c = Some h" "hb_Stop h = Ret h'" "c' = c\<lparr>clone := Some h', opc := CountDown\<rparr>"
  | (skip) "opc c = StopHb False" "c' = c\<lparr>opc := CountDown\<rparr>"
  | (down) "opc c = CountDown" "c' = c\<lparr>metrics := map_option count_down (metrics c), opc := CountClosed\<rparr>"
  | (count) "opc c = CountClosed" "c' = c\<lparr>metrics := map_option count_closed (metrics c), opc := CloseConn\<rparr>"
  | (sock) "opc c = CloseConn" "c' = c\<lparr>sockClosed := True, opc := CloseDone\<rparr>"
  | (close) "opc c = CloseDone" "\<not> cdone c" "c' = c\<lparr>cdone := True, opc := MgrRemove\<rparr>"
  | (unregister) "opc c = MgrRemove" "c' = c\<lparr>removals := Suc (removals c), opc := OnceDone\<rparr>"
proof (cases "opc c")
  case OnceIdle
  with act show ?thesis by (intro enter) auto
next
  case StoreClosed
  with act show ?thesis by (intro store) auto
next
  case CallStop
  with act show ?thesis by (intro hook) auto
next
  case TakeHb
  with act show ?thesis by (intro fetch) auto
next
  case (StopHb b)
  with act show ?thesis by (cases b) (auto intro: skip halt split: option.splits outcome.splits)
next
  case CountDown
  with act show ?thesis by (intro down) auto
next
  case CountClosed
  with act show ?thesis by (intro count) auto
next
  case CloseConn
  with act show ?thesis by (intro sock) auto
next
  case CloseDone
  with act show ?thesis by (intro close) (auto split: if_splits)
next
  case MgrRemove
  with act show ?thesis by (intro unregister) auto
next
  case OnceDone
  with undone show ?thesis by (rule notE)
qed

lemma stop_actionE:
  assumes act: "stop_action i (stops c ! i) c = Some c'"
  obtains (stay) b where "stops c ! i = StopIn b" "opc c = OnceDone" "started c" "c' = c\<lparr>stops := (stops c)[i := StopWait b]\<rparr>"
  | (leave) b where "stops c ! i = StopIn b" "opc c = OnceDone" "\<not> started c" "c' = c\<lparr>stops := (stops c)[i := StopRet b False]\<rparr>"
  | (waited) b where "stops c ! i = StopWait b" "cwg c = 0" "c' = c\<lparr>stops := (stops c)[i := StopRet b True]\<rparr>"
proof (cases "stops c ! i")
  case (StopIn b)
  with act show ?thesis by (cases "started c") (auto intro: stay leave split: if_splits)
next
  case (StopWait b)
  with act show ?thesis by (intro waited) (auto split: if_splits)
next
  case (StopRet b w)
  with act show ?thesis by (simp only: stop_action.simps option.distinct)
qed

lemma SendMsg_selectE:
  assumes act: "SendMsg_select sc mw c = Some (r, c')"
  obtains (send) "can_accept c" "c' = accept_wire mw c" | (fail) "c' = c"
proof (cases "sc = CaseSend")
  case True
  with act show ?thesis by (intro send) (auto split: if_splits)
next
  case False
  with act show ?thesis by (intro fail; cases sc) (auto split: if_splits)
qed

section \<open>The invariants hold\<close>

definition conn_inv :: "('c, 'v, 'e, 'f) Connection \<Rightarrow> bool" where
  "conn_inv c \<longleftrightarrow> life_inv c \<and> once_inv c \<and> checker_inv c \<and> list_all (stopper_inv c) (stops c) \<and> metrics_inv c"

lemma conn_inv_New: "NewConnection i cod wq wt counting now = Ret c \<Longrightarrow> conn_inv c"
  by (drule NewConnectionD)
    (simp add: new_conn_def touch_def conn_inv_def life_inv_def once_inv_def checker_inv_def metrics_inv_def no_counts_def)

lemma life_start: "life_inv c \<Longrightarrow> start_action tpl (spc c) c = Some c' \<Longrightarrow> life_inv c'"
  by (erule start_actionE) (simp_all add: life_inv_def)

lemma life_once: "life_inv c \<Longrightarrow> once_action (opc c) c = Ret c' \<Longrightarrow> opc c \<noteq> OnceDone \<Longrightarrow> life_inv c'"
  by (erule once_actionE) (simp_all add: life_inv_def)

lemma once_start: "once_inv c \<Longrightarrow> start_action tpl (spc c) c = Some c' \<Longrightarrow> once_inv c'"
  by (erule start_actionE) (simp_all add: once_inv_def)

lemma once_once: "once_inv c \<Longrightarrow> once_action (opc c) c = Ret c' \<Longrightarrow> opc c \<noteq> OnceDone \<Longrightarrow> once_inv c'"
  by (erule once_actionE) (simp_all add: once_inv_def)

lemma clone_fresh [simp]: "\<not> hstarted (hb_BindConn i (hb_Clone t))" "loops (hb_BindConn i (hb_Clone t)) = []"
  by (simp_all add: hb_BindConn_def hb_Clone_def)

lemma checker_start: "life_inv c \<Longrightarrow> checker_inv c \<Longrightarrow> start_action tpl (spc c) c = Some c' \<Longrightarrow> checker_inv c'"
proof (erule start_actionE)
  assume inv: "life_inv c" "checker_inv c" and pc: "spc c = StartHb" "cstate c = stateRunning"
    and c': "c' = c\<lparr>clone := map_option hb_Start (clone c), spc := StartFlag\<rparr>"
  from inv(2) pc(1) obtain h where h: "clone c = Some h" "hb_inv h" "loops h = []" "opos (opc c) \<le> 3 \<longrightarrow> hb c"
    by (auto simp: checker_inv_def split: option.splits)
  have "opos (opc c) \<le> 3" using inv(1) pc(2) by (auto simp: life_inv_def)
  moreover have "length (loops (hb_Start h)) \<le> 1" using h(3) by (simp add: hb_Start_def)
  ultimately show "checker_inv c'" using h hb_Start_inv [OF h(2)] by (simp add: checker_inv_def c')
qed (auto simp: checker_inv_def life_inv_def split: option.splits)

lemma checker_once:
  "checker_inv c \<Longrightarrow> once_action (opc c) c = Ret c' \<Longrightarrow> opc c \<noteq> OnceDone \<Longrightarrow> checker_inv c'"
proof (erule once_actionE)
  fix h h'
  assume inv: "checker_inv c" and "opc c = StopHb True" "clone c = Some h" "hb_Stop h = Ret h'"
    "c' = c\<lparr>clone := Some h', opc := CountDown\<rparr>"
  with hb_Stop_inv [of h] show "checker_inv c'" by (auto simp: checker_inv_def)
qed (auto simp: checker_inv_def split: option.splits)

lemma checker_beat:
  assumes "checker_inv c" and "clone c = Some h" and "j < length (loops h)" and "loop_step tick alive j h = Some (e, h')"
  shows "checker_inv (c\<lparr>clone := Some h'\<rparr>)"
  using assms(1,2) loop_step_inv [OF _ assms(3,4)] loop_step_frame [OF assms(4)] by (auto simp: checker_inv_def)

lemma checker_not_None: "checker_inv c \<Longrightarrow> opc c = StopHb True \<Longrightarrow> \<exists>h. clone c = Some h \<and> hb_inv h"
  by (auto simp: checker_inv_def split: option.splits)

lemma once_never_panics: "conn_inv c \<Longrightarrow> once_action (opc c) c \<noteq> Panic"
proof (cases "opc c")
  case (StopHb b)
  assume "conn_inv c"
  then have "\<exists>h h'. clone c = Some h \<and> hb_Stop h = Ret h'" if b
    using checker_not_None [of c] StopHb that hb.stop_ok by (fastforce simp: conn_inv_def)
  with StopHb show ?thesis by auto
next
  case CloseDone
  assume "conn_inv c"
  with CloseDone show ?thesis by (simp add: conn_inv_def once_inv_def)
qed simp_all

text \<open>What \<^const>\<open>stopper_inv\<close> reads of a connection only grows.\<close>

lemma stopper_mono:
  assumes "list_all (stopper_inv c) xs" and "started c \<Longrightarrow> started c'" and "opc c = OnceDone \<Longrightarrow> opc c' = OnceDone"
    and "cwg c = 0 \<Longrightarrow> started c \<Longrightarrow> cwg c' = 0"
  shows "list_all (stopper_inv c') xs"
proof -
  have "stopper_inv c x \<Longrightarrow> stopper_inv c' x" for x
    using assms(2-4) by (cases x) auto
  with assms(1) show ?thesis by (auto simp: list_all_iff)
qed

lemma stops_start: "list_all (stopper_inv c) (stops c) \<Longrightarrow> start_action tpl (spc c) c = Some c' \<Longrightarrow> list_all (stopper_inv c') (stops c')"
  by (erule start_actionE) (auto elim!: stopper_mono)

lemma stops_once:
  "list_all (stopper_inv c) (stops c) \<Longrightarrow> once_action (opc c) c = Ret c' \<Longrightarrow> opc c \<noteq> OnceDone \<Longrightarrow> list_all (stopper_inv c') (stops c')"
  by (erule once_actionE) (auto elim!: stopper_mono)

lemma metrics_start: "life_inv c \<Longrightarrow> metrics_inv c \<Longrightarrow> start_action tpl (spc c) c = Some c' \<Longrightarrow> metrics_inv c'"
  by (erule start_actionE) (auto simp: metrics_inv_def life_inv_def split: option.splits)

lemma metrics_once: "metrics_inv c \<Longrightarrow> once_action (opc c) c = Ret c' \<Longrightarrow> opc c \<noteq> OnceDone \<Longrightarrow> metrics_inv c'"
  by (erule once_actionE) (auto simp: metrics_inv_def count_down_def count_closed_def split: option.splits)

text \<open>The reader and the writer touch neither the cleanup nor the checker.\<close>

lemma conn_inv_io:
  assumes "conn_inv c"
    and "spc c' = spc c" "opc c' = opc c" "started c' = started c" "cstate c' = cstate c" "cdone c' = cdone c"
      "sockClosed c' = sockClosed c" "hooks c' = hooks c" "removals c' = removals c" "clone c' = clone c" "hb c' = hb c"
      "stops c' = stops c"
    and "life_inv c'" and "metrics_inv c'" and "cwg c = 0 \<Longrightarrow> started c \<Longrightarrow> cwg c' = 0"
  shows "conn_inv c'"
proof -
  have "checker_inv c' = checker_inv c" "once_inv c' = once_inv c"
    unfolding checker_inv_def once_inv_def using assms(2-12) by (simp_all only:)
  with assms stopper_mono [of c "stops c" c'] show ?thesis by (simp add: conn_inv_def)
qed

lemma conn_inv_read: "conn_inv c \<Longrightarrow> rd c = Reading \<Longrightarrow> conn_inv (read_chunk dec now b c)"
  by (rule conn_inv_io, assumption)
    (auto simp: read_chunk_def touch_def conn_inv_def life_inv_def metrics_inv_def count_in_def split: prod.splits option.splits)

lemma conn_inv_read_error: "conn_inv c \<Longrightarrow> rd c = Reading \<Longrightarrow> conn_inv (c\<lparr>rd := ReaderClosing\<rparr>)"
  by (rule conn_inv_io, assumption)
    (auto simp: conn_inv_def life_inv_def metrics_inv_def split: option.splits)

lemma conn_inv_handoff: "conn_inv c \<Longrightarrow> rd c = Dispatching ms \<Longrightarrow> conn_inv (dispatch_action ms c)"
  by (cases ms; rule conn_inv_io, assumption)
    (auto simp: conn_inv_def life_inv_def metrics_inv_def count_recv_def split: option.splits)

lemma conn_inv_read_exit: "conn_inv c \<Longrightarrow> rd c = ReaderClosing \<Longrightarrow> conn_inv (c\<lparr>rd := ReaderExited, cwg := cwg c - 1\<rparr>)"
  by (rule conn_inv_io, assumption)
    (auto simp: conn_inv_def life_inv_def metrics_inv_def split: option.splits)

lemma conn_inv_take: "conn_inv c \<Longrightarrow> wr c = Selecting \<Longrightarrow> conn_inv (c\<lparr>msgChan := ch, wr := Writing d\<rparr>)"
  by (rule conn_inv_io, assumption)
    (auto simp: conn_inv_def life_inv_def metrics_inv_def split: option.splits)

lemma conn_inv_put: "conn_inv c \<Longrightarrow> wr c = Writing d \<Longrightarrow> conn_inv (write_ok d c)"
  by (rule conn_inv_io, assumption)
    (auto simp: write_ok_def conn_inv_def life_inv_def metrics_inv_def split: option.splits)

lemma conn_inv_tally: "conn_inv c \<Longrightarrow> wr c = CountOut n \<Longrightarrow> conn_inv (count_written n c)"
  by (rule conn_inv_io, assumption)
    (auto simp: count_written_def conn_inv_def life_inv_def metrics_inv_def count_out_def split: option.splits)

lemma conn_inv_put_error: "conn_inv c \<Longrightarrow> wr c = Writing d \<Longrightarrow> conn_inv (write_failed n d c)"
  by (rule conn_inv_io, assumption)
    (auto simp: write_failed_def conn_inv_def life_inv_def metrics_inv_def split: option.splits)

lemma conn_inv_write_exit:
  assumes "conn_inv c" and "wr c \<notin> {NoWriter, WriterExited}"
  shows "conn_inv (c\<lparr>wr := WriterExited, cwg := cwg c - 1\<rparr>)"
proof (rule conn_inv_io [OF assms(1)])
  show "life_inv (c\<lparr>wr := WriterExited, cwg := cwg c - 1\<rparr>)"
    using assms by (simp add: conn_inv_def life_inv_def)
  show "metrics_inv (c\<lparr>wr := WriterExited, cwg := cwg c - 1\<rparr>)"
    using assms by (auto simp: conn_inv_def metrics_inv_def split: option.splits)
qed simp_all

lemma conn_inv_accept:
  assumes "conn_inv c" and "can_accept c"
  shows "conn_inv (accept_wire mw c)"
proof (rule conn_inv_io [OF assms(1)])
  show "life_inv (accept_wire mw c)"
    using assms by (simp add: conn_inv_def life_inv_def accept_wire_def can_accept_def Let_def split: if_splits)
  have "metrics_inv c" using assms(1) by (simp add: conn_inv_def)
  then show "metrics_inv (accept_wire mw c)"
    using assms(2) by (cases "metrics c")
      (simp_all add: metrics_inv_def accept_wire_def can_accept_def Let_def split: if_splits)
qed (simp_all add: accept_wire_def Let_def)

lemma conn_inv_count: "conn_inv c \<Longrightarrow> 0 < tallying c \<Longrightarrow> conn_inv (SendMsg_count c)"
  by (rule conn_inv_io, assumption)
    (auto simp: SendMsg_count_def conn_inv_def life_inv_def metrics_inv_def count_sent_def split: option.splits)

lemma conn_inv_stops:
  assumes "conn_inv c" and "list_all (stopper_inv c) xs"
  shows "conn_inv (c\<lparr>stops := xs\<rparr>)"
proof -
  have "list_all (stopper_inv (c\<lparr>stops := xs\<rparr>)) xs" by (rule stopper_mono [OF assms(2)]) simp_all
  moreover have "life_inv (c\<lparr>stops := xs\<rparr>) = life_inv c" "once_inv (c\<lparr>stops := xs\<rparr>) = once_inv c"
      "checker_inv (c\<lparr>stops := xs\<rparr>) = checker_inv c" "metrics_inv (c\<lparr>stops := xs\<rparr>) = metrics_inv c"
    by (simp_all add: life_inv_def once_inv_def checker_inv_def metrics_inv_def cong: option.case_cong)
  ultimately show ?thesis using assms(1) by (simp add: conn_inv_def)
qed

lemma list_all_update: "list_all P xs \<Longrightarrow> P x \<Longrightarrow> list_all P (xs[i := x])"
  by (auto simp: list_all_iff dest: subsetD [OF set_update_subset_insert])

lemma conn_inv_stop:
  assumes "conn_inv c" and "i < length (stops c)" and "stop_action i (stops c ! i) c = Some c'"
  shows "conn_inv c'"
proof -
  have all: "list_all (stopper_inv c) (stops c)" and i: "stopper_inv c (stops c ! i)"
    using assms(1,2) by (simp_all add: conn_inv_def list_all_length)
  from assms(3) show ?thesis
  proof (cases rule: stop_actionE)
    case (stay b)
    with conn_inv_stops [OF assms(1) list_all_update [OF all]] show ?thesis by simp
  next
    case (leave b)
    with conn_inv_stops [OF assms(1) list_all_update [OF all]] i show ?thesis by simp
  next
    case (waited b)
    with conn_inv_stops [OF assms(1) list_all_update [OF all]] i show ?thesis by simp
  qed
qed

lemma conn_inv_call_stop: "conn_inv c \<Longrightarrow> conn_inv (stop_call c)"
  unfolding stop_call_def by (rule conn_inv_stops) (simp_all add: conn_inv_def)

lemma conn_inv_senders: "conn_inv c \<Longrightarrow> conn_inv (c\<lparr>senders := xs\<rparr>)"
  by (rule conn_inv_io, assumption) (auto simp: conn_inv_def life_inv_def metrics_inv_def split: option.splits)

lemma conn_inv_clone:
  assumes "conn_inv c" and "checker_inv (c\<lparr>clone := h\<rparr>)"
  shows "conn_inv (c\<lparr>clone := h\<rparr>)"
proof -
  have "list_all (stopper_inv (c\<lparr>clone := h\<rparr>)) (stops c)"
    by (rule stopper_mono [of c]) (use assms(1) in \<open>simp_all add: conn_inv_def\<close>)
  moreover have "life_inv (c\<lparr>clone := h\<rparr>) = life_inv c" "once_inv (c\<lparr>clone := h\<rparr>) = once_inv c"
      "metrics_inv (c\<lparr>clone := h\<rparr>) = metrics_inv c"
    by (simp_all add: life_inv_def once_inv_def metrics_inv_def cong: option.case_cong)
  ultimately show ?thesis using assms by (simp add: conn_inv_def)
qed

lemma conn_inv_beat: "conn_inv c \<Longrightarrow> conn_inv (beat_call pack e c)"
  by (cases "(pack, e, c)" rule: beat_call.cases) (simp_all add: conn_inv_call_stop conn_inv_senders split: sum.split)

lemma conn_inv_property: "conn_inv c \<Longrightarrow> conn_inv (c\<lparr>property := p\<rparr>)"
  by (rule conn_inv_io, assumption) (auto simp: conn_inv_def life_inv_def metrics_inv_def split: option.splits)

lemma conn_inv_internal: "conn_internal dec c c' \<Longrightarrow> conn_inv c \<Longrightarrow> conn_inv c'"
proof (induction rule: conn_internal.induct)
  case (start tpl c c')
  then show ?case
    using life_start once_start checker_start stops_start metrics_start by (simp add: conn_inv_def) blast
next
  case (once c c')
  then show ?case
    using life_once once_once checker_once stops_once metrics_once by (simp add: conn_inv_def) blast
next
  case (read_exit c)
  then show ?case by (intro conn_inv_read_exit)
next
  case (see_done c)
  then show ?case by (intro conn_inv_write_exit) simp_all
next
  case (write_exit c)
  then show ?case by (intro conn_inv_write_exit) simp_all
qed (simp_all add: conn_inv_read conn_inv_read_error conn_inv_handoff conn_inv_take conn_inv_put conn_inv_tally conn_inv_put_error conn_inv_stop)

lemma conn_inv_step: "conn_step dec pack c c' \<Longrightarrow> conn_inv c \<Longrightarrow> conn_inv c'"
proof (induction rule: conn_step.induct)
  case (send_select k c sc r c')
  from send_select.hyps(2) have "conn_inv c'"
    using send_select.prems by (cases rule: SendMsg_selectE) (simp_all add: conn_inv_accept)
  then show ?case by (rule conn_inv_senders)
next
  case (beat c h j tick now e h')
  then show ?case
    using checker_beat [OF _ beat.hyps] by (intro conn_inv_beat conn_inv_clone) (simp_all add: conn_inv_def)
qed (simp_all add: conn_inv_internal conn_inv_call_stop conn_inv_senders conn_inv_count SetProperty_def RemoveProperty_def conn_inv_property)

lemma conn_reachable_inv: "conn_reachable dec pack cod c \<Longrightarrow> conn_inv c"
  by (induction rule: conn_reachable.induct) (simp_all add: conn_inv_New conn_inv_step)

section \<open>Delivery\<close>

lemma beat_call_frame [simp]:
  "rd (beat_call pack e c) = rd c" "wr (beat_call pack e c) = wr c" "msgChan (beat_call pack e c) = msgChan c"
  "accepted (beat_call pack e c) = accepted c" "written (beat_call pack e c) = written c" "rcvd (beat_call pack e c) = rcvd c"
  "dispatched (beat_call pack e c) = dispatched c" "codec (beat_call pack e c) = codec c" "opc (beat_call pack e c) = opc c"
  "spc (beat_call pack e c) = spc c" "clone (beat_call pack e c) = clone c" "cdone (beat_call pack e c) = cdone c"
  "hooks (beat_call pack e c) = hooks c" "connID (beat_call pack e c) = connID c" "metrics (beat_call pack e c) = metrics c"
  "started (beat_call pack e c) = started c" "cstate (beat_call pack e c) = cstate c" "removals (beat_call pack e c) = removals c"
  "cwg (beat_call pack e c) = cwg c" "tallying (beat_call pack e c) = tallying c" "sockClosed (beat_call pack e c) = sockClosed c"
  by (cases "(pack, e, c)" rule: beat_call.cases; simp add: stop_call_def split: sum.split)+

text \<open>
  Inbound: the messages handed to the worker pool and those still in the reader's hand are what the codec made of the
  chunks read so far. Outbound: the accepted wires are those written, the one in the writer's hand and those queued.
\<close>

definition in_inv :: "('c \<Rightarrow> bytes \<Rightarrow> Message list \<times> go_error option \<times> 'c) \<Rightarrow> 'c \<Rightarrow> ('c, 'v, 'e, 'f) Connection \<Rightarrow> bool" where
  "in_inv dec cod c \<longleftrightarrow>
     (case rd c of
        NoReader \<Rightarrow> rcvd c = [] \<and> dispatched c = [] \<and> codec c = cod
      | Reading \<Rightarrow> feed dec cod (rcvd c) = (dispatched c, None, codec c)
      | Dispatching ms \<Rightarrow> feed dec cod (rcvd c) = (dispatched c @ ms, None, codec c)
      | _ \<Rightarrow> prefix (dispatched c) (fst (feed dec cod (rcvd c))))"

definition out_inv :: "('c, 'v, 'e, 'f) Connection \<Rightarrow> bool" where
  "out_inv c \<longleftrightarrow> cwait (msgChan c) = [] \<and> chan_inv (msgChan c) \<and>
     (case wr c of
        Writing d \<Rightarrow> \<exists>fl. map snd (accepted c) = fl @ d # cbuf (msgChan c) \<and> written c = concat fl
      | WriterClosing \<Rightarrow> prefix (written c) (concat (map snd (accepted c)))
      | WriterExited \<Rightarrow> prefix (written c) (concat (map snd (accepted c)))
      | _ \<Rightarrow> \<exists>fl. map snd (accepted c) = fl @ cbuf (msgChan c) \<and> written c = concat fl)"

lemma feed_snoc:
  "feed dec c bs = (ms, None, c1) \<Longrightarrow>
   feed dec c (bs @ [b]) = (case dec c1 b of (ms', e, c2) \<Rightarrow> (ms @ ms', e, c2))"
  by (induction bs arbitrary: c ms) (auto split: prod.splits option.splits)

lemma in_inv_read: "in_inv dec cod c \<Longrightarrow> rd c = Reading \<Longrightarrow> in_inv dec cod (read_chunk dec now b c)"
  by (auto simp: in_inv_def read_chunk_def touch_def feed_snoc split: prod.split option.split)

lemma in_inv_handoff: "in_inv dec cod c \<Longrightarrow> rd c = Dispatching ms \<Longrightarrow> in_inv dec cod (dispatch_action ms c)"
  by (cases ms) (simp_all add: in_inv_def)

lemma in_inv_internal: "conn_internal dec c c' \<Longrightarrow> life_inv c \<Longrightarrow> in_inv dec cod c \<Longrightarrow> in_inv dec cod c'"
proof (induction rule: conn_internal.induct)
  case (start tpl c c')
  then show ?case by (elim start_actionE) (simp_all add: in_inv_def life_inv_def cong: reader.case_cong)
next
  case (once c c')
  then show ?case by (elim once_actionE) (simp_all add: in_inv_def cong: reader.case_cong)
next
  case (stop i c c')
  from stop.hyps(2) stop.prems show ?case by (cases rule: stop_actionE) (simp_all add: in_inv_def cong: reader.case_cong)
next
  case (put c d)
  then show ?case by (simp add: in_inv_def write_ok_def cong: reader.case_cong)
next
  case (tally c n)
  then show ?case by (simp add: in_inv_def count_written_def cong: reader.case_cong)
next
  case (put_error c d n)
  then show ?case by (simp add: in_inv_def write_failed_def cong: reader.case_cong)
qed (simp_all add: in_inv_read in_inv_handoff, simp_all add: in_inv_def cong: reader.case_cong)

lemma in_inv_step: "conn_step dec pack c c' \<Longrightarrow> life_inv c \<Longrightarrow> in_inv dec cod c \<Longrightarrow> in_inv dec cod c'"
proof (induction rule: conn_step.induct)
  case (send_select k c sc r c')
  from send_select.hyps(2) send_select.prems show ?case
    by (cases rule: SendMsg_selectE) (simp_all add: in_inv_def accept_wire_def Let_def cong: reader.case_cong)
qed (simp_all add: in_inv_internal, simp_all add: in_inv_def conn_defs cong: reader.case_cong)

lemma conn_reachable_in: "conn_reachable dec pack cod c \<Longrightarrow> in_inv dec cod c"
proof (induction rule: conn_reachable.induct)
  case (new i wq wt counting now c)
  then show ?case by (drule_tac NewConnectionD) (simp add: in_inv_def new_conn_def touch_def)
next
  case (step c c')
  have "life_inv c" using conn_reachable_inv [OF step.hyps(1)] by (simp add: conn_inv_def)
  then show ?case using in_inv_step [OF step.hyps(2)] step.IH by blast
qed

lemma out_inv_start: "life_inv c \<Longrightarrow> out_inv c \<Longrightarrow> start_action tpl (spc c) c = Some c' \<Longrightarrow> out_inv c'"
  by (erule start_actionE) (simp_all add: out_inv_def life_inv_def cong: writer.case_cong)

lemma out_inv_once: "out_inv c \<Longrightarrow> once_action (opc c) c = Ret c' \<Longrightarrow> opc c \<noteq> OnceDone \<Longrightarrow> out_inv c'"
  by (erule once_actionE) (simp_all add: out_inv_def cong: writer.case_cong)

lemma out_inv_take:
  assumes "out_inv c" and "wr c = Selecting" and "chan_recv (msgChan c) = Some (d, ch)"
  shows "out_inv (c\<lparr>msgChan := ch, wr := Writing d\<rparr>)"
proof -
  have ch: "cwait ch = []" "cbuf (msgChan c) = d # cbuf ch" "chan_inv ch"
    using assms chan.recv_inv [OF _ assms(3)]
    by (auto simp: out_inv_def chan_recv_def contents_def chan_inv_def split: list.splits)
  with assms show ?thesis by (auto simp: out_inv_def)
qed

lemma out_inv_put: "out_inv c \<Longrightarrow> wr c = Writing d \<Longrightarrow> out_inv (write_ok d c)"
  by (auto simp: out_inv_def write_ok_def intro: exI [of _ "fl @ [d]" for fl])

lemma out_inv_tally: "out_inv c \<Longrightarrow> wr c = CountOut n \<Longrightarrow> out_inv (count_written n c)"
  by (auto simp: out_inv_def count_written_def)

lemma out_inv_put_error:
  assumes "out_inv c" and "wr c = Writing d"
  shows "out_inv (write_failed n d c)"
proof -
  from assms obtain fl where "map snd (accepted c) = fl @ d # cbuf (msgChan c)" "written c = concat fl"
    by (auto simp: out_inv_def)
  moreover have "prefix (concat fl @ take n d) (concat fl @ d @ concat (cbuf (msgChan c)))"
    using take_is_prefix [of n d] by (simp add: prefix_prefix)
  ultimately show ?thesis using assms(1) by (simp add: out_inv_def write_failed_def)
qed

lemma out_inv_exit: "out_inv c \<Longrightarrow> wr c \<in> {Selecting, WriterClosing} \<Longrightarrow> out_inv (c\<lparr>wr := WriterExited, cwg := n\<rparr>)"
  by (auto simp: out_inv_def)

lemma out_inv_accept:
  assumes "out_inv c" and "can_accept c"
  shows "out_inv (accept_wire mw c)"
proof (cases "ccap (msgChan c) = 0")
  case True
  with assms have "cbuf (msgChan c) = []" by (simp add: out_inv_def chan_inv_def)
  with True assms show ?thesis by (simp add: out_inv_def accept_wire_def can_accept_def Let_def)
next
  case False
  with assms(2) have ready: "chan_ready (msgChan c)" by (simp add: can_accept_def)
  with assms(1) have "chan_inv (chan_send (snd mw) (msgChan c))" by (simp add: out_inv_def chan.send_inv)
  with ready False assms show ?thesis
    by (auto simp: out_inv_def accept_wire_def Let_def chan_send_def split: writer.splits)
qed

lemma out_inv_internal: "conn_internal dec c c' \<Longrightarrow> life_inv c \<Longrightarrow> out_inv c \<Longrightarrow> out_inv c'"
proof (induction rule: conn_internal.induct)
  case (start tpl c c')
  from start.prems start.hyps show ?case by (rule out_inv_start)
next
  case (once c c')
  from once.prems(2) once.hyps(3,1) show ?case by (rule out_inv_once)
next
  case (stop i c c')
  from stop.hyps(2) stop.prems show ?case by (cases rule: stop_actionE) (simp_all add: out_inv_def cong: writer.case_cong)
next
  case (read c b now)
  then show ?case by (simp add: out_inv_def read_chunk_def touch_def split: prod.split cong: writer.case_cong)
next
  case (handoff c ms)
  then show ?case by (cases ms) (simp_all add: out_inv_def cong: writer.case_cong)
qed (simp_all add: out_inv_take out_inv_put out_inv_tally out_inv_put_error out_inv_exit, simp_all add: out_inv_def cong: writer.case_cong)

lemma out_inv_step: "conn_step dec pack c c' \<Longrightarrow> life_inv c \<Longrightarrow> out_inv c \<Longrightarrow> out_inv c'"
proof (induction rule: conn_step.induct)
  case (send_select k c sc r c')
  from send_select.hyps(2) have "out_inv c'"
    using send_select.prems by (cases rule: SendMsg_selectE) (simp_all add: out_inv_accept)
  then show ?case by (simp add: out_inv_def cong: writer.case_cong)
qed (simp_all add: out_inv_internal, simp_all add: out_inv_def conn_defs cong: writer.case_cong)

lemma conn_reachable_out: "conn_reachable dec pack cod c \<Longrightarrow> out_inv c"
proof (induction rule: conn_reachable.induct)
  case (new i wq wt counting now c)
  then show ?case by (drule_tac NewConnectionD) (simp add: out_inv_def new_conn_def touch_def make_chan_def chan_inv_def)
next
  case (step c c')
  have "life_inv c" using conn_reachable_inv [OF step.hyps(1)] by (simp add: conn_inv_def)
  then show ?case using out_inv_step [OF step.hyps(2)] step.IH by blast
qed

lemma out_inv_written: "out_inv c \<Longrightarrow> prefix (written c) (concat (map snd (accepted c)))"
  by (auto simp: out_inv_def prefix_def split: writer.splits)

end
