(* ===== verification/Kinz_Lifecycle.thy ===== *)
theory Kinz_Lifecycle
  imports Kinz_Connection
begin

text \<open>
  What the interleavings of \<^verbatim>\<open>Kinz_Connection\<close> guarantee: the cleanup runs once and cannot panic, after it no heartbeat
  loop is launched and the one there is can return, \<^verbatim>\<open>Stop\<close> waits for a started connection and terminates, the counters are exact, and messages
  are delivered in order in both directions over any codec that keeps the \<open>stream_codec\<close> contract.
\<close>

section \<open>Delivery over a codec\<close>

definition pack_inv :: "('c \<Rightarrow> Message \<Rightarrow> go_error + bytes) \<Rightarrow> 'c \<Rightarrow> ('c, 'v, 'e, 'f) Connection \<Rightarrow> bool" where
  "pack_inv pack cod c \<longleftrightarrow> list_all (\<lambda>(m, w). pack cod m = Inr w) (senders c) \<and> list_all (\<lambda>(m, w). pack cod m = Inr w) (accepted c)"

lemma list_all_without: "list_all P xs \<Longrightarrow> list_all P (take k xs @ drop (Suc k) xs)"
  by (auto simp: list_all_iff dest: in_set_takeD in_set_dropD)

lemma internal_frame:
  "conn_internal dec c c' \<Longrightarrow> senders c' = senders c \<and> accepted c' = accepted c \<and> writeTimeout c' = writeTimeout c"
proof (induction rule: conn_internal.induct)
  case (start tpl c c')
  then show ?case by (elim start_actionE) simp_all
next
  case (once c c')
  then show ?case by (elim once_actionE) simp_all
next
  case (stop i c c')
  from stop.hyps(2) show ?case by (cases rule: stop_actionE) simp_all
next
  case (handoff c ms)
  then show ?case by (cases ms) simp_all
qed (simp_all add: conn_defs split: prod.splits)

lemma internal_codec:
  assumes "conn_internal dec c c'"
  shows "codec c' = codec c \<or> (\<exists>b ms e. dec (codec c) b = (ms, e, codec c'))"
  using assms
proof (induction rule: conn_internal.induct)
  case (start tpl c c')
  then show ?case by (elim start_actionE) simp_all
next
  case (once c c')
  then show ?case by (elim once_actionE) simp_all
next
  case (stop i c c')
  from stop.hyps(2) show ?case by (cases rule: stop_actionE) simp_all
next
  case (handoff c ms)
  then show ?case by (cases ms) simp_all
next
  case (read c b now)
  obtain ms e cod where "dec (codec c) b = (ms, e, cod)" by (metis prod_cases3)
  then show ?case by (intro disjI2 exI [of _ b]) (simp add: read_chunk_def)
qed (simp_all add: conn_defs)

context stream_codec
begin

lemma conf_step: "conn_step dec pack c c' \<Longrightarrow> conf (codec c') = conf (codec c)"
proof (induction rule: conn_step.induct)
  case (internal c c')
  then show ?case using internal_codec [of dec c c'] dec_conf by metis
next
  case (send_select k c sc r c')
  from send_select.hyps(2) show ?case by (cases rule: SendMsg_selectE) (simp_all add: accept_wire_def Let_def)
qed (simp_all add: conn_defs)

lemma reachable_conf: "conn_reachable dec pack cod c \<Longrightarrow> conf (codec c) = conf cod"
proof (induction rule: conn_reachable.induct)
  case (new i wq wt counting now c)
  then show ?case by (drule_tac NewConnectionD) (simp add: new_conn_def touch_def)
qed (simp add: conf_step)

lemma pack_inv_step:
  assumes "conn_step dec pack c c'" and "pack_inv pack cod c" and "conf (codec c) = conf cod"
  shows "pack_inv pack cod c'"
  using assms
proof (induction rule: conn_step.induct)
  case (internal c c')
  then show ?case using internal_frame [OF internal.hyps] by (simp add: pack_inv_def)
next
  case (send_check i data c w)
  then have "pack cod (NewMessage i data) = Inr w"
    using pack_conf [of "codec c" cod] by (simp add: SendMsg_check_def split: if_splits)
  with send_check.prems show ?case by (simp add: pack_inv_def)
next
  case (send_select k c sc r c')
  then have mw: "(\<lambda>(m, w). pack cod m = Inr w) (senders c ! k)" by (simp add: pack_inv_def list_all_length)
  from send_select.hyps(2) show ?case
    by (cases rule: SendMsg_selectE)
      (use mw send_select.prems list_all_without in \<open>auto simp: pack_inv_def accept_wire_def Let_def\<close>)
next
  case (beat c h j tick now e h')
  have "pack (codec c) m = Inr w \<Longrightarrow> pack cod m = Inr w" for m w using pack_conf [OF beat.prems(2)] by simp
  with beat.prems(1) show ?case
    by (cases "(pack, e, c\<lparr>clone := Some h'\<rparr>)" rule: beat_call.cases)
      (auto simp: pack_inv_def stop_call_def SendMsg_check_def split: sum.split)
qed (simp_all add: pack_inv_def conn_defs)

lemma reachable_pack: "conn_reachable dec pack cod c \<Longrightarrow> pack_inv pack cod c"
proof (induction rule: conn_reachable.induct)
  case (new i wq wt counting now c)
  then show ?case by (drule_tac NewConnectionD) (simp add: pack_inv_def new_conn_def touch_def)
next
  case (step c c')
  show ?case by (rule pack_inv_step [OF step.hyps(2) step.IH reachable_conf [OF step.hyps(1)]])
qed

text \<open>A prefix of a well-formed stream decodes to a prefix of its messages.\<close>

lemma dec_prefix:
  assumes "dec c (b @ b') = (ms, None, c')"
  shows "\<exists>ms1 ms2 c1. dec c b = (ms1, None, c1) \<and> ms = ms1 @ ms2"
proof -
  obtain ms1 e c1 where d: "dec c b = (ms1, e, c1)" by (metis prod_cases3)
  show ?thesis
  proof (cases e)
    case None
    with d assms dec_append [of c b ms1 c1 b'] show ?thesis by (auto split: prod.splits)
  next
    case (Some er)
    with d assms dec_append_error [of c b ms1 er c1 b'] show ?thesis by auto
  qed
qed

lemma dec_wires_prefix:
  assumes "fresh p" and "\<And>m. m \<in> set msgs \<Longrightarrow> sendable (conf p) m" and "list_all2 (\<lambda>m w. pack p m = Inr w) msgs ws"
    and "prefix b (concat ws)"
  shows "\<exists>ms p'. dec p b = (ms, None, p') \<and> prefix ms (map (received (conf p)) msgs)"
proof -
  obtain p1 where "dec p (concat ws) = (map (received (conf p)) msgs, None, p1)"
    using dec_wires [OF assms(1-3)] by blast
  moreover obtain r where "concat ws = b @ r" using assms(4) by (auto simp: prefix_def)
  ultimately show ?thesis using dec_prefix [of p b r] by (metis prefixI)
qed

lemma feed_wires_prefix:
  assumes "fresh p" and "\<And>m. m \<in> set msgs \<Longrightarrow> sendable (conf p) m" and "list_all2 (\<lambda>m w. pack p m = Inr w) msgs ws"
    and "prefix (concat bs) (concat ws)"
  shows "\<exists>ms p'. feed dec p bs = (ms, None, p') \<and> prefix ms (map (received (conf p)) msgs) \<and>
    (concat bs = concat ws \<longrightarrow> ms = map (received (conf p)) msgs)"
proof (cases "bs = []")
  case True
  obtain p1 where d: "dec p (concat ws) = (map (received (conf p)) msgs, None, p1)" using dec_wires [OF assms(1-3)] by blast
  have "msgs = []" if "concat ws = []"
    using d dec_Nil [OF assms(1)] unfolding that by simp
  with True show ?thesis by (simp only: feed.simps) auto
next
  case False
  obtain ms e p' where f: "feed dec p bs = (ms, e, p')" by (metis prod_cases3)
  with feed_dec [OF False f] dec_wires_prefix [OF assms] dec_wires [OF assms(1-3)] show ?thesis by auto
qed

text \<open>
  Outbound: however a peer's codec gets the bytes written so far, it yields a prefix of the messages that \<^verbatim>\<open>SendMsg\<close>
  accepted, in order.
\<close>

lemma outbound:
  assumes "conn_reachable dec pack cod c" and "fresh p" and "conf p = conf cod"
    and "\<And>m. m \<in> set (map fst (accepted c)) \<Longrightarrow> sendable (conf cod) m" and "concat chunks = written c"
  shows "\<exists>ms p'. feed dec p chunks = (ms, None, p') \<and> prefix ms (map (received (conf cod)) (map fst (accepted c)))"
proof -
  have "list_all2 (\<lambda>m w. pack p m = Inr w) (map fst (accepted c)) (map snd (accepted c))"
    using reachable_pack [OF assms(1)] pack_conf [OF assms(3)]
    by (auto simp: pack_inv_def list_all2_map1 list_all2_map2 list_all_iff intro!: list_all2_refl list.rel_refl_strong)
  from feed_wires_prefix [OF assms(2) _ this] out_inv_written [OF conn_reachable_out [OF assms(1)]] assms(3-5)
  show ?thesis by (metis (no_types, lifting))
qed

text \<open>
  Inbound: if the peer's stream carries \<open>msgs\<close> and the transport delivers a prefix of it, in whatever chunks, the
  messages handed to the worker pool are a prefix of \<open>msgs\<close>, and all of them once everything has been read and handed on.
\<close>

lemma inbound:
  assumes "conn_reachable dec pack cod c" and "fresh cod"
    and "\<And>m. m \<in> set msgs \<Longrightarrow> sendable (conf cod) m" and "list_all2 (\<lambda>m w. pack cod m = Inr w) msgs ws"
    and "prefix (concat (rcvd c)) (concat ws)"
  shows "prefix (dispatched c) (map (received (conf cod)) msgs) \<and>
    (rd c = Reading \<and> concat (rcvd c) = concat ws \<longrightarrow> dispatched c = map (received (conf cod)) msgs)"
proof -
  obtain ms p' where f: "feed dec cod (rcvd c) = (ms, None, p')" "prefix ms (map (received (conf cod)) msgs)"
      "concat (rcvd c) = concat ws \<longrightarrow> ms = map (received (conf cod)) msgs"
    using feed_wires_prefix [OF assms(2-5)] by blast
  have "prefix (dispatched c) ms" and "rd c = Reading \<longrightarrow> dispatched c = ms"
    using conn_reachable_in [OF assms(1)] f(1) by (auto simp: in_inv_def split: reader.splits)
  with f(2,3) show ?thesis by auto
qed

text \<open>
  Two connections, each in any interleaving of its own: when the receiver has read a prefix of what the sender has
  written, in whatever chunks, it has handed on a prefix of what the sender accepted.
\<close>

lemma relay:
  assumes "conn_reachable dec pack cod a" and "conn_reachable dec pack cod' b" and "fresh cod'" and "conf cod' = conf cod"
    and "\<And>m. m \<in> set (map fst (accepted a)) \<Longrightarrow> sendable (conf cod) m" and "prefix (concat (rcvd b)) (written a)"
  shows "prefix (dispatched b) (map (received (conf cod)) (map fst (accepted a)))"
proof -
  have packed: "list_all2 (\<lambda>m w. pack cod' m = Inr w) (map fst (accepted a)) (map snd (accepted a))"
    using reachable_pack [OF assms(1)] pack_conf [OF assms(4)]
    by (auto simp: pack_inv_def list_all2_map1 list_all2_map2 list_all_iff intro!: list_all2_refl list.rel_refl_strong)
  have "prefix (concat (rcvd b)) (concat (map snd (accepted a)))"
    using assms(6) out_inv_written [OF conn_reachable_out [OF assms(1)]] by (rule prefix_order.trans)
  from inbound [OF assms(2,3) _ packed this] assms(5) show ?thesis unfolding assms(4) by blast
qed

end

section \<open>Shutdown terminates\<close>

fun reader_rank :: "reader \<Rightarrow> nat" where
  "reader_rank NoReader = 3" | "reader_rank Reading = 2" | "reader_rank (Dispatching ms) = 3 + length ms"
| "reader_rank ReaderClosing = 1" | "reader_rank ReaderExited = 0"

fun writer_rank :: "writer \<Rightarrow> nat" where
  "writer_rank NoWriter = 5" | "writer_rank (CountOut n) = 4" | "writer_rank Selecting = 3" | "writer_rank (Writing d) = 2"
| "writer_rank WriterClosing = 1" | "writer_rank WriterExited = 0"

fun stopper_rank :: "stopper \<Rightarrow> nat" where
  "stopper_rank (StopIn b) = 2" | "stopper_rank (StopWait b) = 1" | "stopper_rank (StopRet b w) = 0"

definition conn_rank :: "('c, 'v, 'e, 'f) Connection \<Rightarrow> nat" where
  "conn_rank c = (7 - spos (spc c)) + reader_rank (rd c) + writer_rank (wr c) + sum_list (map stopper_rank (stops c))"

text \<open>Nothing of the connection runs any more, and every call of \<^verbatim>\<open>Stop\<close> has returned.\<close>

definition quiescent :: "('c, 'v, 'e, 'f) Connection \<Rightarrow> bool" where
  "quiescent c \<longleftrightarrow> spc c \<in> {StartCas, StartReturned} \<and> rd c \<in> {NoReader, ReaderExited} \<and> wr c \<in> {NoWriter, WriterExited} \<and>
     list_all (\<lambda>s. stopper_rank s = 0) (stops c)"

lemma rank_stop:
  assumes "i < length xs" and "stopper_rank y < stopper_rank (xs ! i)"
  shows "sum_list (map stopper_rank (xs[i := y])) < sum_list (map stopper_rank xs)"
proof -
  have "stopper_rank (xs ! i) \<le> sum_list (map stopper_rank xs)"
    using assms(1) by (intro member_le_sum_list) simp_all
  then show ?thesis
    using assms sum_list_update [of i "map stopper_rank xs" "stopper_rank y"] by (simp add: map_update)
qed

lemma closed_rank:
  assumes "conn_internal dec c c'" and "conn_inv c" and "opc c = OnceDone"
  shows "conn_rank c' < conn_rank c"
  using assms
proof (induction rule: conn_internal.induct)
  case (start tpl c c')
  from start.hyps show ?case
    by (cases rule: start_actionE) (use start.prems in \<open>simp_all add: conn_rank_def conn_inv_def life_inv_def\<close>)
next
  case (read c b now)
  then show ?case by (simp add: conn_inv_def once_inv_def)
next
  case (put c d)
  then show ?case by (simp add: conn_inv_def once_inv_def)
next
  case (handoff c ms)
  then show ?case by (cases ms) (simp_all add: conn_rank_def)
next
  case (stop i c c')
  from stop.hyps(2) show ?case
  proof (cases rule: stop_actionE)
    case (stay b)
    with stop.hyps(1) rank_stop [of i "stops c" "StopWait b"] show ?thesis by (simp add: conn_rank_def)
  next
    case (leave b)
    with stop.hyps(1) rank_stop [of i "stops c" "StopRet b False"] show ?thesis by (simp add: conn_rank_def)
  next
    case (waited b)
    with stop.hyps(1) rank_stop [of i "stops c" "StopRet b True"] show ?thesis by (simp add: conn_rank_def)
  qed
qed (simp_all add: conn_rank_def write_failed_def count_written_def)

lemma start_enabled:
  assumes "spc c \<notin> {StartCas, StartReturned}"
  shows "\<exists>c'. conn_internal dec c c'"
proof -
  have "\<exists>c'. start_action None (spc c) c = Some c'" using assms by (cases "spc c") simp_all
  then show ?thesis by (blast intro: conn_internal.start)
qed

lemma closed_progress:
  assumes "conn_inv c" and "opc c = OnceDone" and "\<not> quiescent c"
  shows "\<exists>c'. conn_internal dec c c'"
proof (cases "spc c \<in> {StartCas, StartReturned} \<and> rd c \<in> {NoReader, ReaderExited} \<and> wr c \<in> {NoWriter, WriterExited}")
  case False
  have "\<exists>c'. conn_internal dec c c'" if "rd c \<notin> {NoReader, ReaderExited}"
    using that assms(2) by (cases "rd c") (auto intro: conn_internal.intros)
  moreover have "\<exists>c'. conn_internal dec c c'" if "wr c \<notin> {NoWriter, WriterExited}"
    using that assms(1,2) by (cases "wr c") (auto intro: conn_internal.intros simp: conn_inv_def once_inv_def)
  ultimately show ?thesis using False start_enabled [of c dec] by blast
next
  case True
  with assms(3) obtain i where i: "i < length (stops c)" "stopper_rank (stops c ! i) \<noteq> 0"
    by (auto simp: quiescent_def list_all_length)
  have "\<exists>c'. stop_action i (stops c ! i) c = Some c'"
  proof (cases "stops c ! i")
    case (StopWait b)
    then have "started c" using assms(1) i(1) by (auto simp: conn_inv_def list_all_length dest!: spec [of _ i])
    with True assms(1) have "cwg c = 0" by (auto simp: conn_inv_def life_inv_def)
    with StopWait show ?thesis by simp
  qed (use i assms(2) in simp_all)
  with i(1) show ?thesis by (blast intro: conn_internal.stop)
qed

lemma once_done_stays:
  assumes "conn_step dec pack c c'" and "opc c = OnceDone"
  shows "opc c' = OnceDone"
  using assms
proof (induction rule: conn_step.induct)
  case (internal c c')
  then show ?case
  proof (induction rule: conn_internal.induct)
    case (start tpl c c')
    then show ?case by (elim start_actionE) simp_all
  next
    case (stop i c c')
    from stop.hyps(2) stop.prems show ?case by (cases rule: stop_actionE) simp_all
  next
    case (handoff c ms)
    then show ?case by (cases ms) simp_all
  qed (simp_all add: conn_defs split: prod.splits)
next
  case (send_select k c sc r c')
  from send_select.hyps(2) send_select.prems show ?case by (cases rule: SendMsg_selectE) (simp_all add: accept_wire_def Let_def)
qed (simp_all add: conn_defs)

section \<open>What a step can change\<close>

lemma stops_beat_call: "stops (beat_call pack e c) = stops c \<or> beat_call pack e c = stop_call c"
  by (cases "(pack, e, c)" rule: beat_call.cases) (simp_all split: sum.split)

lemma conn_step_mono:
  assumes "conn_step dec pack c c'"
  shows "opos (opc c) \<le> opos (opc c') \<and> (Connection.metrics c' = None \<longleftrightarrow> Connection.metrics c = None) \<and> length (stops c) \<le> length (stops c')"
  using assms
proof (induction rule: conn_step.induct)
  case (internal c c')
  then show ?case
  proof (induction rule: conn_internal.induct)
    case (start tpl c c')
    then show ?case by (elim start_actionE) simp_all
  next
    case (once c c')
    from once.hyps(3,1) show ?case by (elim once_actionE) simp_all
  next
    case (stop i c c')
    from stop.hyps(2) show ?case by (cases rule: stop_actionE) simp_all
  next
    case (handoff c ms)
    then show ?case by (cases ms) simp_all
  qed (simp_all add: conn_defs split: prod.splits)
next
  case (send_select k c sc r c')
  from send_select.hyps(2) show ?case by (cases rule: SendMsg_selectE) (simp_all add: accept_wire_def Let_def)
next
  case (beat c h j tick now e h')
  then show ?case using stops_beat_call [of pack e "c\<lparr>clone := Some h'\<rparr>"] by (auto simp: stop_call_def)
qed (simp_all add: conn_defs)

text \<open>How many heartbeat loops have been launched; after the cleanup no step launches one.\<close>

definition hb_loops :: "('c, 'v, 'e, 'f) Connection \<Rightarrow> nat" where
  "hb_loops c = (case clone c of None \<Rightarrow> 0 | Some h \<Rightarrow> length (loops h))"

lemma loops_fixed:
  assumes "conn_step dec pack c c'" and "conn_inv c" and "opc c = OnceDone"
  shows "hb_loops c' = hb_loops c"
  using assms
proof (induction rule: conn_step.induct)
  case (internal c c')
  then show ?case
  proof (induction rule: conn_internal.induct)
    case (start tpl c c')
    from start.hyps start.prems show ?case
      by (elim start_actionE) (auto simp: hb_loops_def conn_inv_def life_inv_def checker_inv_def split: option.splits)
  next
    case (stop i c c')
    from stop.hyps(2) show ?case by (cases rule: stop_actionE) (simp_all add: hb_loops_def)
  next
    case (handoff c ms)
    then show ?case by (cases ms) (simp_all add: hb_loops_def)
  qed (simp_all add: hb_loops_def conn_defs split: prod.splits)
next
  case (send_select k c sc r c')
  from send_select.hyps(2) show ?case by (cases rule: SendMsg_selectE) (simp_all add: hb_loops_def accept_wire_def Let_def)
next
  case (beat c h j tick now e h')
  then show ?case using loop_step_frame [OF beat.hyps(3)] by (auto simp: hb_loops_def)
qed (simp_all add: hb_loops_def conn_defs)

text \<open>A connection whose cleanup is over and whose reader hands nothing on any more. A returned \<^verbatim>\<open>Stop\<close> leaves it so.\<close>

definition quiet :: "('c, 'v, 'e, 'f) Connection \<Rightarrow> bool" where
  "quiet c \<longleftrightarrow> opc c = OnceDone \<and> (\<forall>ms. rd c \<noteq> Dispatching ms)"

lemma quiet_step:
  assumes "conn_step dec pack c c'" and "conn_inv c" and "quiet c"
  shows "quiet c'"
proof -
  have closed: "sockClosed c" using assms(2,3) by (auto simp: conn_inv_def once_inv_def quiet_def)
  from assms(1,3) closed show ?thesis
  proof (induction rule: conn_step.induct)
    case (internal c c')
    then show ?case
    proof (induction rule: conn_internal.induct)
      case (start tpl c c')
      from start.hyps start.prems show ?case by (elim start_actionE) (simp_all add: quiet_def)
    next
      case (stop i c c')
      from stop.hyps(2) stop.prems show ?case by (cases rule: stop_actionE) (simp_all add: quiet_def)
    qed (simp_all add: quiet_def conn_defs)
  next
    case (send_select k c sc r c')
    from send_select.hyps(2) send_select.prems show ?case
      by (cases rule: SendMsg_selectE) (auto simp: quiet_def accept_wire_def Let_def)
  qed (simp_all add: quiet_def conn_defs)
qed

definition returned :: "('c, 'v, 'e, 'f) Connection \<Rightarrow> bool" where
  "returned c \<longleftrightarrow> (\<exists>b w. StopRet b w \<in> set (stops c))"

lemma returned_step:
  assumes "conn_step dec pack c c'" and "conn_inv c" and "returned c'"
  shows "returned c \<or> quiet c'"
  using assms
proof (induction rule: conn_step.induct)
  case (internal c c')
  then show ?case
  proof (induction rule: conn_internal.induct)
    case (start tpl c c')
    from start.hyps start.prems show ?case by (elim start_actionE) (simp_all add: returned_def)
  next
    case (once c c')
    from once.hyps(3,1) once.prems show ?case by (elim once_actionE) (simp_all add: returned_def)
  next
    case (stop i c c')
    have nth: "stops c ! i \<in> set (stops c)" using stop.hyps(1) by simp
    have inv: "stopper_inv c (stops c ! i)" "life_inv c"
      using stop.prems(1) nth by (auto simp: conn_inv_def list_all_iff)
    from stop.hyps(2) stop.prems inv show ?case
      by (cases rule: stop_actionE)
        (auto simp: returned_def quiet_def life_inv_def dest!: set_update_subset_insert [THEN subsetD] split: if_splits)
  next
    case (handoff c ms)
    then show ?case by (cases ms) (simp_all add: returned_def)
  qed (simp_all add: returned_def conn_defs split: prod.splits)
next
  case (send_select k c sc r c')
  from send_select.hyps(2) send_select.prems show ?case
    by (cases rule: SendMsg_selectE) (simp_all add: returned_def accept_wire_def Let_def split: if_splits)
next
  case (beat c h j tick now e h')
  then show ?case using stops_beat_call [of pack e "c\<lparr>clone := Some h'\<rparr>"] by (elim disjE) (auto simp: returned_def stop_call_def)
qed (auto simp: returned_def conn_defs)

lemma returned_quiet:
  assumes "conn_reachable dec pack cod c" and "returned c"
  shows "quiet c"
  using assms
proof (induction rule: conn_reachable.induct)
  case (new i wq wt counting now c)
  then show ?case by (auto simp: returned_def new_conn_def touch_def dest!: NewConnectionD)
next
  case (step c c')
  then show ?case using returned_step [OF step.hyps(2)] quiet_step [OF step.hyps(2)] conn_reachable_inv [OF step.hyps(1)] by blast
qed

section \<open>A scheduler for concrete runs\<close>

text \<open>Which goroutine moves next, and \<open>run_acts\<close>, which performs a schedule if every move is enabled.\<close>

datatype act =
    DoStart | DoOnce | CallStopAct | DoStop nat | ReadErr | ReadData bytes | HandOff | ReadExit
  | TakeWire | PutWire | CountWire | SeeDone | CheckSend u32 bytes | SelectSend nat | CountSend | DoBeat bool

fun run_act ::
  "act \<Rightarrow> (TLVPack, nat, nat, nat) Connection \<Rightarrow> (TLVPack, nat, nat, nat) Connection option" where
  "run_act DoStart c = start_action (Some (server_template (5 * Second) None)) (spc c) c"
| "run_act DoOnce c =
     (if opc c = OnceDone \<or> opc c = OnceIdle \<and> \<not> (rd c = ReaderClosing \<or> wr c = WriterClosing \<or> StopIn True \<in> set (stops c) \<or> StopIn False \<in> set (stops c))
      then None else case once_action (opc c) c of Ret c' \<Rightarrow> Some c' | Panic \<Rightarrow> None)"
| "run_act CallStopAct c = Some (stop_call c)"
| "run_act (DoStop i) c = (if i < length (stops c) then stop_action i (stops c ! i) c else None)"
| "run_act ReadErr c = (if rd c = Reading then Some (c\<lparr>rd := ReaderClosing\<rparr>) else None)"
| "run_act (ReadData b) c = (if rd c = Reading \<and> \<not> sockClosed c \<and> length b \<le> readChunkSize then Some (read_chunk Decode 7 b c) else None)"
| "run_act HandOff c = (case rd c of Dispatching ms \<Rightarrow> Some (dispatch_action ms c) | _ \<Rightarrow> None)"
| "run_act ReadExit c = (if rd c = ReaderClosing \<and> opc c = OnceDone then Some (c\<lparr>rd := ReaderExited, cwg := cwg c - 1\<rparr>) else None)"
| "run_act TakeWire c =
     (case chan_recv (msgChan c) of Some (d, ch) \<Rightarrow> if wr c = Selecting then Some (c\<lparr>msgChan := ch, wr := Writing d\<rparr>) else None | None \<Rightarrow> None)"
| "run_act PutWire c = (case wr c of Writing d \<Rightarrow> if sockClosed c then None else Some (write_ok d c) | _ \<Rightarrow> None)"
| "run_act CountWire c = (case wr c of CountOut n \<Rightarrow> Some (count_written n c) | _ \<Rightarrow> None)"
| "run_act SeeDone c = (if wr c = Selecting \<and> cdone c then Some (c\<lparr>wr := WriterExited, cwg := cwg c - 1\<rparr>) else None)"
| "run_act (CheckSend i data) c =
     (case SendMsg_check Pack i data c of Inr w \<Rightarrow> Some (c\<lparr>senders := senders c @ [(NewMessage i data, w)]\<rparr>) | Inl e \<Rightarrow> None)"
| "run_act (SelectSend k) c =
     (if k < length (senders c)
      then (case SendMsg_select CaseSend (senders c ! k) c of
              Some (r, c') \<Rightarrow> Some (c'\<lparr>senders := take k (senders c) @ drop (Suc k) (senders c)\<rparr>) | None \<Rightarrow> None)
      else None)"
| "run_act CountSend c = (if 0 < tallying c then Some (SendMsg_count c) else None)"
| "run_act (DoBeat tick) c =
     (case clone c of
        None \<Rightarrow> None
      | Some h \<Rightarrow>
          if loops h = [] then None
          else (case loop_step tick (\<lambda>_ tmo. IsAlive 7 tmo c) 0 h of
                  Some (e, h') \<Rightarrow> Some (beat_call Pack e (c\<lparr>clone := Some h'\<rparr>)) | None \<Rightarrow> None))"

fun run_acts ::
  "act list \<Rightarrow> (TLVPack, nat, nat, nat) Connection \<Rightarrow> (TLVPack, nat, nat, nat) Connection option" where
  "run_acts [] c = Some c"
| "run_acts (a # as) c = (case run_act a c of Some c' \<Rightarrow> run_acts as c' | None \<Rightarrow> None)"

lemma run_act_step: "run_act a c = Some c' \<Longrightarrow> conn_step Decode Pack c c'"
proof (induction a c rule: run_act.induct)
  case (2 c)
  then have "conn_internal Decode c c'"
    by (intro conn_internal.once) (auto simp: stop_wanted_def split: if_splits outcome.splits)
  then show ?case by (rule conn_step.internal)
next
  case (16 tick c)
  then obtain h e h' where "clone c = Some h" "0 < length (loops h)" "loop_step tick (\<lambda>_ tmo. IsAlive 7 tmo c) 0 h = Some (e, h')"
    and "c' = beat_call Pack e (c\<lparr>clone := Some h'\<rparr>)"
    by (auto split: if_splits option.splits)
  then show ?case using conn_step.beat by blast
next
  case (14 k c)
  then obtain r d where "k < length (senders c)" "SendMsg_select CaseSend (senders c ! k) c = Some (r, d)"
    and "c' = d\<lparr>senders := take k (senders c) @ drop (Suc k) (senders c)\<rparr>"
    by (auto simp del: SendMsg_select.simps split: if_splits option.splits)
  then show ?case using conn_step.send_select by blast
next
  case (9 c)
  then obtain d ch where "chan_recv (msgChan c) = Some (d, ch)" "wr c = Selecting" "c' = c\<lparr>msgChan := ch, wr := Writing d\<rparr>"
    by (auto split: if_splits option.splits)
  then show ?case by (auto intro: conn_step.internal conn_internal.take)
qed (auto simp del: One_nat_def beat_call.simps intro: conn_step.intros conn_internal.intros
    split: if_splits option.splits sum.splits reader.splits writer.splits)

lemma run_acts_reachable: "run_acts as c = Some c' \<Longrightarrow> conn_reachable Decode Pack cod c \<Longrightarrow> conn_reachable Decode Pack cod c'"
proof (induction as arbitrary: c)
  case (Cons a as)
  then obtain d where "run_act a c = Some d" "run_acts as d = Some c'" by (auto split: option.splits)
  with Cons show ?case using conn_reachable.step [OF Cons.prems(2) run_act_step] by blast
qed simp

definition demo_conn :: "(TLVPack, nat, nat, nat) Connection" where
  "demo_conn = touch 5 (new_conn 1 NewTLVPack 4 0 True)"

lemma demo_conn_reachable: "run_acts as demo_conn = Some c \<Longrightarrow> conn_reachable Decode Pack NewTLVPack c"
proof (erule run_acts_reachable)
  show "conn_reachable Decode Pack NewTLVPack demo_conn"
    by (rule conn_reachable.new [where i = 1 and wq = 4 and wt = 0 and counting = True and now = 5])
      (simp add: NewConnection_def demo_conn_def)
qed

abbreviation full_start :: "act list" where
  "full_start \<equiv> [DoStart, DoStart, DoStart, DoStart, DoStart, DoStart, DoStart]"

abbreviation full_once :: "act list" where
  "full_once \<equiv> [DoOnce, DoOnce, DoOnce, DoOnce, DoOnce, DoOnce, DoOnce, DoOnce, DoOnce, DoOnce]"

text \<open>A started connection is stopped from outside; the reader and the writer leave, and \<^verbatim>\<open>Stop\<close> returns.\<close>

definition orderly :: "act list" where
  "orderly = full_start @ [CallStopAct] @ full_once @ [DoStop 0, ReadErr, ReadExit, SeeDone, DoStop 0]"

text \<open>\<^verbatim>\<open>Stop\<close> runs between the compare-and-swap of \<^verbatim>\<open>Start\<close> and the launch of the goroutines.\<close>

definition overtaken :: "act list" where
  "overtaken = [DoStart, CallStopAct] @ full_once @ [DoStop 0, DoStart, DoStart, DoStart, DoStart, DoStart, DoStart]"

lemmas run_defs = demo_conn_def new_conn_def touch_def stop_call_def hb_BindConn_def hb_Clone_def server_template_def
  apply_option_def hb_SetMetrics_def NewHeartbeatChecker_def hb_Start_def hb_Stop_def no_counts_def count_down_def count_closed_def

lemmas send_defs = SendMsg_check_def Pack_def NewMessage_def NewTLVPack_def NewTLVPackWithOrder_def can_accept_def
  accept_wire_def make_chan_def chan_ready_def chan_send_def chan_recv_def contents_def write_ok_def count_written_def count_out_def SendMsg_count_def count_sent_def

lemma orderly_run:
  "\<exists>c. run_acts orderly demo_conn = Some c \<and> stops c = [StopRet True True] \<and> opc c = OnceDone \<and> hooks c = [OnConnStart, OnConnStop] \<and>
     rd c = ReaderExited \<and> wr c = WriterExited \<and> map_option hstarted (clone c) = Some False"
  by (simp add: orderly_def run_defs Let_def)

lemma overtaken_run:
  "\<exists>c. run_acts overtaken demo_conn = Some c \<and> stops c = [StopRet False False] \<and> hooks c = [OnConnStop, OnConnStart] \<and>
     rd c = Reading \<and> wr c = Selecting"
  by (simp add: overtaken_def run_defs Let_def)

section \<open>Properties\<close>

text \<open>
  C8: the cleanup runs once. In every interleaving of \<^verbatim>\<open>Start\<close>, \<^verbatim>\<open>Stop\<close>, the reader, the writer and the senders, the
  cleanup never panics (the done channel is not closed twice, the checker is there when it is stopped), the stop hook,
  the counters and the removal from the manager happen at most once, and when the cleanup is done each has happened
  exactly once, with the socket and the done channel closed.
\<close>

theorem close_exactly_once:
  assumes "conn_reachable dec pack cod c"
  shows "once_action (opc c) c \<noteq> Panic \<and> count_list (hooks c) OnConnStop \<le> 1 \<and> removals c \<le> 1 \<and>
         (\<forall>m. metrics c = Some m \<longrightarrow> closed m \<le> 1 \<and> active m = - int (closed m) - of_bool (opc c = CountClosed)) \<and>
         (if opc c = OnceDone
          then count_list (hooks c) OnConnStop = 1 \<and> removals c = 1 \<and> sockClosed c \<and> cdone c \<and> cstate c = stateClosed \<and>
               (\<forall>m. metrics c = Some m \<longrightarrow> closed m = 1 \<and> active m = - 1)
          else removals c = 0)"
proof -
  have inv: "conn_inv c" using assms by (rule conn_reachable_inv)
  then have "once_inv c" "life_inv c" "metrics_inv c" by (simp_all add: conn_inv_def)
  moreover have "7 \<le> opos (opc c) \<or> opc c = CountClosed \<longleftrightarrow> 6 \<le> opos (opc c)" by (cases "opc c") simp_all
  ultimately show ?thesis using once_never_panics [OF inv]
    by (auto simp: once_inv_def life_inv_def metrics_inv_def split: option.splits)
qed

theorem close_exactly_once_witness:
  "\<exists>c. run_acts orderly demo_conn = Some c \<and> count_list (hooks c) OnConnStop = 1 \<and> removals c = 1 \<and> sockClosed c"
proof -
  obtain c where c: "run_acts orderly demo_conn = Some c" "opc c = OnceDone" using orderly_run by blast
  with close_exactly_once [OF demo_conn_reachable [OF c(1)]] show ?thesis by simp
qed

text \<open>
  C19: no heartbeat leak. Once the cleanup is done, and whatever happens later, in particular when \<^verbatim>\<open>Start\<close> was
  overtaken by \<^verbatim>\<open>Stop\<close> between cloning the template and starting the checker: no heartbeat loop is launched any more, and there
  is at most one; that loop, wherever it is, can always go on until it has returned, since the channel for which it waits is
  closed, and every step that is not the choice of a tick brings it nearer to its return; and as soon as \<^verbatim>\<open>Start\<close> has left
  its critical section the connection holds no checker either.
\<close>

theorem no_heartbeat_leak:
  assumes "conn_reachable dec pack cod c" and "opc c = OnceDone" and "(conn_step dec pack)\<^sup>*\<^sup>* c c'"
  shows "hb_loops c' = hb_loops c \<and> hb_loops c' \<le> 1 \<and> (spc c' \<noteq> StartHb \<longrightarrow> \<not> hb c') \<and>
         (\<forall>h j alive. clone c' = Some h \<and> j < length (loops h) \<and> loops h ! j \<noteq> LoopDone \<longrightarrow>
            (\<exists>e h'. loop_step False alive j h = Some (e, h') \<and> loop_rank (loops h' ! j) < loop_rank (loops h ! j)))"
proof -
  from assms(3) have "conn_reachable dec pack cod c' \<and> opc c' = OnceDone \<and> hb_loops c' = hb_loops c"
  proof (induction rule: rtranclp_induct)
    case (step d e)
    then show ?case
      using conn_reachable.step [OF _ step.hyps(2)] once_done_stays [OF step.hyps(2)] loops_fixed [OF step.hyps(2)]
        conn_reachable_inv [of dec pack cod d] by auto
  qed (use assms in simp)
  then have inv: "conn_inv c'" "opc c' = OnceDone" "hb_loops c' = hb_loops c" using conn_reachable_inv [of dec pack cod c'] by simp_all
  then have h: "hb_inv h \<and> \<not> hstarted h \<and> length (loops h) \<le> 1" if "clone c' = Some h" for h
    using that by (cases "3 \<le> spos (spc c')") (auto simp: conn_inv_def checker_inv_def)
  moreover have "spc c' \<noteq> StartHb \<longrightarrow> \<not> hb c'" using inv(1,2) by (auto simp: conn_inv_def checker_inv_def split: option.splits)
  moreover have "hb_loops c' \<le> 1" using h by (simp add: hb_loops_def split: option.split)
  ultimately show ?thesis using inv(3) stopped_loop by blast
qed

text \<open>The loop is about to beat when the connection is stopped; it still makes its call, reads the closed channel and returns.\<close>

definition beaten :: "act list" where
  "beaten = full_start @ [DoBeat False, DoBeat True, DoBeat False, CallStopAct] @ full_once @ [DoBeat False, DoBeat False, DoBeat False]"

theorem no_heartbeat_leak_witness:
  "\<exists>c c' h e h'. run_acts beaten demo_conn = Some c \<and> clone c = Some h \<and> loops h = [LoopSelect (Some 0)] \<and>
     loop_step False (\<lambda>_ _. True) 0 h = Some (e, h') \<and> loops h' ! 0 = LoopDone"
proof -
  obtain c h where c: "run_acts beaten demo_conn = Some c" "opc c = OnceDone" "clone c = Some h" "loops h = [LoopSelect (Some 0)]"
    by (simp add: beaten_def run_defs Let_def loop_step_def hb_check_def IsAlive_def time_sub_def SendHeartBeatMsg_def SendMsg_check_def
        Second_def wrap64_def)
  have r: "conn_reachable Decode Pack NewTLVPack c" using c(1) by (rule demo_conn_reachable)
  have "loop_rank l = 0 \<Longrightarrow> l = LoopDone" for l :: "nat hb_loop" by (cases l) simp_all
  then have "\<exists>e h'. loop_step False (\<lambda>_ _. True) 0 h = Some (e, h') \<and> loops h' ! 0 = LoopDone"
    using no_heartbeat_leak [OF r c(2) rtranclp.rtrancl_refl] c(3,4) by fastforce
  with c show ?thesis by blast
qed

text \<open>
  C18: \<^verbatim>\<open>Stop\<close> waits. A call of \<^verbatim>\<open>Stop\<close> on a connection that had been started returns only when the cleanup is done and
  the reader and the writer have exited; and a call that returned without waiting was made before \<^verbatim>\<open>Start\<close> had marked
  the connection as started.
\<close>

theorem stop_waits:
  assumes "conn_reachable dec pack cod c" and "StopRet before waited \<in> set (stops c)"
  shows "opc c = OnceDone \<and> (before \<longrightarrow> waited) \<and> (waited \<longrightarrow> rd c = ReaderExited \<and> wr c = WriterExited)"
proof -
  have inv: "conn_inv c" using assms(1) by (rule conn_reachable_inv)
  then have "stopper_inv c (StopRet before waited)" using assms(2) by (auto simp: conn_inv_def list_all_iff)
  moreover have "cwg c = 0 \<Longrightarrow> rd c = ReaderExited \<and> wr c = WriterExited"
    using inv by (auto simp: conn_inv_def life_inv_def split: if_splits)
  ultimately show ?thesis by simp
qed

theorem stop_waits_witness:
  "\<exists>c. run_acts orderly demo_conn = Some c \<and> stops c = [StopRet True True] \<and> rd c = ReaderExited \<and> wr c = WriterExited"
proof -
  obtain c where c: "run_acts orderly demo_conn = Some c" "stops c = [StopRet True True]" using orderly_run by blast
  with stop_waits [OF demo_conn_reachable [OF c(1)], of True True] show ?thesis by simp
qed

text \<open>
  C20: a connection that is shut down comes to rest. Once the cleanup is done, every step of the connection's own
  goroutines and of the waiting \<^verbatim>\<open>Stop\<close> calls decreases a measure, and unless everything has returned some such step is
  possible: \<^verbatim>\<open>Stop\<close> terminates in every fair schedule in which the worker pool accepts what the reader still has in hand.
\<close>

theorem shutdown_terminates:
  assumes "conn_reachable dec pack cod c" and "opc c = OnceDone"
  shows "(\<forall>c'. conn_internal dec c c' \<longrightarrow> conn_rank c' < conn_rank c \<and> opc c' = OnceDone) \<and>
         (quiescent c \<or> (\<exists>c'. conn_internal dec c c'))"
  using closed_rank closed_progress conn_reachable_inv [OF assms(1)] assms(2) once_done_stays conn_step.internal by metis

theorem shutdown_terminates_witness:
  "\<exists>c c'. run_acts ([CallStopAct] @ full_once) demo_conn = Some c \<and> conn_internal Decode c c' \<and> conn_rank c' < conn_rank c"
proof -
  obtain c where c: "run_acts ([CallStopAct] @ full_once) demo_conn = Some c" "opc c = OnceDone" "stops c = [StopIn False]"
    by (simp add: run_defs)
  then have "\<not> quiescent c" by (simp add: quiescent_def)
  with shutdown_terminates [OF demo_conn_reachable [OF c(1)] c(2)] c(1) show ?thesis by blast
qed

text \<open>
  \<^verbatim>\<open>Stop\<close> can overtake \<^verbatim>\<open>Start\<close>. When \<^verbatim>\<open>Stop\<close> runs after the compare-and-swap of \<^verbatim>\<open>Start\<close> and before the goroutines
  are launched, it returns without waiting; \<^verbatim>\<open>Start\<close> then still launches the reader and the writer and calls the
  start hook of the already closed connection, after its stop hook.
\<close>

theorem stop_overtakes_start:
  "\<exists>c :: (TLVPack, nat, nat, nat) Connection. conn_reachable Decode Pack NewTLVPack c \<and> hooks c = [OnConnStop, OnConnStart] \<and>
     stops c = [StopRet False False] \<and> rd c = Reading \<and> wr c = Selecting"
  using overtaken_run demo_conn_reachable by blast

text \<open>
  C9: outbound delivery. In every interleaving, whatever the chunks in which the bytes written so far reach a peer whose
  codec is a clone of the same configuration, the peer decodes, without an error, a prefix of the messages that
  \<^verbatim>\<open>SendMsg\<close> accepted, in the order of acceptance.
\<close>

theorem outbound_delivery:
  assumes "conn_reachable Decode Pack cod c" and "\<forall>(m, w) \<in> set (accepted c). tlv_sendable (tlv_conf cod) m"
    and "concat chunks = written c"
  shows "\<exists>ms p'. feed Decode (Clone cod) chunks = (ms, None, p') \<and>
           prefix ms (map (tlv_received (tlv_conf cod)) (map fst (accepted c)))"
  by (rule tlv.outbound [OF assms(1) tlv.fresh_clone tlv.conf_clone _ assms(3)]) (use assms(2) in auto)

theorem outbound_delivery_witness:
  "\<exists>c ms p'. run_acts (full_start @ [CheckSend 1 [104, 105], SelectSend 0, TakeWire, PutWire]) demo_conn = Some c \<and>
     feed Decode (Clone NewTLVPack) [[2, 0, 0], [0, 1, 0, 0, 0, 104, 105]] = (ms, None, p') \<and>
     prefix ms (map (tlv_received (tlv_conf NewTLVPack)) [NewMessage 1 [104, 105]])"
proof -
  obtain c where c: "run_acts (full_start @ [CheckSend 1 [104, 105], SelectSend 0, TakeWire, PutWire]) demo_conn = Some c"
    "accepted c = [(NewMessage 1 [104, 105], [2, 0, 0, 0, 1, 0, 0, 0, 104, 105])]" "written c = [2, 0, 0, 0, 1, 0, 0, 0, 104, 105]"
    by (simp add: run_defs Let_def send_defs)
  have "\<forall>(m, w) \<in> set (accepted c). tlv_sendable (tlv_conf NewTLVPack) m"
    by (simp add: c(2) tlv_conf_def NewMessage_def NewTLVPack_def NewTLVPackWithOrder_def defaultMaxPacketSize_def)
  with outbound_delivery [OF demo_conn_reachable [OF c(1)], of "[[2, 0, 0], [0, 1, 0, 0, 0, 104, 105]]"] c show ?thesis by simp
qed

text \<open>
  C10: inbound delivery. If the peer's stream carries the packed messages \<open>msgs\<close> and the transport delivers a prefix of
  it in any chunks, the messages the reader hands to the worker pool are a prefix of \<open>msgs\<close>, in order, and all of them
  once the whole stream has been read and handed on.
\<close>

theorem inbound_delivery:
  assumes "conn_reachable Decode Pack (Clone s) c" and "\<forall>m \<in> set msgs. tlv_sendable (tlv_conf s) m"
    and "list_all2 (\<lambda>m w. Pack s m = Inr w) msgs ws" and "prefix (concat (rcvd c)) (concat ws)"
  shows "prefix (dispatched c) (map (tlv_received (tlv_conf s)) msgs) \<and>
         (rd c = Reading \<and> concat (rcvd c) = concat ws \<longrightarrow> dispatched c = map (tlv_received (tlv_conf s)) msgs)"
proof -
  have "list_all2 (\<lambda>m w. Pack (Clone s) m = Inr w) msgs ws"
    using assms(3) tlv.pack_conf [OF tlv.conf_clone, of s] by simp
  from tlv.inbound [OF assms(1) tlv.fresh_clone _ this assms(4)] assms(2) show ?thesis
    by (simp add: tlv.conf_clone)
qed

theorem inbound_delivery_witness:
  "\<exists>c. run_acts (full_start @ [ReadData [0, 0, 0, 0, 7, 0, 0], HandOff, ReadData [0], HandOff, HandOff]) demo_conn = Some c \<and>
     dispatched c = map (tlv_received (tlv_conf NewTLVPack)) [NewMessage 7 []]"
proof -
  obtain c where c: "run_acts (full_start @ [ReadData [0, 0, 0, 0, 7, 0, 0], HandOff, ReadData [0], HandOff, HandOff]) demo_conn = Some c"
    "rcvd c = [[0, 0, 0, 0, 7, 0, 0], [0]]" "rd c = Reading"
    by (simp add: run_defs Let_def read_chunk_def readChunkSize_def Decode_def decode_loop.simps NewTLVPack_def
        NewTLVPackWithOrder_def defaultMaxPacketSize_def)
  have "Clone NewTLVPack = NewTLVPack" by (simp add: Clone_def NewTLVPack_def NewTLVPackWithOrder_def)
  with demo_conn_reachable [OF c(1)] have "conn_reachable Decode Pack (Clone NewTLVPack) c" by simp
  from inbound_delivery [OF this, of "[NewMessage 7 []]" "[[0, 0, 0, 0, 7, 0, 0, 0]]"] c show ?thesis
    by (simp add: tlv_conf_def NewMessage_def Pack_def NewTLVPack_def NewTLVPackWithOrder_def)
qed

text \<open>
  C21: exact counters. In every interleaving the connection's counters agree with what happened: bytes in with the chunks
  read, messages received with those handed to the pool, messages sent with those accepted, of which the calls of \<^verbatim>\<open>SendMsg\<close> that
  are about to count are missing, and bytes out with the bytes written, of which the write that is about to be counted is
  missing and the part of a write that failed may be. So when no call and no write is about to count, they are exact.
\<close>

theorem counters_exact:
  assumes "conn_reachable dec pack cod c" and "metrics c = Some m"
  shows "bytesIn m = length (concat (rcvd c)) \<and> msgsRecv m = length (dispatched c) \<and> msgsSent m + tallying c = length (accepted c) \<and>
         bytesOut m + uncounted (wr c) \<le> length (written c) \<and>
         (wr c \<notin> {WriterClosing, WriterExited} \<longrightarrow> bytesOut m + uncounted (wr c) = length (written c))"
  using conn_reachable_inv [OF assms(1)] assms(2) by (auto simp: conn_inv_def metrics_inv_def)

theorem counters_exact_witness:
  "\<exists>c m. run_acts (full_start @ [CheckSend 1 [104, 105], SelectSend 0, TakeWire, PutWire, CountWire, CountSend]) demo_conn = Some c \<and>
     metrics c = Some m \<and> msgsSent m = 1 \<and> bytesOut m = 10"
proof -
  obtain c m where c: "run_acts (full_start @ [CheckSend 1 [104, 105], SelectSend 0, TakeWire, PutWire, CountWire, CountSend]) demo_conn = Some c"
    "length (accepted c) = 1" "length (written c) = 10" "metrics c = Some m" "wr c = Selecting" "tallying c = 0"
    by (simp add: run_defs Let_def send_defs)
  with counters_exact [OF demo_conn_reachable [OF c(1)] c(4)] show ?thesis by simp
qed

text \<open>
  C22: dead peers are found in time. Let a checker with a positive interval tick every interval from time \<open>t0\<close> on, and
  let the last data of the connection have arrived at \<open>seen\<close>. A tick reports the peer as dead exactly when more than the
  timeout has passed since; a peer that stays silent is reported by some tick at most one interval after its timeout has
  passed (or at \<open>t0\<close> if that is later).
\<close>

theorem dead_peer_detected:
  assumes "0 < interval h" and "0 < timeout h" and "hconn h = Some i" and "lastActivity c = seen" and "0 < seen"
    and "seen + timeout h + interval h < 2 ^ 63" and "t0 \<le> seen + timeout h"
  defines "report \<equiv> \<lambda>t. fst (hb_check (\<lambda>_ tmo. IsAlive t tmo c) h) = Some (CallNotAlive (onRemoteNotAlive h) i)"
  shows "(\<forall>t < 2 ^ 63. report t \<longleftrightarrow> seen + timeout h < t) \<and>
         (\<exists>n. let t = t0 + int n * interval h in report t \<and> seen + timeout h < t \<and> t \<le> seen + timeout h + interval h)"
proof -
  have alive: "IsAlive t (timeout h) c \<longleftrightarrow> t \<le> seen + timeout h" if "t < 2 ^ 63" for t
    using that assms(2,4-6) by (auto simp: IsAlive_def time_sub_def min_def max_def)
  have report: "report t \<longleftrightarrow> seen + timeout h < t" if "t < 2 ^ 63" for t
    using alive [OF that] assms(3) by (auto simp: report_def hb_check_def SendHeartBeatMsg_def split: option.splits)
  define q r where "q = (seen + timeout h - t0) div interval h" and "r = (seen + timeout h - t0) mod interval h"
  have qr: "interval h * q + r = seen + timeout h - t0" "0 \<le> r" "r < interval h" "0 \<le> q"
    using assms(1,7) by (simp_all add: q_def r_def pos_imp_zdiv_nonneg_iff)
  define n where "n = nat (q + 1)"
  have "int n * interval h = interval h * q + interval h" using qr(4) by (simp add: n_def algebra_simps)
  with qr have t: "seen + timeout h < t0 + int n * interval h" "t0 + int n * interval h \<le> seen + timeout h + interval h"
    by linarith+
  then have "report (t0 + int n * interval h)" using report assms(6) by simp
  with t report show ?thesis by (auto simp: Let_def)
qed

theorem dead_peer_detected_witness:
  "let h = hb_BindConn 1 (hb_Clone (server_template Second None)) :: (nat, nat, nat) HeartBeatChecker in
   \<exists>n. fst (hb_check (\<lambda>_ tmo. IsAlive (0 + int n * Second) tmo demo_conn) h) = Some (CallNotAlive NotAliveDefault 1)"
proof -
  let ?h = "hb_BindConn 1 (hb_Clone (server_template Second None)) :: (nat, nat, nat) HeartBeatChecker"
  have h: "interval ?h = Second" "timeout ?h = 3 * Second" "hconn ?h = Some 1" "onRemoteNotAlive ?h = NotAliveDefault"
    by (simp_all add: run_defs Let_def Second_def wrap64_def)
  have "lastActivity demo_conn = 5" by (simp add: demo_conn_def touch_def)
  with dead_peer_detected [of ?h 1 demo_conn 5 0] h show ?thesis by (auto simp: Second_def Let_def)
qed

end
