(* ===== verification/Kinz_Workers.thy ===== *)
theory Kinz_Workers
  imports Kinz_Router
begin

text \<open>
  The worker pool of \<^verbatim>\<open>MsgHandler\<close> (\<^verbatim>\<open>src/knet/msgHandler.go\<close>): starting and stopping the pool, routing a request
  to a worker by its connection id, and the worker goroutines. The goroutines interleave freely, so the pool is a
  step relation; the steps are the atomic actions of the source (a read under the lock, a channel operation, one
  \<^verbatim>\<open>Execute\<close>).
\<close>

section \<open>Operations\<close>

definition StartWorkerPool :: "('v, 'e) MsgHandler \<Rightarrow> ('v, 'e) MsgHandler" where
  "StartWorkerPool mh =
     (if workerCtx mh \<noteq> None \<or> workerPoolSize mh = 0 then mh
      else mh\<lparr>workerCtx := Some False, workerCancel := True,
              taskQueue := replicate (unat (workerPoolSize mh)) (make_chan (unat (maxWorkerTaskLen mh))),
              workerWG := workerWG mh + unat (workerPoolSize mh)\<rparr>)"

text \<open>
  \<^verbatim>\<open>StopWorkerPool\<close>: take the cancel function and call it; \<open>stop_returns\<close> is the condition under which the final
  \<^verbatim>\<open>select\<close> lets the caller go, all workers gone or the caller's context done.
\<close>

definition StopWorkerPool :: "('v, 'e) MsgHandler \<Rightarrow> ('v, 'e) MsgHandler" where
  "StopWorkerPool mh =
     (if \<not> workerCancel mh then mh else mh\<lparr>workerCancel := False, workerCtx := Some True\<rparr>)"

definition stop_returns :: "bool \<Rightarrow> ('v, 'e) MsgHandler \<Rightarrow> bool" where
  "stop_returns ctx_done mh \<longleftrightarrow> workerWG mh = 0 \<or> ctx_done"

text \<open>Where \<^verbatim>\<open>SendMsgToTaskQueue\<close> sends a request: a fresh goroutine or a worker.\<close>

datatype dispatch = GoExecute | ToWorker nat

definition home :: "u32 \<Rightarrow> u64 \<Rightarrow> nat" where
  "home ps c = unat (c mod ucast ps)"

definition pick_worker :: "('v, 'e) MsgHandler \<Rightarrow> u64 \<Rightarrow> dispatch" where
  "pick_worker mh c =
     (if \<not> workerCancel mh \<or> workerPoolSize mh = 0 \<or> taskQueue mh = [] then GoExecute
      else ToWorker (home (workerPoolSize mh) c))"

text \<open>
  The send. With metrics a non-blocking attempt comes first; it succeeds when the buffer has room or a worker waits
  to receive (\<open>waiting\<close>), otherwise the full queue is counted; the blocking send follows either way.
\<close>

definition enqueue :: "bool \<Rightarrow> nat \<Rightarrow> ('v, 'e) Request \<Rightarrow> ('v, 'e) MsgHandler \<Rightarrow> ('v, 'e) MsgHandler" where
  "enqueue waiting i r mh =
     (let q = taskQueue mh ! i;
          full = (\<not> chan_ready q \<and> \<not> waiting)
      in mh\<lparr>taskQueue := (taskQueue mh)[i := chan_send r q],
            metrics := (if full then map_option (\<lambda>m. m\<lparr>queueFull := queueFull m + 1\<rparr>) (metrics mh) else metrics mh)\<rparr>)"

section \<open>The pool as a transition system\<close>

text \<open>
  A worker serves requests, drains its queue after the context is cancelled, or has returned.
\<close>

datatype worker = Serving | Draining | Exited

text \<open>
  \<open>pending\<close>: callers of \<^verbatim>\<open>SendMsgToTaskQueue\<close> that have read the pool state and picked a worker but not sent yet.
  \<open>loose\<close>: requests handed to goroutines of their own. The last three fields record history: the requests routed to
  the pool in the order of the calls, and per worker what was sent to it and what it executed.
\<close>

record ('v, 'e) pool =
  mh :: "('v, 'e) MsgHandler"
  workers :: "worker list"
  pending :: "(nat \<times> ('v, 'e) Request) list"
  loose :: "('v, 'e) Request list"
  submitted :: "('v, 'e) Request list"
  sent :: "('v, 'e) Request list list"
  executed :: "('v, 'e) Request list list"

definition init_pool :: "('v, 'e) MsgHandler \<Rightarrow> ('v, 'e) pool" where
  "init_pool m = \<lparr>mh = m, workers = [], pending = [], loose = [], submitted = [], sent = [], executed = []\<rparr>"

definition start_pool :: "('v, 'e) pool \<Rightarrow> ('v, 'e) pool" where
  "start_pool s =
     (if workerCtx (mh s) \<noteq> None \<or> workerPoolSize (mh s) = 0 then s
      else let n = unat (workerPoolSize (mh s))
           in s\<lparr>mh := StartWorkerPool (mh s), workers := replicate n Serving,
                sent := replicate n [], executed := replicate n []\<rparr>)"

definition check_send :: "('v, 'e) Request \<Rightarrow> ('v, 'e) pool \<Rightarrow> ('v, 'e) pool" where
  "check_send r s =
     (case pick_worker (mh s) (conn r) of
        GoExecute \<Rightarrow> s\<lparr>loose := loose s @ [r]\<rparr>
      | ToWorker i \<Rightarrow> s\<lparr>pending := pending s @ [(i, r)], submitted := submitted s @ [r]\<rparr>)"

definition commit_send :: "bool \<Rightarrow> nat \<Rightarrow> ('v, 'e) Request \<Rightarrow> ('v, 'e) pool \<Rightarrow> ('v, 'e) pool" where
  "commit_send waiting i r s =
     s\<lparr>mh := enqueue waiting i r (mh s), pending := remove1 (i, r) (pending s),
       sent := (sent s)[i := sent s ! i @ [r]]\<rparr>"

text \<open>
  One step of worker goroutine \<open>i\<close>: take a request from its channel and execute it (either \<^verbatim>\<open>select\<close> of the source),
  notice the cancelled context, or find the channel empty while draining and return.
\<close>

inductive worker_step :: "nat \<Rightarrow> ('v, 'e) pool \<Rightarrow> ('v, 'e) pool \<Rightarrow> bool" where
  work: "i < length (workers s) \<Longrightarrow> workers s ! i \<noteq> Exited \<Longrightarrow>
     chan_recv (taskQueue (mh s) ! i) = Some (r, q) \<Longrightarrow>
     Execute ans fuel ((mh s)\<lparr>taskQueue := (taskQueue (mh s))[i := q]\<rparr>) r = Some (Ret (mh', r', tr)) \<Longrightarrow>
     worker_step i s (s\<lparr>mh := mh', executed := (executed s)[i := executed s ! i @ [r]]\<rparr>)"
| observe: "i < length (workers s) \<Longrightarrow> workers s ! i = Serving \<Longrightarrow> workerCtx (mh s) = Some True \<Longrightarrow>
     worker_step i s (s\<lparr>workers := (workers s)[i := Draining]\<rparr>)"
| exit: "i < length (workers s) \<Longrightarrow> workers s ! i = Draining \<Longrightarrow>
     chan_recv (taskQueue (mh s) ! i) = None \<Longrightarrow>
     worker_step i s (s\<lparr>workers := (workers s)[i := Exited], mh := (mh s)\<lparr>workerWG := workerWG (mh s) - 1\<rparr>\<rparr>)"

text \<open>
  The whole pool. A connection's reader calls \<^verbatim>\<open>SendMsgToTaskQueue\<close> sequentially, so a caller does not enter while
  an earlier call for the same connection is still between its check and its send.
\<close>

inductive pool_step :: "('v, 'e) pool \<Rightarrow> ('v, 'e) pool \<Rightarrow> bool" where
  start: "pool_step s (start_pool s)"
| check: "conn r \<notin> (\<lambda>p. conn (snd p)) ` set (pending s) \<Longrightarrow> pool_step s (check_send r s)"
| commit: "(i, r) \<in> set (pending s) \<Longrightarrow> pool_step s (commit_send waiting i r s)"
| go: "r \<in> set (loose s) \<Longrightarrow> Execute ans fuel (mh s) r = Some (Ret (mh', r', tr)) \<Longrightarrow>
     pool_step s (s\<lparr>mh := mh', loose := remove1 r (loose s)\<rparr>)"
| worker: "worker_step i s t \<Longrightarrow> pool_step s t"
| cancel: "pool_step s (s\<lparr>mh := StopWorkerPool (mh s)\<rparr>)"

inductive reachable :: "('v, 'e) MsgHandler \<Rightarrow> ('v, 'e) pool \<Rightarrow> bool" for m where
  init: "reachable m (init_pool m)"
| step: "reachable m s \<Longrightarrow> pool_step s t \<Longrightarrow> reachable m t"

section \<open>Invariants\<close>

definition shape_inv :: "('v, 'e) pool \<Rightarrow> bool" where
  "shape_inv s \<longleftrightarrow>
     length (workers s) = length (taskQueue (mh s)) \<and>
     length (sent s) = length (taskQueue (mh s)) \<and>
     length (executed s) = length (taskQueue (mh s)) \<and>
     (if workerCtx (mh s) = None then taskQueue (mh s) = []
      else length (taskQueue (mh s)) = unat (workerPoolSize (mh s)) \<and> workerPoolSize (mh s) \<noteq> 0) \<and>
     workerWG (mh s) = length (filter (\<lambda>w. w \<noteq> Exited) (workers s)) \<and>
     workerCancel (mh s) = (workerCtx (mh s) = Some False)"

definition queue_inv :: "('v, 'e) pool \<Rightarrow> bool" where
  "queue_inv s \<longleftrightarrow>
     (\<forall>i < length (taskQueue (mh s)).
        chan_inv (taskQueue (mh s) ! i) \<and> sent s ! i = executed s ! i @ contents (taskQueue (mh s) ! i))"

definition route_inv :: "('v, 'e) pool \<Rightarrow> bool" where
  "route_inv s \<longleftrightarrow>
     (\<forall>i < length (taskQueue (mh s)). \<forall>r \<in> set (sent s ! i). home (workerPoolSize (mh s)) (conn r) = i) \<and>
     (\<forall>i r. (i, r) \<in> set (pending s) \<longrightarrow>
        home (workerPoolSize (mh s)) (conn r) = i \<and> i < length (taskQueue (mh s)))"

definition of_conn :: "u64 \<Rightarrow> ('v, 'e) Request list \<Rightarrow> ('v, 'e) Request list" where
  "of_conn c rs = filter (\<lambda>r. conn r = c) rs"

definition order_inv :: "('v, 'e) pool \<Rightarrow> bool" where
  "order_inv s \<longleftrightarrow>
     distinct (map (\<lambda>p. conn (snd p)) (pending s)) \<and>
     (if taskQueue (mh s) = [] then submitted s = []
      else \<forall>c. of_conn c (submitted s) =
             of_conn c (sent s ! home (workerPoolSize (mh s)) c) @ of_conn c (map snd (pending s)))"

lemma of_conn_simps [simp]:
  "of_conn c [] = []"
  "of_conn c (r # rs) = (if conn r = c then r # of_conn c rs else of_conn c rs)"
  "of_conn c (rs @ rs') = of_conn c rs @ of_conn c rs'"
  by (simp_all add: of_conn_def)

lemma unat_ucast_u32: "unat (ucast (x :: u32) :: u64) = unat x"
  using unsigned_less [of x, where 'a = nat]
  by (simp add: unsigned_ucast_eq take_bit_nat_eq_self)

lemma home_less: "ps \<noteq> 0 \<Longrightarrow> home ps c < unat ps"
proof -
  assume "ps \<noteq> 0"
  then have ps: "0 < unat ps" by (simp add: unat_gt_0)
  show ?thesis
    using ps unfolding home_def by (simp add: unat_mod unat_ucast_u32)
qed

lemmas pool_defs = init_pool_def check_send_def commit_send_def pick_worker_def enqueue_def
  StopWorkerPool_def Let_def

text \<open>Starting either changes nothing or sets up empty queues and serving workers.\<close>

lemma start_pool_cases:
  assumes "shape_inv s"
  obtains (same) "start_pool s = s"
  | (fresh) n where "workers s = []" "taskQueue (mh s) = []" "sent s = []" "executed s = []"
      "workerCtx (mh s) = None" "n = unat (workerPoolSize (mh s))" "workerPoolSize (mh s) \<noteq> 0"
      "start_pool s = s\<lparr>mh := (mh s)\<lparr>workerCtx := Some False, workerCancel := True,
         taskQueue := replicate n (make_chan (unat (maxWorkerTaskLen (mh s)))), workerWG := n\<rparr>,
         workers := replicate n Serving, sent := replicate n [], executed := replicate n []\<rparr>"
proof (cases "workerCtx (mh s) \<noteq> None \<or> workerPoolSize (mh s) = 0")
  case True
  then show thesis by (intro same) (simp add: start_pool_def)
next
  case False
  then have "workers s = []" "taskQueue (mh s) = []" "sent s = []" "executed s = []" "workerWG (mh s) = 0"
    using assms by (auto simp: shape_inv_def)
  with False show thesis
    by (intro fresh) (simp_all add: start_pool_def StartWorkerPool_def Let_def)
qed

lemma filter_replicate_Serving [simp]:
  "filter (\<lambda>w. w \<noteq> Exited) (replicate n Serving) = replicate n Serving"
  by (induction n) auto

lemma live_workers_update:
  assumes "i < length ws" and "ws ! i \<noteq> Exited"
  shows "length (filter (\<lambda>w. w \<noteq> Exited) (ws[i := w])) =
           length (filter (\<lambda>w. w \<noteq> Exited) ws) - (if w = Exited then 1 else 0)"
  using assms
proof (induction ws arbitrary: i)
  case (Cons v ws)
  have "0 < length (filter (\<lambda>w. w \<noteq> Exited) ws)" if "j < length ws" "ws ! j \<noteq> Exited" for j
    using that by (auto simp: filter_empty_conv intro: nth_mem)
  with Cons show ?case by (cases i) (auto simp: Suc_diff_Suc)
qed simp

lemma worker_step_work_frame:
  assumes "Execute ans fuel ((mh s)\<lparr>taskQueue := (taskQueue (mh s))[i := q]\<rparr>) r = Some (Ret (mh', r', tr))"
  obtains m where "mh' = (mh s)\<lparr>taskQueue := (taskQueue (mh s))[i := q], metrics := m\<rparr>"
  using Execute_frame [OF assms] by auto

lemma shape_worker: "worker_step i s t \<Longrightarrow> shape_inv s \<Longrightarrow> shape_inv t"
proof (induction rule: worker_step.induct)
  case (work i s r q ans fuel mh' r' tr)
  obtain m where "mh' = (mh s)\<lparr>taskQueue := (taskQueue (mh s))[i := q], metrics := m\<rparr>"
    using work.hyps(4) by (rule worker_step_work_frame)
  then show ?case using work.prems by (simp add: shape_inv_def)
qed (auto simp: shape_inv_def live_workers_update)

lemma queue_worker: "worker_step i s t \<Longrightarrow> queue_inv s \<Longrightarrow> shape_inv s \<Longrightarrow> queue_inv t"
proof (induction rule: worker_step.induct)
  case (work i s r q ans fuel mh' r' tr)
  have i: "i < length (taskQueue (mh s))" "i < length (executed s)"
    using work by (auto simp: shape_inv_def)
  then have "chan_inv (taskQueue (mh s) ! i)" using work by (simp add: queue_inv_def)
  then have "chan_inv q" using work.hyps(3) by (rule chan.recv_inv)
  moreover have "contents (taskQueue (mh s) ! i) = r # contents q"
    using work.hyps(3) by (rule chan.recv_Some)
  moreover obtain m where "mh' = (mh s)\<lparr>taskQueue := (taskQueue (mh s))[i := q], metrics := m\<rparr>"
    using work.hyps(4) by (rule worker_step_work_frame)
  ultimately show ?case
    using work.prems(1) i by (auto simp: queue_inv_def nth_list_update)
qed (auto simp: queue_inv_def)

lemma route_worker: "worker_step i s t \<Longrightarrow> route_inv s \<Longrightarrow> route_inv t"
proof (induction rule: worker_step.induct)
  case (work i s r q ans fuel mh' r' tr)
  obtain m where "mh' = (mh s)\<lparr>taskQueue := (taskQueue (mh s))[i := q], metrics := m\<rparr>"
    using work.hyps(4) by (rule worker_step_work_frame)
  then show ?case using work.prems by (simp add: route_inv_def)
qed (auto simp: route_inv_def)

lemma order_worker: "worker_step i s t \<Longrightarrow> order_inv s \<Longrightarrow> order_inv t"
proof (induction rule: worker_step.induct)
  case (work i s r q ans fuel mh' r' tr)
  obtain m where "mh' = (mh s)\<lparr>taskQueue := (taskQueue (mh s))[i := q], metrics := m\<rparr>"
    using work.hyps(4) by (rule worker_step_work_frame)
  then show ?case using work.prems by (simp add: order_inv_def)
qed (auto simp: order_inv_def)

lemma shape_step:
  assumes "pool_step s t" and "shape_inv s"
  shows "shape_inv t"
  using assms
proof (induction rule: pool_step.induct)
  case (start s)
  from \<open>shape_inv s\<close> show ?case
    using start.prems by (cases rule: start_pool_cases) (simp_all add: shape_inv_def)
next
  case (check r s)
  then show ?case by (auto simp: shape_inv_def pool_defs split: dispatch.splits)
next
  case (commit i r s waiting)
  then show ?case by (auto simp: shape_inv_def pool_defs)
next
  case (go r s ans fuel mh' r' tr)
  then show ?case by (auto simp: shape_inv_def Let_def dest!: Execute_frame)
next
  case (cancel s)
  then show ?case by (auto simp: shape_inv_def pool_defs)
qed (rule shape_worker)

lemma queue_step:
  assumes "pool_step s t" and "queue_inv s" and "shape_inv s" and "route_inv s"
  shows "queue_inv t"
  using assms
proof (induction rule: pool_step.induct)
  case (start s)
  from \<open>shape_inv s\<close> show ?case
    using start.prems by (cases rule: start_pool_cases) (simp_all add: queue_inv_def)
next
  case (check r s)
  then show ?case by (auto simp: queue_inv_def pool_defs split: dispatch.splits)
next
  case (commit i r s waiting)
  then show ?case
    by (auto simp: queue_inv_def shape_inv_def route_inv_def pool_defs nth_list_update
        chan.send_inv chan.send_content)
next
  case (go r s ans fuel mh' r' tr)
  then show ?case by (auto simp: queue_inv_def dest!: Execute_frame)
next
  case (worker i s t)
  from worker.hyps worker.prems(1,2) show ?case by (rule queue_worker)
qed (auto simp: queue_inv_def pool_defs)

lemma route_step:
  assumes "pool_step s t" and "route_inv s" and "shape_inv s"
  shows "route_inv t"
  using assms
proof (induction rule: pool_step.induct)
  case (start s)
  from \<open>shape_inv s\<close> show ?case
    using start.prems by (cases rule: start_pool_cases) (auto simp: route_inv_def)
next
  case (check r s)
  then show ?case
    by (auto simp: route_inv_def shape_inv_def pool_defs home_less split: dispatch.splits if_splits)
next
  case (commit i r s waiting)
  have "set (remove1 (i, r) (pending s)) \<subseteq> set (pending s)" by (rule set_remove1_subset)
  moreover have "length (sent s) = length (taskQueue (mh s))" using commit by (simp add: shape_inv_def)
  ultimately show ?case
    using commit.hyps commit.prems(1)
    by (auto simp: route_inv_def commit_send_def enqueue_def Let_def nth_list_update split: if_splits)
next
  case (go r s ans fuel mh' r' tr)
  then show ?case by (auto simp: route_inv_def dest!: Execute_frame)
next
  case (worker i s t)
  from worker.hyps worker.prems(1) show ?case by (rule route_worker)
qed (auto simp: route_inv_def pool_defs)

lemma of_conn_remove1:
  assumes "distinct (map (\<lambda>p. conn (snd p)) ps)" and "(i, r) \<in> set ps"
  shows "of_conn c (map snd ps) =
           (if c = conn r then [r] else []) @ of_conn c (map snd (remove1 (i, r) ps))"
proof -
  obtain ps1 ps2 where ps: "ps = ps1 @ (i, r) # ps2" and "(i, r) \<notin> set ps1"
    using split_list_first [OF assms(2)] by blast
  have "of_conn (conn r) (map snd ps1) = []" and "of_conn (conn r) (map snd ps2) = []"
    using assms(1) by (force simp: ps of_conn_def filter_empty_conv)+
  then show ?thesis
    using \<open>(i, r) \<notin> set ps1\<close> by (simp add: ps remove1_append)
qed

lemma distinct_map_remove1: "distinct (map f xs) \<Longrightarrow> distinct (map f (remove1 x xs))"
  by (induction xs) (auto dest: notin_set_remove1 simp: image_iff)

lemma order_step:
  assumes "pool_step s t" and "order_inv s" and "shape_inv s" and "route_inv s"
  shows "order_inv t"
  using assms
proof (induction rule: pool_step.induct)
  case (start s)
  from \<open>shape_inv s\<close> show ?case
  proof (cases rule: start_pool_cases)
    case (fresh n)
    then have "pending s = []" using start by (cases "pending s") (auto simp: route_inv_def)
    with start fresh show ?thesis by (simp add: order_inv_def home_less)
  qed (use start in simp)
next
  case (check r s)
  then show ?case
    by (auto simp: order_inv_def shape_inv_def pool_defs split: dispatch.splits if_splits)
next
  case (commit i r s waiting)
  then have i: "i = home (workerPoolSize (mh s)) (conn r)" "i < length (taskQueue (mh s))"
    by (auto simp: route_inv_def)
  have d: "distinct (map (\<lambda>p. conn (snd p)) (pending s))" using commit by (simp add: order_inv_def)
  have len: "i < length (sent s)" using commit i by (simp add: shape_inv_def)
  have "of_conn c (submitted s) =
      of_conn c ((sent s)[i := sent s ! i @ [r]] ! home (workerPoolSize (mh s)) c) @
      of_conn c (map snd (remove1 (i, r) (pending s)))" for c
  proof -
    have "of_conn c (submitted s) =
        of_conn c (sent s ! home (workerPoolSize (mh s)) c) @ of_conn c (map snd (pending s))"
      using commit.prems(1) i(2) by (auto simp: order_inv_def split: if_splits)
    then show ?thesis
      using of_conn_remove1 [OF d commit.hyps, of c] len i(1)
      by (cases "home (workerPoolSize (mh s)) c = i") auto
  qed
  then show ?case
    using i(2) d by (auto simp: order_inv_def commit_send_def enqueue_def Let_def distinct_map_remove1)
next
  case (go r s ans fuel mh' r' tr)
  then show ?case by (auto simp: order_inv_def dest!: Execute_frame)
next
  case (worker i s t)
  from worker.hyps worker.prems(1) show ?case by (rule order_worker)
qed (auto simp: order_inv_def pool_defs)

text \<open>A handler as \<^const>\<open>NewMsgHandler\<close> makes it, with any routes: the pool was never started.\<close>

definition not_started :: "('v, 'e) MsgHandler \<Rightarrow> bool" where
  "not_started m \<longleftrightarrow> workerCtx m = None \<and> \<not> workerCancel m \<and> taskQueue m = [] \<and> workerWG m = 0"

definition pool_inv :: "('v, 'e) pool \<Rightarrow> bool" where
  "pool_inv s \<longleftrightarrow> shape_inv s \<and> queue_inv s \<and> route_inv s \<and> order_inv s"

lemma pool_inv_init: "not_started m \<Longrightarrow> pool_inv (init_pool m)"
  by (auto simp: pool_inv_def not_started_def shape_inv_def queue_inv_def route_inv_def order_inv_def init_pool_def)

lemma pool_inv_step [inv_intros]: "pool_step s t \<Longrightarrow> pool_inv s \<Longrightarrow> pool_inv t"
  by (auto simp: pool_inv_def intro: shape_step queue_step route_step order_step)

lemma reachable_pool_inv: "reachable m s \<Longrightarrow> not_started m \<Longrightarrow> pool_inv s"
  by (induction rule: reachable.induct) (auto intro: pool_inv_init inv_intros)

lemma exec_sent_prefix:
  assumes "pool_inv s" and "i < length (taskQueue (mh s))"
  shows "executed s ! i @ contents (taskQueue (mh s) ! i) = sent s ! i"
    and "\<forall>r \<in> set (executed s ! i). home (workerPoolSize (mh s)) (conn r) = i"
  using assms by (auto simp: pool_inv_def queue_inv_def route_inv_def)

section \<open>Shutdown\<close>

text \<open>Before the context is cancelled every worker serves.\<close>

definition serving_inv :: "('v, 'e) pool \<Rightarrow> bool" where
  "serving_inv s \<longleftrightarrow> (workerCtx (mh s) \<noteq> Some True \<longrightarrow> (\<forall>i < length (workers s). workers s ! i = Serving))"

lemma serving_worker: "worker_step i s t \<Longrightarrow> serving_inv s \<Longrightarrow> serving_inv t"
proof (induction rule: worker_step.induct)
  case (work i s r q ans fuel mh' r' tr)
  obtain m where "mh' = (mh s)\<lparr>taskQueue := (taskQueue (mh s))[i := q], metrics := m\<rparr>"
    using work.hyps(4) by (rule worker_step_work_frame)
  then show ?case using work.prems by (simp add: serving_inv_def)
qed (auto simp: serving_inv_def)

lemma serving_step: "pool_step s t \<Longrightarrow> serving_inv s \<Longrightarrow> shape_inv s \<Longrightarrow> serving_inv t"
proof (induction rule: pool_step.induct)
  case (start s)
  from \<open>shape_inv s\<close> show ?case
    using start.prems by (cases rule: start_pool_cases) (simp_all add: serving_inv_def)
next
  case (worker i s t)
  from worker.hyps worker.prems(1) show ?case by (rule serving_worker)
qed (auto simp: serving_inv_def pool_defs dest!: Execute_frame split: dispatch.splits)

lemma reachable_serving: "reachable m s \<Longrightarrow> not_started m \<Longrightarrow> serving_inv s"
proof (induction rule: reachable.induct)
  case init
  then show ?case by (simp add: serving_inv_def init_pool_def)
next
  case (step s t)
  then show ?case using reachable_pool_inv [of m s] by (auto simp: pool_inv_def intro: serving_step)
qed

text \<open>
  The pool after an orderly stop: no caller is between check and send, new callers bypass the pool, and the queue of
  every worker that has returned is empty.
\<close>

definition stopped_clean :: "('v, 'e) pool \<Rightarrow> bool" where
  "stopped_clean s \<longleftrightarrow> workerCtx (mh s) = Some True \<and> \<not> workerCancel (mh s) \<and> pending s = [] \<and>
     (\<forall>i < length (workers s). workers s ! i = Exited \<longrightarrow> contents (taskQueue (mh s) ! i) = [])"

lemma stopped_clean_worker: "worker_step i s t \<Longrightarrow> stopped_clean s \<Longrightarrow> stopped_clean t"
proof (induction rule: worker_step.induct)
  case (work i s r q ans fuel mh' r' tr)
  obtain m where "mh' = (mh s)\<lparr>taskQueue := (taskQueue (mh s))[i := q], metrics := m\<rparr>"
    using work.hyps(4) by (rule worker_step_work_frame)
  then show ?case
    using work.prems work.hyps(2) by (auto simp: stopped_clean_def) (metis nth_list_update_neq)
qed (auto simp: stopped_clean_def nth_list_update chan.recv_None)

lemma stopped_clean_step: "pool_step s t \<Longrightarrow> stopped_clean s \<Longrightarrow> stopped_clean t"
proof (induction rule: pool_step.induct)
  case (worker i s t)
  then show ?case by (rule stopped_clean_worker)
qed (auto simp: stopped_clean_def pool_defs start_pool_def dest!: Execute_frame)

text \<open>What still has to happen for all workers to return.\<close>

fun rank :: "worker \<Rightarrow> nat" where
  "rank Serving = 2"
| "rank Draining = 1"
| "rank Exited = 0"

definition work_left :: "('v, 'e) pool \<Rightarrow> nat" where
  "work_left s = sum_list (map (\<lambda>q. length (contents q)) (taskQueue (mh s))) + sum_list (map rank (workers s))"

lemma sum_list_map_update:
  "i < length xs \<Longrightarrow> sum_list (map f (xs[i := x])) + f (xs ! i) = sum_list (map f xs) + (f x :: nat)"
  by (induction xs arbitrary: i) (auto split: nat.splits)

lemma worker_step_decreases: "worker_step i s t \<Longrightarrow> shape_inv s \<Longrightarrow> work_left t < work_left s"
proof (induction rule: worker_step.induct)
  case (work i s r q ans fuel mh' r' tr)
  obtain m where "mh' = (mh s)\<lparr>taskQueue := (taskQueue (mh s))[i := q], metrics := m\<rparr>"
    using work.hyps(4) by (rule worker_step_work_frame)
  moreover have "i < length (taskQueue (mh s))" using work by (simp add: shape_inv_def)
  ultimately show ?case
    using sum_list_map_update [of i "taskQueue (mh s)" "\<lambda>q. length (contents q)" q] chan.recv_length [OF work.hyps(3)]
    by (simp add: work_left_def)
next
  case (observe i s)
  then show ?case using sum_list_map_update [of i "workers s" rank Draining] by (simp add: work_left_def)
next
  case (exit i s)
  then show ?case using sum_list_map_update [of i "workers s" rank Exited] by (simp add: work_left_def)
qed

text \<open>
  \<open>executable_queues\<close>: the queued requests are ones that \<^verbatim>\<open>Execute\<close> handles without an escaping panic, whatever the
  queues and metrics are at that time.
\<close>

definition executable_queues :: "('v, 'e) pool \<Rightarrow> bool" where
  "executable_queues s \<longleftrightarrow> (\<forall>q \<in> set (taskQueue (mh s)). \<forall>r \<in> set (contents q).
     \<exists>m. msg r = Some m \<and> (\<forall>h \<in> set (chain_of (Id m) (mh s)). no_bind h \<and> keeps_msg h))"

lemma chain_of_taskQueue [simp]: "chain_of i (m\<lparr>taskQueue := tq\<rparr>) = chain_of i m"
  by (simp add: chain_of_def)

lemma worker_enabled:
  assumes "shape_inv s" and "workerCtx (mh s) = Some True" and "executable_queues s"
    and "i < length (workers s)" and "workers s ! i \<noteq> Exited"
  shows "\<exists>t. worker_step i s t"
proof (cases "chan_recv (taskQueue (mh s) ! i)")
  case None
  with assms show ?thesis
    by (cases "workers s ! i") (auto intro: worker_step.observe worker_step.exit)
next
  case (Some rq)
  obtain r q where rq: "rq = (r, q)" by (cases rq)
  have "taskQueue (mh s) ! i \<in> set (taskQueue (mh s))" using assms(1,4) by (simp add: shape_inv_def)
  moreover have "r \<in> set (contents (taskQueue (mh s) ! i))" using Some rq by (simp add: chan.recv_Some)
  ultimately obtain m where "msg r = Some m" "\<forall>h \<in> set (chain_of (Id m) (mh s)). no_bind h \<and> keeps_msg h"
    using assms(3) unfolding executable_queues_def by blast
  then obtain fuel mh' r' tr' where
      "Execute (\<lambda>_ _. undefined) fuel ((mh s)\<lparr>taskQueue := (taskQueue (mh s))[i := q]\<rparr>) r = Some (Ret (mh', r', tr'))"
    using Execute_returns [of r m "(mh s)\<lparr>taskQueue := (taskQueue (mh s))[i := q]\<rparr>" "\<lambda>_ _. undefined"] by auto
  with Some rq assms(4,5) show ?thesis by (blast intro: worker_step.work)
qed

lemma pool_in_order:
  assumes inv: "pool_inv s" and "i < length (executed s)"
  shows "(\<exists>rest. of_conn c (submitted s) = of_conn c (executed s ! i) @ rest) \<and>
         (of_conn c (executed s ! i) \<noteq> [] \<longrightarrow> i = home (workerPoolSize (mh s)) c)"
proof -
  have i: "i < length (taskQueue (mh s))" using assms by (simp add: pool_inv_def shape_inv_def)
  note ex = exec_sent_prefix [OF inv i]
  show ?thesis
  proof (cases "of_conn c (executed s ! i) = []")
    case False
    then obtain r where "r \<in> set (executed s ! i)" and "conn r = c"
      by (auto simp: of_conn_def filter_empty_conv)
    then have home: "i = home (workerPoolSize (mh s)) c" using ex(2) by auto
    have "of_conn c (submitted s) = of_conn c (sent s ! i) @ of_conn c (map snd (pending s))"
      using inv i home by (auto simp: pool_inv_def order_inv_def split: if_splits)
    with home ex(1) [symmetric] show ?thesis by simp
  qed simp
qed

lemma executed_in_order:
  assumes "reachable m s" and "not_started m" and "i < length (executed s)"
  shows "(\<exists>rest. of_conn c (submitted s) = of_conn c (executed s ! i) @ rest) \<and>
         (of_conn c (executed s ! i) \<noteq> [] \<longrightarrow> i = home (workerPoolSize (mh s)) c)"
  using reachable_pool_inv [OF assms(1,2)] assms(3) by (rule pool_in_order)

text \<open>When the workers of a cleanly stopped pool are gone, everything sent was executed.\<close>

lemma stopped_all_executed:
  assumes "pool_inv t" and "stopped_clean t" and "workerWG (mh t) = 0"
  shows "executed t = sent t \<and> of_conn c (submitted t) = of_conn c (executed t ! home (workerPoolSize (mh t)) c)"
proof -
  have n: "length (taskQueue (mh t)) = unat (workerPoolSize (mh t))" "workerPoolSize (mh t) \<noteq> 0"
      "length (workers t) = length (taskQueue (mh t))" "length (sent t) = length (taskQueue (mh t))"
      "length (executed t) = length (taskQueue (mh t))"
    using assms(1,2) by (auto simp: pool_inv_def shape_inv_def stopped_clean_def)
  have "\<forall>w \<in> set (workers t). w = Exited"
    using assms by (auto simp: pool_inv_def shape_inv_def filter_empty_conv)
  then have "contents (taskQueue (mh t) ! i) = []" if "i < length (taskQueue (mh t))" for i
    using assms(2) that n(3) by (auto simp: stopped_clean_def)
  then have same: "executed t = sent t"
    using assms(1) n by (intro nth_equalityI) (auto simp: pool_inv_def queue_inv_def)
  have "taskQueue (mh t) \<noteq> []" using home_less [OF n(2), of c] n(1) by auto
  then have "of_conn c (submitted t) = of_conn c (sent t ! home (workerPoolSize (mh t)) c)"
    using assms(1,2) by (auto simp: pool_inv_def order_inv_def stopped_clean_def split: if_splits)
  with same show ?thesis by simp
qed

lemma cancel_clean:
  assumes "pool_inv s" and "serving_inv s" and "workerCtx (mh s) = Some False" and "pending s = []"
  shows "stopped_clean (s\<lparr>mh := StopWorkerPool (mh s)\<rparr>)"
  using assms by (auto simp: stopped_clean_def serving_inv_def StopWorkerPool_def pool_inv_def shape_inv_def)

section \<open>Properties\<close>

text \<open>
  C7: per-connection order. In every interleaving of callers, workers and shutdown, the requests of one connection
  that the pool has executed form an initial segment of the requests submitted for it, in submission order, and only
  the connection's own worker executes them.
\<close>

theorem per_connection_order:
  assumes "reachable m s" and "not_started m" and "i < length (executed s)"
  shows "(\<exists>rest. of_conn c (submitted s) = of_conn c (executed s ! i) @ rest) \<and>
         (of_conn c (executed s ! i) \<noteq> [] \<longrightarrow> i = home (workerPoolSize (mh s)) c)"
  using assms by (rule executed_in_order)

text \<open>
  A small run used by the witnesses: one worker, one request submitted, sent and executed.
\<close>

abbreviation demo_handler :: "(nat, nat) MsgHandler" where
  "demo_handler \<equiv> NewMsgHandler 1 4"

abbreviation demo_request_of :: "Message \<Rightarrow> (nat, nat) Request" where
  "demo_request_of m \<equiv> NewRequest 3 (Some m)"

abbreviation demo_request :: "(nat, nat) Request" where
  "demo_request \<equiv> demo_request_of (NewMessage 1 [])"

lemma demo_reachable:
  "reachable demo_handler (commit_send False 0 (demo_request_of m) (check_send (demo_request_of m) (start_pool (init_pool demo_handler))))"
proof -
  have s1: "reachable demo_handler (start_pool (init_pool demo_handler))"
    by (rule reachable.step [OF reachable.init pool_step.start])
  have s2: "reachable demo_handler (check_send (demo_request_of m) (start_pool (init_pool demo_handler)))"
    by (rule reachable.step [OF s1 pool_step.check])
      (simp add: start_pool_def init_pool_def StartWorkerPool_def NewMsgHandler_def)
  show ?thesis
    by (rule reachable.step [OF s2 pool_step.commit])
      (simp add: check_send_def start_pool_def init_pool_def pick_worker_def StartWorkerPool_def NewMsgHandler_def home_def)
qed

lemma demo_state:
  "commit_send False 0 (demo_request_of m) (check_send (demo_request_of m) (start_pool (init_pool demo_handler))) =
     \<lparr>mh = demo_handler\<lparr>workerCtx := Some False, workerCancel := True,
         taskQueue := [\<lparr>ccap = 4, cbuf = [demo_request_of m], cwait = []\<rparr>], workerWG := 1\<rparr>,
      workers = [Serving], pending = [], loose = [], submitted = [demo_request_of m], sent = [[demo_request_of m]], executed = [[]]\<rparr>"
  by (simp add: commit_send_def enqueue_def check_send_def start_pool_def init_pool_def pick_worker_def
      StartWorkerPool_def NewMsgHandler_def home_def make_chan_def chan_send_def chan_ready_def Let_def)

lemma not_started_New: "not_started (NewMsgHandler ps tlen)"
  by (simp add: not_started_def NewMsgHandler_def)

lemma demo_executed: "\<exists>s. reachable demo_handler s \<and> executed s = [[demo_request_of m]] \<and> submitted s = [demo_request_of m]"
proof -
  let ?s = "commit_send False 0 (demo_request_of m) (check_send (demo_request_of m) (start_pool (init_pool demo_handler)))"
  let ?q = "\<lparr>ccap = 4, cbuf = [], cwait = []\<rparr> :: (nat, nat) Request chan"
  let ?m = "(mh ?s)\<lparr>taskQueue := (taskQueue (mh ?s))[0 := ?q]\<rparr>"
  have "Execute (\<lambda>_ _. undefined) 1 ?m (demo_request_of m) = Some (Ret (observe_duration ?m, (demo_request_of m), []))"
    by (rule Execute_unregistered [where m = m])
      (unfold demo_state, simp_all add: registered_def NewMsgHandler_def)
  from reachable.step [OF demo_reachable pool_step.worker [OF worker_step.work [OF _ _ _ this]]] show ?thesis
    by (fastforce simp: demo_state chan_recv_def contents_def)
qed

theorem per_connection_order_witness:
  "\<exists>s. reachable demo_handler s \<and> of_conn 3 (executed s ! 0) = [demo_request] \<and>
     (\<exists>rest. of_conn 3 (submitted s) = of_conn 3 (executed s ! 0) @ rest) \<and> 0 = home (workerPoolSize (mh s)) 3"
proof -
  obtain s where s: "reachable demo_handler s" "executed s = [[demo_request]]"
    using demo_executed by blast
  with per_connection_order [OF s(1) not_started_New, of 0 3] show ?thesis by auto
qed

text \<open>
  C11: graceful drain. If the running pool is stopped while no caller is between its check and its send (as in
  \<^verbatim>\<open>Server.Shutdown\<close>, which first waits for the readers), then however the goroutines are scheduled afterwards, when the
  wait of \<^verbatim>\<open>StopWorkerPool\<close> ends because the workers are gone, every request ever sent to a worker was executed, and
  per connection the executed requests are exactly the submitted ones, in order.
\<close>

theorem graceful_drain:
  assumes "reachable m s" and "not_started m" and "workerCtx (mh s) = Some False" and "pending s = []"
    and "pool_step\<^sup>*\<^sup>* (s\<lparr>mh := StopWorkerPool (mh s)\<rparr>) t" and "stop_returns False (mh t)"
  shows "executed t = sent t \<and>
         of_conn c (submitted t) = of_conn c (executed t ! home (workerPoolSize (mh t)) c)"
proof -
  let ?s = "s\<lparr>mh := StopWorkerPool (mh s)\<rparr>"
  have inv: "pool_inv s" and serving: "serving_inv s"
    using assms(1,2) by (rule reachable_pool_inv reachable_serving)+
  have s1: "pool_inv ?s" using inv by (rule pool_inv_step [OF pool_step.cancel])
  have s2: "stopped_clean ?s" using inv serving assms(3,4) by (rule cancel_clean)
  from assms(5) have t: "pool_inv t \<and> stopped_clean t"
    by (induction rule: rtranclp_induct) (auto intro: s1 s2 pool_inv_step stopped_clean_step)
  with assms(6) show ?thesis using stopped_all_executed [of t c] by (simp add: stop_returns_def)
qed

lemma demo_drained:
  "\<exists>s t. reachable demo_handler s \<and> workerCtx (mh s) = Some False \<and> pending s = [] \<and> executed s = [[demo_request]] \<and>
     pool_step\<^sup>*\<^sup>* (s\<lparr>mh := StopWorkerPool (mh s)\<rparr>) t \<and> stop_returns False (mh t) \<and> executed t = [[demo_request]]"
proof -
  let ?s = "commit_send False 0 demo_request (check_send demo_request (start_pool (init_pool demo_handler)))"
  let ?m = "(mh ?s)\<lparr>taskQueue := (taskQueue (mh ?s))[0 := \<lparr>ccap = 4, cbuf = [], cwait = []\<rparr>]\<rparr>"
  let ?u = "?s\<lparr>mh := observe_duration ?m, executed := [[demo_request]]\<rparr>"
  have "Execute (\<lambda>_ _. undefined) 1 ?m demo_request = Some (Ret (observe_duration ?m, demo_request, []))"
    by (rule Execute_unregistered [where m = "NewMessage 1 []"])
      (unfold demo_state, simp_all add: registered_def NewMsgHandler_def)
  from reachable.step [OF demo_reachable pool_step.worker [OF worker_step.work [OF _ _ _ this]]]
  have u: "reachable demo_handler ?u" by (simp add: demo_state chan_recv_def contents_def)
  let ?a = "?u\<lparr>mh := StopWorkerPool (mh ?u)\<rparr>"
  let ?b = "?a\<lparr>workers := (workers ?a)[0 := Draining]\<rparr>"
  let ?c = "?b\<lparr>workers := (workers ?b)[0 := Exited], mh := (mh ?b)\<lparr>workerWG := workerWG (mh ?b) - 1\<rparr>\<rparr>"
  have "pool_step ?a ?b"
    by (rule pool_step.worker [OF worker_step.observe])
      (simp_all add: demo_state observe_duration_def StopWorkerPool_def)
  moreover have "pool_step ?b ?c"
    by (rule pool_step.worker [OF worker_step.exit])
      (simp_all add: demo_state observe_duration_def StopWorkerPool_def chan_recv_def contents_def)
  ultimately have "pool_step\<^sup>*\<^sup>* ?a ?c" by (meson converse_rtranclp_into_rtranclp rtranclp.rtrancl_refl)
  moreover have "workerCtx (mh ?u) = Some False" "pending ?u = []" "executed ?u = [[demo_request]]"
      "stop_returns False (mh ?c)" "executed ?c = [[demo_request]]"
    by (simp_all add: demo_state observe_duration_def StopWorkerPool_def stop_returns_def)
  ultimately show ?thesis using u by blast
qed

theorem graceful_drain_witness:
  "\<exists>t :: (nat, nat) pool. stop_returns False (mh t) \<and> executed t = [[demo_request]] \<and> executed t = sent t \<and>
     of_conn 3 (submitted t) = of_conn 3 (executed t ! home (workerPoolSize (mh t)) 3)"
proof -
  obtain s t where r: "reachable demo_handler s" and c: "workerCtx (mh s) = Some False" and p: "pending s = []"
    and st: "pool_step\<^sup>*\<^sup>* (s\<lparr>mh := StopWorkerPool (mh s)\<rparr>) t" and e: "stop_returns False (mh t)" and x: "executed t = [[demo_request]]"
    using demo_drained by blast
  from graceful_drain [OF r not_started_New c p st e, of 3] e x show ?thesis by (intro exI [of _ t]) blast
qed

text \<open>
  Shutdown makes progress. In every reachable state whose context is cancelled and whose queued requests are
  executable, either every worker has returned, or some worker can take a step; and every step of a worker reduces
  \<^const>\<open>work_left\<close>, so the workers of a stopped pool that gets no new requests return after finitely many steps.
\<close>

theorem shutdown_progress:
  assumes "reachable m s" and "not_started m" and "workerCtx (mh s) = Some True" and "executable_queues s"
  shows "((\<forall>w \<in> set (workers s). w = Exited) \<or> (\<exists>i t. worker_step i s t)) \<and>
         (\<forall>i t. worker_step i s t \<longrightarrow> work_left t < work_left s)"
proof -
  have "shape_inv s" using reachable_pool_inv [OF assms(1,2)] by (simp add: pool_inv_def)
  then show ?thesis
    using worker_enabled [OF _ assms(3,4)] worker_step_decreases by (metis in_set_conv_nth)
qed

lemma demo_stopped: "reachable demo_handler ((start_pool (init_pool demo_handler))\<lparr>mh := StopWorkerPool (mh (start_pool (init_pool demo_handler)))\<rparr>)"
  by (rule reachable.step [OF reachable.step [OF reachable.init pool_step.start] pool_step.cancel])

theorem shutdown_progress_witness:
  "\<exists>s. reachable demo_handler s \<and> workers s = [Serving] \<and> (\<exists>i t. worker_step i s t \<and> work_left t < work_left s)"
proof -
  let ?s = "(start_pool (init_pool demo_handler))\<lparr>mh := StopWorkerPool (mh (start_pool (init_pool demo_handler)))\<rparr>"
  have w: "workers ?s = [Serving]" "workerCtx (mh ?s) = Some True" "executable_queues ?s"
    by (simp_all add: start_pool_def init_pool_def StartWorkerPool_def StopWorkerPool_def NewMsgHandler_def executable_queues_def)
  from shutdown_progress [OF demo_stopped not_started_New w(2,3)] demo_stopped w(1) show ?thesis by force
qed

text \<open>
  A stopped pool is never restarted. After \<^verbatim>\<open>StopWorkerPool\<close> of a running pool, \<^verbatim>\<open>StartWorkerPool\<close> changes nothing
  and every later request goes to a goroutine of its own, so the per-connection order is gone; \<^verbatim>\<open>Client.Restart\<close> does
  exactly this.
\<close>

theorem pool_not_restartable:
  assumes "workerCancel h" and "workerCtx h \<noteq> None"
  shows "StartWorkerPool (StopWorkerPool h) = StopWorkerPool h \<and>
         pick_worker (StartWorkerPool (StopWorkerPool h)) c = GoExecute"
  using assms by (simp add: StartWorkerPool_def StopWorkerPool_def pick_worker_def)

theorem pool_not_restartable_witness:
  "pick_worker (StartWorkerPool (StopWorkerPool (StartWorkerPool demo_handler))) 3 = GoExecute"
proof -
  have "workerCancel (StartWorkerPool demo_handler)" "workerCtx (StartWorkerPool demo_handler) \<noteq> None"
    by (simp_all add: StartWorkerPool_def NewMsgHandler_def)
  from pool_not_restartable [OF this] show ?thesis by blast
qed

text \<open>
  Dispatch is in range. In every reachable state the worker index that \<^verbatim>\<open>SendMsgToTaskQueue\<close> computes from a
  connection id is a valid index of the queue slice, and it depends on the id only.
\<close>

theorem dispatch_in_range:
  assumes "reachable m s" and "not_started m" and "pick_worker (mh s) c = ToWorker i"
  shows "i < length (taskQueue (mh s)) \<and> i = unat c mod unat (workerPoolSize (mh s))"
proof -
  have "shape_inv s" using reachable_pool_inv [OF assms(1,2)] by (simp add: pool_inv_def)
  with assms(3) have ps: "workerPoolSize (mh s) \<noteq> 0" "i = home (workerPoolSize (mh s)) c"
      "length (taskQueue (mh s)) = unat (workerPoolSize (mh s))"
    by (auto simp: pick_worker_def shape_inv_def split: if_splits)
  moreover have "home (workerPoolSize (mh s)) c = unat c mod unat (workerPoolSize (mh s))"
    by (simp add: home_def unat_mod unat_ucast_u32)
  ultimately show ?thesis using home_less [of "workerPoolSize (mh s)" c] by simp
qed

theorem dispatch_in_range_witness:
  "pick_worker (mh (start_pool (init_pool demo_handler))) 3 = ToWorker 0 \<and>
   0 < length (taskQueue (mh (start_pool (init_pool demo_handler))))"
proof -
  have p: "pick_worker (mh (start_pool (init_pool demo_handler))) 3 = ToWorker 0"
    by (simp add: pick_worker_def start_pool_def init_pool_def StartWorkerPool_def NewMsgHandler_def home_def)
  from dispatch_in_range [OF reachable.step [OF reachable.init pool_step.start] not_started_New p] p show ?thesis by blast
qed

end
