(* ===== verification/Kinz_Host.thy ===== *)
theory Kinz_Host
  imports Kinz_Lifecycle Kinz_Workers
begin

text \<open>
  What the server and the client have in common: both are the \<^verbatim>\<open>connHost\<close> (\<^verbatim>\<open>src/knet/connhost.go\<close>) of connections whose
  readers feed one worker pool. This theory relates the readers to the pool, and states as a locale what a host owes its
  connections, with what follows for the messages of a peer.
\<close>

section \<open>Shared metrics\<close>

text \<open>What a connection has added to the shared gauge and counter.\<close>

definition gauge_of :: "('c, 'v, 'e, 'f) Connection \<Rightarrow> int" where
  "gauge_of k = (case Connection.metrics k of None \<Rightarrow> 0 | Some m \<Rightarrow> active m)"

definition closed_of :: "('c, 'v, 'e, 'f) Connection \<Rightarrow> nat" where
  "closed_of k = (case Connection.metrics k of None \<Rightarrow> 0 | Some m \<Rightarrow> connMetrics.closed m)"

section \<open>Callers of the pool\<close>

text \<open>
  The connections whose readers are inside \<^verbatim>\<open>SendMsgToTaskQueue\<close>: between the check and the send, or blocked in the send because
  the queue is full.
\<close>

definition busy :: "('v, 'e) pool \<Rightarrow> u64 set" where
  "busy p = (\<lambda>x. conn (snd x)) ` set (pending p) \<union> (\<Union>q \<in> set (taskQueue (mh p)). conn ` set (cwait q))"

text \<open>What the pool does on its own: the sends, the goroutines of single requests, and the workers.\<close>

inductive pool_serve :: "('v, 'e) pool \<Rightarrow> ('v, 'e) pool \<Rightarrow> bool" where
  commit: "(i, r) \<in> set (pending p) \<Longrightarrow> pool_serve p (commit_send waiting i r p)"
| go: "r \<in> set (loose p) \<Longrightarrow> Execute ans fuel (mh p) r = Some (Ret (m, r', tr)) \<Longrightarrow>
    pool_serve p (p\<lparr>mh := m, loose := remove1 r (loose p)\<rparr>)"
| worker: "worker_step i p q \<Longrightarrow> pool_serve p q"

definition pool_ok :: "('v, 'e) pool \<Rightarrow> bool" where
  "pool_ok p \<longleftrightarrow> pool_inv p \<and> serving_inv p"

lemma pool_ok_step: "pool_step p q \<Longrightarrow> pool_ok p \<Longrightarrow> pool_ok q"
  using serving_step [of p q] by (auto simp: pool_ok_def pool_inv_def intro: shape_step queue_step route_step order_step)

lemma pool_ok_New:
  "pool_ok (init_pool (SetMetrics m (NewMsgHandler ps len)))"
  using pool_inv_init [of "SetMetrics m (NewMsgHandler ps len)"]
  by (simp add: pool_ok_def not_started_def NewMsgHandler_def SetMetrics_def serving_inv_def init_pool_def)

lemma cwait_send: "set (cwait (chan_send r q)) \<subseteq> insert r (set (cwait q))"
  by (auto simp: chan_send_def)

lemma cwait_recv:
  assumes "chan_recv q = Some (r, q')" and "chan_inv q"
  shows "set (cwait q') \<subseteq> set (cwait q)"
proof -
  obtain xs where xs: "cbuf q @ cwait q = r # xs" "cwait q' = drop (ccap q) xs"
    using assms(1) by (auto simp: chan_recv_def contents_def split: list.splits)
  then have "cwait q' = drop (Suc (ccap q)) (cbuf q @ cwait q)" by simp
  also have "\<dots> = drop (Suc (ccap q) - length (cbuf q)) (cwait q)" using assms(2) by (simp add: chan_inv_def)
  finally show ?thesis by (simp add: set_drop_subset)
qed

lemma Un_update: "i < length xs \<Longrightarrow> (\<Union>x \<in> set (xs[i := y]). f x) \<subseteq> (\<Union>x \<in> set xs. f x) \<union> f y"
  using set_update_subset_insert [of xs i y] by fastforce

text \<open>The connections of blocked senders.\<close>

definition waiting_conns :: "('v, 'e) Request chan list \<Rightarrow> u64 set" where
  "waiting_conns qs = (\<Union>q \<in> set qs. conn ` set (cwait q))"

lemma busy_alt: "busy p = (\<lambda>x. conn (snd x)) ` set (pending p) \<union> waiting_conns (taskQueue (mh p))"
  by (simp add: busy_def waiting_conns_def)

lemma waiting_update:
  assumes "set (cwait q) \<subseteq> insert r (set (cwait (qs ! i)))"
  shows "waiting_conns (qs[i := q]) \<subseteq> insert (conn r) (waiting_conns qs)"
proof (cases "i < length qs")
  case True
  have "conn ` set (cwait q) \<subseteq> insert (conn r) (waiting_conns qs)"
    using assms nth_mem [OF True] unfolding waiting_conns_def by blast
  moreover have "waiting_conns (qs[i := q]) \<subseteq> waiting_conns qs \<union> conn ` set (cwait q)"
    unfolding waiting_conns_def by (rule Un_update [OF True])
  ultimately show ?thesis by blast
next
  case False
  then show ?thesis by (simp add: list_update_beyond subset_insertI)
qed

lemma busy_commit:
  assumes "(i, r) \<in> set (pending p)"
  shows "busy (commit_send waiting i r p) \<subseteq> busy p"
proof -
  have "conn r \<in> (\<lambda>x. conn (snd x)) ` set (pending p)" using assms by force
  moreover have "waiting_conns (taskQueue (mh (commit_send waiting i r p))) \<subseteq> insert (conn r) (waiting_conns (taskQueue (mh p)))"
    using waiting_update [OF cwait_send] by (simp add: commit_send_def enqueue_def Let_def)
  moreover have "(\<lambda>x. conn (snd x)) ` set (pending (commit_send waiting i r p)) \<subseteq> (\<lambda>x. conn (snd x)) ` set (pending p)"
    by (simp add: commit_send_def image_mono set_remove1_subset)
  ultimately show ?thesis unfolding busy_alt by blast
qed

lemma busy_worker:
  assumes "worker_step i p q" and "pool_inv p"
  shows "busy q \<subseteq> busy p"
  using assms(1)
proof (cases rule: worker_step.cases)
  case (work r qu ans fuel m r' tr)
  let ?qs = "taskQueue (mh p)"
  have i: "i < length ?qs" "chan_inv (?qs ! i)" using work(2) assms(2) by (simp_all add: pool_inv_def shape_inv_def queue_inv_def)
  have sub: "set (cwait qu) \<subseteq> set (cwait (?qs ! i))" by (rule cwait_recv [OF work(4) i(2)])
  then have "waiting_conns (?qs[i := qu]) \<subseteq> waiting_conns ?qs"
  proof (cases "cwait (?qs ! i)")
    case Nil
    then have "conn ` set (cwait qu) = {}" using sub by simp
    then show ?thesis using Un_update [OF i(1), of "\<lambda>q. conn ` set (cwait q)" qu] by (simp add: waiting_conns_def)
  next
    case (Cons x xs)
    then have "conn x \<in> waiting_conns ?qs" using nth_mem [OF i(1)] by (force simp: waiting_conns_def)
    moreover have "waiting_conns (?qs[i := qu]) \<subseteq> insert (conn x) (waiting_conns ?qs)" using sub by (intro waiting_update) blast
    ultimately show ?thesis by blast
  qed
  moreover have "taskQueue m = ?qs[i := qu]" using Execute_frame [OF work(5)] by auto
  ultimately show ?thesis using work(1) by (simp add: busy_alt le_supI2)
qed (simp_all add: busy_alt)

lemma serve_pool:
  assumes "pool_serve p q" and "pool_ok p"
  shows "pool_step p q \<and> submitted q = submitted p \<and> workerCtx (mh q) = workerCtx (mh p) \<and>
    workerPoolSize (mh q) = workerPoolSize (mh p) \<and> set (pending q) \<subseteq> set (pending p) \<and> busy q \<subseteq> busy p"
  using assms
proof (induction rule: pool_serve.induct)
  case (commit i r p waiting)
  then have "pool_step p (commit_send waiting i r p)" by (intro pool_step.commit)
  then show ?case
    using set_remove1_subset [of "(i, r)" "pending p"] busy_commit [OF commit.hyps, of waiting] by (simp add: commit_send_def enqueue_def Let_def)
next
  case (go r p ans fuel m r' tr)
  then show ?case using Execute_frame [OF go.hyps(2)] by (auto simp: busy_def intro: pool_step.go)
next
  case (worker i p q)
  then have "submitted q = submitted p \<and> workerCtx (mh q) = workerCtx (mh p) \<and> workerPoolSize (mh q) = workerPoolSize (mh p) \<and> pending q = pending p"
    by (induction rule: worker_step.induct) (auto dest!: Execute_frame)
  with worker busy_worker [OF worker.hyps] show ?case by (auto simp: pool_ok_def intro: pool_step.worker)
qed

lemma check_sendE:
  assumes "shape_inv p"
  obtains (worker) k where "workerCtx (mh p) = Some False"
      "check_send r p = p\<lparr>pending := pending p @ [(k, r)], submitted := submitted p @ [r]\<rparr>"
  | (loose) "workerCtx (mh p) \<noteq> Some False" "check_send r p = p\<lparr>loose := loose p @ [r]\<rparr>"
proof (cases "workerCtx (mh p) = Some False")
  case True
  then have "workerCancel (mh p)" "workerPoolSize (mh p) \<noteq> 0" "length (taskQueue (mh p)) = unat (workerPoolSize (mh p))"
    using assms by (simp_all add: shape_inv_def)
  then have "pick_worker (mh p) (conn r) = ToWorker (home (workerPoolSize (mh p)) (conn r))"
    by (auto simp: pick_worker_def unat_eq_zero)
  with True show thesis by (intro worker) (simp_all add: check_send_def)
next
  case False
  then show thesis using assms by (intro loose) (simp_all add: check_send_def pick_worker_def shape_inv_def)
qed

text \<open>A registration changes the routes only.\<close>

definition same_routes :: "('v, 'e) MsgHandler \<Rightarrow> ('v, 'e) MsgHandler \<Rightarrow> bool" where
  "same_routes m m' \<longleftrightarrow> (\<exists>a g h. m' = m\<lparr>apis := a, groupRanges := g, globalHandlers := h\<rparr>)"

lemma same_routesI: "m' = m\<lparr>apis := apis m', groupRanges := groupRanges m', globalHandlers := globalHandlers m'\<rparr> \<Longrightarrow> same_routes m m'"
  unfolding same_routes_def by blast

lemma registration_routes:
  "same_routes m (snd (AddRouterSlices i hs m))" "same_routes m (snd (Group a b hs m))" "same_routes m (Use hs m)"
  by (rule same_routesI; simp add: AddRouterSlices_def addSlices_def Group_def Use_def split: option.split)+

lemma pool_ok_routes: "pool_ok (p\<lparr>mh := (mh p)\<lparr>apis := a, groupRanges := g, globalHandlers := h\<rparr>\<rparr>) = pool_ok p"
  by (simp add: pool_ok_def serving_inv_def pool_inv_def shape_inv_def queue_inv_def route_inv_def order_inv_def)

lemma start_pool_frame: "submitted (start_pool p) = submitted p" "pending (start_pool p) = pending p"
  by (auto simp: start_pool_def Let_def)

section \<open>Readers feed the pool\<close>

definition reqs :: "u64 \<Rightarrow> Message list \<Rightarrow> ('v, 'e) Request list" where
  "reqs i ms = map (\<lambda>m. NewRequest i (Some m)) ms"

lemma reqs_simps [simp]: "reqs i [] = []" "reqs i (ms @ ms') = reqs i ms @ reqs i ms'" "reqs i [m] = [NewRequest i (Some m)]"
  by (simp_all add: reqs_def)

text \<open>
  A reader that is inside the pool does nothing else, and the requests submitted for a connection are what its reader has
  handed on, up to the moment at which the pool is stopped. \<open>known\<close> are the connections that others can reach.
\<close>

definition feeding :: "(u64 \<rightharpoonup> ('c, 'v, 'e, 'f) Connection) \<Rightarrow> u64 set \<Rightarrow> ('v, 'e) pool \<Rightarrow> bool" where
  "feeding cs known p \<longleftrightarrow> pool_ok p \<and> (\<forall>r \<in> set (submitted p). conn r \<in> known) \<and>
     (\<forall>i \<in> busy p. i \<in> known \<and> (\<exists>c ms. cs i = Some c \<and> rd c = Dispatching ms)) \<and>
     (\<forall>i c. cs i = Some c \<longrightarrow> prefix (of_conn i (submitted p)) (reqs i (dispatched c)) \<and>
        (workerCtx (mh p) = Some False \<longrightarrow> of_conn i (submitted p) = reqs i (dispatched c)))"

lemma feedingD:
  assumes "feeding cs known p"
  shows "pool_ok p" "pool_inv p" "i \<in> busy p \<Longrightarrow> i \<in> known \<and> (\<exists>c ms. cs i = Some c \<and> rd c = Dispatching ms)"
    "cs i = Some c \<Longrightarrow> prefix (of_conn i (submitted p)) (reqs i (dispatched c))"
    "cs i = Some c \<Longrightarrow> workerCtx (mh p) = Some False \<Longrightarrow> of_conn i (submitted p) = reqs i (dispatched c)"
  using assms by (simp_all add: feeding_def pool_ok_def)

lemma feeding_pool:
  assumes "feeding cs known p" and "pool_ok q" and "submitted q = submitted p" and "busy q \<subseteq> busy p"
    and "workerCtx (mh q) = workerCtx (mh p) \<or> workerCtx (mh q) = Some True"
  shows "feeding cs known q"
  using assms unfolding feeding_def by auto

lemma feeding_serve: "feeding cs known p \<Longrightarrow> pool_serve p q \<Longrightarrow> feeding cs known q"
  using serve_pool [of p q] pool_ok_step [of p q] feedingD(1) [of cs known p] by (intro feeding_pool [of cs known p q]) auto

lemma feeding_routes: "feeding cs known p \<Longrightarrow> same_routes (mh p) m \<Longrightarrow> feeding cs known (p\<lparr>mh := m\<rparr>)"
  by (rule feeding_pool [of cs known p]) (auto simp: same_routes_def pool_ok_routes feeding_def busy_def)

lemma feeding_cancel:
  assumes "feeding cs known p"
  shows "feeding cs known (p\<lparr>mh := StopWorkerPool (mh p)\<rparr>)"
proof (rule feeding_pool [OF assms])
  show "pool_ok (p\<lparr>mh := StopWorkerPool (mh p)\<rparr>)" by (rule pool_ok_step [OF pool_step.cancel feedingD(1) [OF assms]])
qed (simp_all add: busy_def StopWorkerPool_def)

text \<open>Starting a pool that has been started before changes nothing; otherwise nothing has been handed on yet.\<close>

lemma feeding_start:
  assumes "feeding cs known p" and "workerCtx (mh p) = None \<Longrightarrow> workerPoolSize (mh p) \<noteq> 0 \<Longrightarrow> known = {} \<and> (\<forall>i c. cs i = Some c \<longrightarrow> dispatched c = [])"
  shows "feeding cs known (start_pool p)"
proof (cases "start_pool p = p")
  case False
  then have "workerCtx (mh p) = None" "workerPoolSize (mh p) \<noteq> 0" unfolding start_pool_def by argo+
  with assms(2) have none: "known = {}" "\<And>i c. cs i = Some c \<Longrightarrow> dispatched c = []" by blast+
  with assms(1) have "submitted p = []" "busy p = {}" by (auto simp: feeding_def)
  then have empty: "submitted p = []" "pending p = []" by (simp_all add: busy_def)
  have "pool_ok (start_pool p)" by (rule pool_ok_step [OF pool_step.start feedingD(1) [OF assms(1)]])
  moreover have "busy (start_pool p) = {}"
    using empty(2) False by (auto simp: busy_def start_pool_def StartWorkerPool_def make_chan_def Let_def)
  ultimately show ?thesis using none empty by (simp add: feeding_def start_pool_frame)
qed (use assms(1) in simp)

lemma feeding_submit:
  assumes "feeding cs known p" and "i \<in> known" and "cs i = Some c" and "rd c = Dispatching (m # ms)" and "i \<notin> busy p"
  shows "feeding (cs(i \<mapsto> dispatch_action (m # ms) c)) known (check_send (NewRequest i (Some m)) p)"
proof -
  let ?r = "NewRequest i (Some m) :: ('b, 'c) Request"
  have ok: "pool_ok (check_send ?r p)"
    using assms(5) by (intro pool_ok_step [OF pool_step.check feedingD(1) [OF assms(1)]]) (auto simp: busy_def)
  have "shape_inv p" using feedingD(2) [OF assms(1)] by (simp add: pool_inv_def)
  then show ?thesis
  proof (cases rule: check_sendE [where r = ?r])
    case (worker k)
    then have "busy (check_send ?r p) = insert i (busy p)" by (simp add: busy_def)
    with worker ok assms show ?thesis by (auto simp: feeding_def)
  next
    case loose
    then have "busy (check_send ?r p) = busy p" by (simp add: busy_def)
    with loose ok assms show ?thesis by (auto simp: feeding_def)
  qed
qed

lemma feeding_other:
  assumes "feeding cs known p" and "cs i = Some c" and "dispatched c' = dispatched c" and "rd c' = rd c \<or> i \<notin> busy p"
  shows "feeding (cs(i \<mapsto> c')) known p"
  using assms unfolding feeding_def by auto

lemma feeding_make:
  assumes "feeding cs known p" and "i \<notin> known" and "dispatched c = []"
  shows "feeding (cs(i \<mapsto> c)) known p"
proof -
  have "of_conn i (submitted p) = []" using assms(1,2) by (auto simp: feeding_def of_conn_def filter_empty_conv)
  with assms show ?thesis by (auto simp: feeding_def)
qed

lemma feeding_more: "feeding cs known p \<Longrightarrow> known \<subseteq> known' \<Longrightarrow> feeding cs known' p"
  unfolding feeding_def by blast

lemma feeding_none: "pool_ok p \<Longrightarrow> submitted p = [] \<Longrightarrow> busy p = {} \<Longrightarrow> feeding (\<lambda>_. None) known p"
  by (simp add: feeding_def)

section \<open>Hosts\<close>

text \<open>
  What a host guarantees in every state it can reach: each of its connections has gone through steps of a connection only,
  starting with the codec it was given, and their readers feed its pool.
\<close>

locale conn_host =
  fixes reach :: "'s \<Rightarrow> bool"
    and dec :: "'c \<Rightarrow> bytes \<Rightarrow> Message list \<times> go_error option \<times> 'c"
    and pack :: "'c \<Rightarrow> Message \<Rightarrow> go_error + bytes"
    and conns :: "'s \<Rightarrow> u64 \<rightharpoonup> ('c, 'v, 'e, 'f) Connection"
    and known :: "'s \<Rightarrow> u64 set"
    and given :: "'s \<Rightarrow> u64 \<rightharpoonup> 'c"
    and pool :: "'s \<Rightarrow> ('v, 'e) pool"
  assumes hosted: "reach s \<Longrightarrow> conns s i = Some c \<Longrightarrow> \<exists>cod. given s i = Some cod \<and> conn_reachable dec pack cod c"
    and fed: "reach s \<Longrightarrow> feeding (conns s) (known s) (pool s)"
begin

lemma hosted_with: "reach s \<Longrightarrow> conns s i = Some c \<Longrightarrow> given s i = Some cod \<Longrightarrow> conn_reachable dec pack cod c"
  using hosted [of s i c] by auto

lemma hosted_inv: "reach s \<Longrightarrow> conns s i = Some c \<Longrightarrow> conn_inv c"
  by (drule (1) hosted) (auto dest: conn_reachable_inv)

lemma executed_dispatched:
  assumes "reach s" and "conns s k = Some c" and "i < length (executed (pool s))"
  shows "prefix (of_conn k (executed (pool s) ! i)) (reqs k (dispatched c))"
proof -
  have "prefix (of_conn k (executed (pool s) ! i)) (of_conn k (submitted (pool s)))"
    using pool_in_order [OF feedingD(2) [OF fed [OF assms(1)]] assms(3), of k] by (auto simp: prefix_def)
  also have "prefix (of_conn k (submitted (pool s))) (reqs k (dispatched c))" by (rule feedingD(4) [OF fed [OF assms(1)] assms(2)])
  finally show ?thesis .
qed

end

text \<open>With the codec of the framework: what a peer sent is executed in order.\<close>

locale tlv_host = conn_host reach Decode Pack conns known given pool
  for reach :: "'s \<Rightarrow> bool" and conns :: "'s \<Rightarrow> u64 \<rightharpoonup> (TLVPack, 'v, 'e, 'f) Connection" and known given
    and pool :: "'s \<Rightarrow> ('v, 'e) pool"
begin

lemma relayed:
  assumes "conn_reachable Decode Pack cod a" and "reach s" and "conns s k = Some b" and "given s k = Some (Clone cod)"
    and "\<forall>(m, w) \<in> set (accepted a). tlv_sendable (tlv_conf cod) m" and "prefix (concat (rcvd b)) (written a)"
    and "i < length (executed (pool s))"
  shows "prefix (of_conn k (executed (pool s) ! i)) (map (\<lambda>(m, w). NewRequest k (Some (tlv_received (tlv_conf cod) m))) (accepted a))"
proof -
  have "prefix (dispatched b) (map (tlv_received (tlv_conf cod)) (map fst (accepted a)))"
    by (rule tlv.relay [OF assms(1) hosted_with [OF assms(2-4)] tlv.fresh_clone tlv.conf_clone _ assms(6)]) (use assms(5) in auto)
  then have "prefix (reqs k (dispatched b)) (map (\<lambda>(m, w). NewRequest k (Some (tlv_received (tlv_conf cod) m))) (accepted a))"
    by (auto simp: reqs_def prefix_def map_eq_append_conv comp_def case_prod_beta)
  with executed_dispatched [OF assms(2,3,7)] show ?thesis by (rule prefix_order.trans)
qed

end

section \<open>Schedules\<close>

text \<open>Single moves of a pool whose handlers use no fuel, for concrete runs.\<close>

fun ret_option :: "'a outcome option \<Rightarrow> 'a option" where
  "ret_option (Some (Ret x)) = Some x"
| "ret_option _ = None"

definition commit_move :: "(nat, nat) pool \<Rightarrow> (nat, nat) pool option" where
  "commit_move p = (case pending p of [] \<Rightarrow> None | (i, r) # ps \<Rightarrow> Some (commit_send False i r p))"

definition work_move :: "nat \<Rightarrow> (nat, nat) pool \<Rightarrow> (nat, nat) pool option" where
  "work_move i p =
     (if i < length (workers p) \<and> workers p ! i \<noteq> Exited
      then (case chan_recv (taskQueue (mh p) ! i) of
              None \<Rightarrow> None
            | Some (r, q) \<Rightarrow>
                map_option (\<lambda>(m, r', tr). p\<lparr>mh := m, executed := (executed p)[i := executed p ! i @ [r]]\<rparr>)
                  (ret_option (Execute (\<lambda>_ _. 0) 1 ((mh p)\<lparr>taskQueue := (taskQueue (mh p))[i := q]\<rparr>) r)))
      else None)"

definition observe_move :: "nat \<Rightarrow> (nat, nat) pool \<Rightarrow> (nat, nat) pool option" where
  "observe_move i p =
     (if i < length (workers p) \<and> workers p ! i = Serving \<and> workerCtx (mh p) = Some True
      then Some (p\<lparr>workers := (workers p)[i := Draining]\<rparr>) else None)"

definition exit_move :: "nat \<Rightarrow> (nat, nat) pool \<Rightarrow> (nat, nat) pool option" where
  "exit_move i p =
     (if i < length (workers p) \<and> workers p ! i = Draining \<and> chan_recv (taskQueue (mh p) ! i) = None
      then Some (p\<lparr>workers := (workers p)[i := Exited], mh := (mh p)\<lparr>workerWG := workerWG (mh p) - 1\<rparr>\<rparr>) else None)"

lemma ret_option_Some [simp]: "ret_option x = Some y \<longleftrightarrow> x = Some (Ret y)"
  by (cases x rule: ret_option.cases) auto

lemma pool_moves:
  "commit_move p = Some q \<Longrightarrow> pool_serve p q" "work_move i p = Some q \<Longrightarrow> pool_serve p q"
  "observe_move i p = Some q \<Longrightarrow> pool_serve p q" "exit_move i p = Some q \<Longrightarrow> pool_serve p q"
  by (auto simp: commit_move_def intro!: pool_serve.commit split: list.splits)
    (auto simp: work_move_def observe_move_def exit_move_def simp del: One_nat_def
      intro!: pool_serve.worker worker_step.intros split: if_splits option.splits)

lemmas pool_move_defs = commit_move_def work_move_def observe_move_def exit_move_def

end
