(* ===== verification/Kinz_Config.thy ===== *)
theory Kinz_Config
  imports Kinz_Float
begin

text \<open>
  The configuration of \<^verbatim>\<open>src/kconf/config.go\<close>: defaults, the YAML file, the \<^verbatim>\<open>KINZ_*\<close> environment variables, with the
  number and duration parsers of Go's standard library that the loading chain uses. Reading the file and the YAML
  library are parameters.
\<close>

section \<open>Numbers\<close>

definition is_digit :: "u8 \<Rightarrow> bool" where
  "is_digit c \<longleftrightarrow> 48 \<le> c \<and> c \<le> 57"

definition digit_val :: "u8 \<Rightarrow> nat" where
  "digit_val c = unat c - 48"

definition digits_val :: "nat \<Rightarrow> bytes \<Rightarrow> nat" where
  "digits_val acc s = foldl (\<lambda>a c. 10 * a + digit_val c) acc s"

text \<open>\<^verbatim>\<open>strconv.ParseUint(s, 10, bits)\<close> and \<^verbatim>\<open>strconv.Atoi\<close>; \<^const>\<open>None\<close> is a syntax or range error.\<close>

definition ParseUint :: "nat \<Rightarrow> bytes \<Rightarrow> nat option" where
  "ParseUint bits s =
     (if s = [] \<or> \<not> list_all is_digit s then None
      else let n = digits_val 0 s in if n < 2 ^ bits then Some n else None)"

fun Atoi :: "bytes \<Rightarrow> int option" where
  "Atoi [] = None"
| "Atoi (c # s) =
     (if c = 45 then (case ParseUint 64 s of Some n \<Rightarrow> if n \<le> 2 ^ 63 then Some (- int n) else None | None \<Rightarrow> None)
      else case ParseUint 64 (if c = 43 then s else c # s) of
             Some n \<Rightarrow> if n < 2 ^ 63 then Some (int n) else None
           | None \<Rightarrow> None)"

section \<open>Durations\<close>

text \<open>The integer part of \<^verbatim>\<open>time.ParseDuration\<close>: an overflow is an error.\<close>

fun leadingInt :: "nat \<Rightarrow> bytes \<Rightarrow> (nat \<times> bytes) option" where
  "leadingInt x [] = Some (x, [])"
| "leadingInt x (c # s) =
     (if \<not> is_digit c then Some (x, c # s)
      else if 2 ^ 63 div 10 < x then None
      else if 2 ^ 63 < 10 * x + digit_val c then None
      else leadingInt (10 * x + digit_val c) s)"

text \<open>The fraction: digits that do not fit are skipped. The result is the value, the scale and the rest.\<close>

fun leadingFraction :: "bool \<Rightarrow> nat \<Rightarrow> rat \<Rightarrow> bytes \<Rightarrow> nat \<times> rat \<times> bytes" where
  "leadingFraction over x scale [] = (x, scale, [])"
| "leadingFraction over x scale (c # s) =
     (if \<not> is_digit c then (x, scale, c # s)
      else if over \<or> (2 ^ 63 - 1) div 10 < x \<or> 2 ^ 63 < 10 * x + digit_val c then leadingFraction True x scale s
      else leadingFraction False (10 * x + digit_val c) (fl (scale * 10)) s)"

definition unit_chars :: "u8 \<Rightarrow> bool" where
  "unit_chars c \<longleftrightarrow> c \<noteq> 46 \<and> \<not> is_digit c"

definition unitMap :: "(bytes \<times> nat) list" where
  "unitMap = [(str ''ns'', 1), (str ''us'', 1000), ([0xC2, 0xB5, 115], 1000), ([0xCE, 0xBC, 115], 1000),
     (str ''ms'', 1000000), (str ''s'', 1000000000), (str ''m'', 60000000000), (str ''h'', 3600000000000)]"

text \<open>The optional fraction after the integer part; the last component says whether it had digits.\<close>

definition fraction_part :: "bytes \<Rightarrow> nat \<times> rat \<times> bytes \<times> bool" where
  "fraction_part s =
     (if s \<noteq> [] \<and> hd s = 46
      then (case leadingFraction False 0 1 (tl s) of (f, sc, r) \<Rightarrow> (f, sc, r, length r \<noteq> length (tl s)))
      else (0, 1, s, False))"

text \<open>The nanoseconds of \<open>v\<close> units and a fraction; an overflow is an error.\<close>

definition unit_value :: "nat \<Rightarrow> nat \<Rightarrow> rat \<Rightarrow> nat \<Rightarrow> nat option" where
  "unit_value v f scale unit =
     (if 2 ^ 63 div unit < v then None
      else if 0 < f
      then (let v' = v * unit + nat \<lfloor>fl (fl (of_nat f) * fl (fl (of_nat unit) / scale))\<rfloor>
            in if 2 ^ 63 < v' then None else Some v')
      else Some (v * unit))"

text \<open>One element, a number with its unit: its nanoseconds and the rest of the text.\<close>

definition duration_unit :: "bytes \<Rightarrow> (nat \<times> bytes) option" where
  "duration_unit s =
     (if s = [] \<or> \<not> (hd s = 46 \<or> is_digit (hd s)) then None
      else case leadingInt 0 s of
        None \<Rightarrow> None
      | Some (v, s1) \<Rightarrow>
          (case fraction_part s1 of (f, scale, s2, post) \<Rightarrow>
             let u = takeWhile unit_chars s2; s3 = dropWhile unit_chars s2
             in if length s1 = length s \<and> \<not> post \<or> u = [] then None
                else case map_of unitMap u of
                  None \<Rightarrow> None
                | Some unit \<Rightarrow> map_option (\<lambda>n. (n, s3)) (unit_value v f scale unit)))"

lemma leadingInt_length: "leadingInt x s = Some (v, r) \<Longrightarrow> length r \<le> length s"
  by (induction x s rule: leadingInt.induct) (auto split: if_splits)

lemma leadingFraction_length: "leadingFraction b x sc s = (f, sc', r) \<Longrightarrow> length r \<le> length s"
  by (induction b x sc s rule: leadingFraction.induct) (auto split: if_splits)

lemma fraction_part_length: "fraction_part s = (f, sc, r, post) \<Longrightarrow> length r \<le> length s"
  using leadingFraction_length [of False 0 1 "tl s" f sc r]
  by (cases s) (auto simp: fraction_part_def split: if_splits prod.splits)

lemma duration_unit_length: "duration_unit s = Some (v, r) \<Longrightarrow> length r < length s"
proof -
  assume d: "duration_unit s = Some (v, r)"
  then obtain v1 s1 where l: "leadingInt 0 s = Some (v1, s1)" by (auto simp: duration_unit_def split: if_splits option.splits)
  obtain f sc s2 post where q: "fraction_part s1 = (f, sc, s2, post)" by (cases "fraction_part s1")
  have "takeWhile unit_chars s2 \<noteq> []" and "r = dropWhile unit_chars s2"
    using d by (auto simp: duration_unit_def l q Let_def split: if_splits option.splits)
  moreover have "length (takeWhile unit_chars s2) + length (dropWhile unit_chars s2) = length s2"
    by (metis length_append takeWhile_dropWhile_id)
  ultimately show ?thesis using leadingInt_length [OF l] fraction_part_length [OF q]
    by (cases "takeWhile unit_chars s2") auto
qed

text \<open>The loop over the elements; the sum is a \<^verbatim>\<open>uint64\<close>, checked after every addition.\<close>

function duration_loop :: "nat \<Rightarrow> bytes \<Rightarrow> nat option" where
  "duration_loop d s =
     (if s = [] then Some d
      else case duration_unit s of
        None \<Rightarrow> None
      | Some (v, r) \<Rightarrow> let d' = (d + v) mod 2 ^ 64 in if 2 ^ 63 < d' then None else duration_loop d' r)"
  by pat_completeness auto
termination
  by (relation "measure (length \<circ> snd)") (auto dest: duration_unit_length)

declare duration_loop.simps [simp del]

definition ParseDuration :: "bytes \<Rightarrow> int option" where
  "ParseDuration orig =
     (let neg = (orig \<noteq> [] \<and> hd orig = 45);
          s = (if orig \<noteq> [] \<and> (hd orig = 45 \<or> hd orig = 43) then tl orig else orig)
      in if s = [48] then Some 0
         else if s = [] then None
         else case duration_loop 0 s of
                None \<Rightarrow> None
              | Some d \<Rightarrow> if neg then Some (- int d) else if 2 ^ 63 - 1 < d then None else Some (int d))"

section \<open>The configuration\<close>

record Config =
  Name :: bytes
  Host :: bytes
  Port :: int
  MaxConn :: int
  MaxPacketSize :: u32
  WorkerPoolSize :: u32
  MaxWorkerTaskLen :: u32
  WriteQueueSize :: int
  WriteTimeout :: int

definition Default :: Config where
  "Default = \<lparr>Name = str ''KinzServer'', Host = str ''0.0.0.0'', Port = 8999, MaxConn = 1024, MaxPacketSize = 4096,
     WorkerPoolSize = 10, MaxWorkerTaskLen = 1024, WriteQueueSize = 256, WriteTimeout = 5000000000\<rparr>"

text \<open>The errors of loading, with what their texts quote.\<close>

datatype config_error = InvalidEnv bytes bytes | ParseConfig bytes | ReadConfig bytes | InvalidDuration bytes | InvalidDurationValue | DecodeError

text \<open>
  \<open>env\<close> is \<^verbatim>\<open>os.LookupEnv\<close>. One block of \<^verbatim>\<open>applyEnv\<close>: an unset variable leaves the configuration alone, a value that does
  not parse is an error, and otherwise the field is set.
\<close>

definition env_field ::
  "(bytes \<Rightarrow> bytes option) \<Rightarrow> bytes \<Rightarrow> (bytes \<Rightarrow> 'a option) \<Rightarrow> ('a \<Rightarrow> Config \<Rightarrow> Config) \<Rightarrow> Config \<Rightarrow> config_error + Config" where
  "env_field env key parse put cfg =
     (case env key of
        None \<Rightarrow> Inr cfg
      | Some v \<Rightarrow> (case parse v of None \<Rightarrow> Inl (InvalidEnv key v) | Some x \<Rightarrow> Inr (put x cfg)))"

definition uint32_of :: "nat \<Rightarrow> u32" where
  "uint32_of n = of_nat n"

fun and_then :: "'e + 'a \<Rightarrow> ('a \<Rightarrow> 'e + 'b) \<Rightarrow> 'e + 'b" where
  "and_then (Inl e) f = Inl e"
| "and_then (Inr x) f = f x"

definition applyEnv :: "(bytes \<Rightarrow> bytes option) \<Rightarrow> Config \<Rightarrow> config_error + Config" where
  "applyEnv env cfg =
     and_then (env_field env (str ''KINZ_NAME'') Some (\<lambda>v c. c\<lparr>Name := v\<rparr>) cfg) (\<lambda>cfg.
     and_then (env_field env (str ''KINZ_HOST'') Some (\<lambda>v c. c\<lparr>Host := v\<rparr>) cfg) (\<lambda>cfg.
     and_then (env_field env (str ''KINZ_PORT'') Atoi (\<lambda>v c. c\<lparr>Port := v\<rparr>) cfg) (\<lambda>cfg.
     and_then (env_field env (str ''KINZ_MAXCONN'') Atoi (\<lambda>v c. c\<lparr>MaxConn := v\<rparr>) cfg) (\<lambda>cfg.
     and_then (env_field env (str ''KINZ_MAXPACKETSIZE'') (ParseUint 32) (\<lambda>v c. c\<lparr>MaxPacketSize := uint32_of v\<rparr>) cfg) (\<lambda>cfg.
     and_then (env_field env (str ''KINZ_WORKERPOOLSIZE'') (ParseUint 32) (\<lambda>v c. c\<lparr>WorkerPoolSize := uint32_of v\<rparr>) cfg) (\<lambda>cfg.
     and_then (env_field env (str ''KINZ_MAXWORKERTASKLEN'') (ParseUint 32) (\<lambda>v c. c\<lparr>MaxWorkerTaskLen := uint32_of v\<rparr>) cfg) (\<lambda>cfg.
     and_then (env_field env (str ''KINZ_WRITEQUEUESIZE'') Atoi (\<lambda>v c. c\<lparr>WriteQueueSize := v\<rparr>) cfg) (\<lambda>cfg.
     env_field env (str ''KINZ_WRITETIMEOUT'') ParseDuration (\<lambda>v c. c\<lparr>WriteTimeout := v\<rparr>) cfg))))))))"

text \<open>
  \<^verbatim>\<open>os.ReadFile\<close> gives the data, reports a missing file, or fails otherwise; \<open>yaml\<close> is \<^verbatim>\<open>yaml.Unmarshal\<close> into the
  configuration built so far.
\<close>

datatype read_result = FileData bytes | NotExist | ReadError

definition Load ::
  "(bytes \<Rightarrow> read_result) \<Rightarrow> (bytes \<Rightarrow> Config \<Rightarrow> Config option) \<Rightarrow> (bytes \<Rightarrow> bytes option) \<Rightarrow> bytes \<Rightarrow> config_error + Config" where
  "Load readFile yaml env path =
     and_then
       (if path = [] then Inr Default
        else case readFile path of
               FileData data \<Rightarrow> (case yaml data Default of None \<Rightarrow> Inl (ParseConfig path) | Some cfg \<Rightarrow> Inr cfg)
             | NotExist \<Rightarrow> Inr Default
             | ReadError \<Rightarrow> Inl (ReadConfig path))
       (applyEnv env)"

text \<open>\<^verbatim>\<open>Duration.UnmarshalYAML\<close>; the raw value is what the YAML library decodes the node to.\<close>

datatype yaml_raw = RawInt int | RawString bytes | RawOther

definition UnmarshalYAML :: "yaml_raw option \<Rightarrow> config_error + int" where
  "UnmarshalYAML node =
     (case node of
        None \<Rightarrow> Inl DecodeError
      | Some (RawInt n) \<Rightarrow> Inr n
      | Some (RawString v) \<Rightarrow> (case ParseDuration v of None \<Rightarrow> Inl (InvalidDuration v) | Some d \<Rightarrow> Inr d)
      | Some RawOther \<Rightarrow> Inl InvalidDurationValue)"


section \<open>Printed numbers parse back\<close>

lemma digit_byte [simp]:
  assumes "n < 10"
  shows "is_digit (of_nat (48 + n))" "digit_val (of_nat (48 + n)) = n"
proof -
  have "unat (of_nat (48 + n) :: u8) = 48 + n" using assms by (simp only: unat_of_nat) simp
  then show "is_digit (of_nat (48 + n))" "digit_val (of_nat (48 + n)) = n"
    using assms by (simp_all add: is_digit_def digit_val_def word_le_nat_alt)
qed

lemma digits_of_digits [simp]: "list_all is_digit (digits_of n)"
proof (induction n rule: less_induct)
  case (less n)
  then show ?case
    by (cases "n < 10") (simp_all add: digits_of_small digits_of_large del: of_nat_add)
qed

lemma digits_val_append [simp]: "digits_val a (s @ t) = digits_val (digits_val a s) t"
  by (simp add: digits_val_def)

lemma digits_val_digits_of [simp]: "digits_val 0 (digits_of n) = n"
proof (induction n rule: less_induct)
  case (less n)
  show ?case
  proof (cases "n < 10")
    case False
    then have "digits_val 0 (digits_of (n div 10)) = n div 10" by (intro less.IH) simp
    then show ?thesis
      using False by (simp add: digits_of_large del: of_nat_add) (simp add: digits_val_def del: of_nat_add)
  qed (simp add: digits_of_small digits_val_def del: of_nat_add)
qed

lemma ParseUint_digits_of [simp]: "ParseUint b (digits_of n) = (if n < 2 ^ b then Some n else None)"
  by (simp add: ParseUint_def Let_def)

text \<open>A digit is neither a sign nor a point.\<close>

lemma is_digit_not_sign [simp]: "\<not> is_digit 45" "\<not> is_digit 43" "\<not> is_digit 46"
  by (simp_all add: is_digit_def)

lemma digits_of_Cons: "\<exists>c s. digits_of n = c # s \<and> is_digit c \<and> c \<noteq> 45 \<and> c \<noteq> 43 \<and> c \<noteq> 46"
proof -
  obtain c s where cs: "digits_of n = c # s" by (cases "digits_of n") simp_all
  then have "is_digit c" using digits_of_digits [of n] by simp
  then have "c \<noteq> 45" "c \<noteq> 43" "c \<noteq> 46" using is_digit_not_sign by metis+
  with cs \<open>is_digit c\<close> show ?thesis by blast
qed

lemma Atoi_digits_of: "n < 2 ^ 63 \<Longrightarrow> Atoi (digits_of n) = Some (int n)"
proof -
  assume n: "n < 2 ^ 63"
  obtain c s where cs: "digits_of n = c # s" "c \<noteq> 45" "c \<noteq> 43" using digits_of_Cons by blast
  have "ParseUint 64 (c # s) = Some n" using n by (simp flip: cs(1))
  then show ?thesis using n cs by simp
qed

theorem Atoi_itoa: "in_int64 n \<Longrightarrow> Atoi (itoa n) = Some n"
proof (cases "n < 0")
  case True
  moreover assume "in_int64 n"
  ultimately have "nat (- n) \<le> 2 ^ 63" "nat (- n) < 2 ^ 64" by (simp_all add: in_int64_def nat_le_iff nat_less_iff)
  with True show ?thesis by (simp add: itoa_def)
next
  case False
  moreover assume "in_int64 n"
  ultimately show ?thesis by (simp add: itoa_def Atoi_digits_of in_int64_def nat_less_iff)
qed

section \<open>Printed durations parse back\<close>

lemma digits_val_grows: "a \<le> digits_val a s"
proof (induction s arbitrary: a)
  case (Cons c s)
  have "a \<le> 10 * a + digit_val c" by simp
  also have "\<dots> \<le> digits_val (10 * a + digit_val c) s" by (rule Cons.IH)
  finally show ?case by (simp add: digits_val_def)
qed (simp add: digits_val_def)

lemma leadingInt_digits:
  assumes "list_all is_digit ds" and "digits_val x ds \<le> 2 ^ 63" and "t = [] \<or> \<not> is_digit (hd t)"
  shows "leadingInt x (ds @ t) = Some (digits_val x ds, t)"
  using assms
proof (induction ds arbitrary: x)
  case Nil
  then show ?case by (cases t) (simp_all add: digits_val_def)
next
  case (Cons c ds)
  have step: "digits_val x (c # ds) = digits_val (10 * x + digit_val c) ds" by (simp add: digits_val_def)
  then have "10 * x + digit_val c \<le> 2 ^ 63" using Cons.prems(2) digits_val_grows [of "10 * x + digit_val c" ds] by simp
  then show ?case using Cons.IH [of "10 * x + digit_val c"] Cons.prems step by simp
qed

lemma ns_unit: "str ''ns'' = [110, 115]"
  by (simp add: str_def)

lemma duration_unit_ns:
  assumes "n \<le> 2 ^ 63"
  shows "duration_unit (digits_of n @ str ''ns'') = Some (n, [])"
proof -
  obtain c s where cs: "digits_of n = c # s" "is_digit c" using digits_of_Cons by blast
  have ns: "\<not> is_digit 110" "unit_chars 110" "unit_chars 115" by (simp_all add: unit_chars_def is_digit_def)
  have "leadingInt 0 (digits_of n @ [110, 115]) = Some (n, [110, 115])"
    using leadingInt_digits [of "digits_of n" 0 "[110, 115]"] assms ns by simp
  moreover have "fraction_part [110, 115] = (0, 1, [110, 115], False)" by (simp add: fraction_part_def)
  moreover have "map_of unitMap [110, 115] = Some 1" by (simp add: unitMap_def ns_unit)
  moreover have "unit_value n 0 1 1 = Some n" using assms by (simp add: unit_value_def)
  ultimately show ?thesis using cs ns by (simp add: duration_unit_def ns_unit)
qed

lemma duration_loop_ns: "n \<le> 2 ^ 63 \<Longrightarrow> duration_loop 0 (digits_of n @ str ''ns'') = Some n"
  by (subst duration_loop.simps)
    (simp add: duration_unit_ns Let_def ns_unit [symmetric] duration_loop.simps [of _ "[]"])

theorem ParseDuration_ns:
  assumes "in_int64 d"
  shows "ParseDuration (itoa d @ str ''ns'') = Some d"
proof (cases "d < 0")
  case True
  then have "nat (- d) \<le> 2 ^ 63" using assms by (simp add: in_int64_def nat_le_iff)
  then show ?thesis using True duration_loop_ns [of "nat (- d)"]
    by (simp add: ParseDuration_def itoa_def Let_def append_eq_Cons_conv ns_unit)
next
  case False
  then have n: "nat d < 2 ^ 63" using assms by (simp add: in_int64_def nat_less_iff)
  obtain c s where cs: "digits_of (nat d) = c # s" "c \<noteq> 45" "c \<noteq> 43" using digits_of_Cons by blast
  then show ?thesis using False n duration_loop_ns [of "nat d"]
    by (simp add: ParseDuration_def itoa_def Let_def ns_unit)
qed


section \<open>The ranges of what the parsers return\<close>

lemma ParseUint_bound: "ParseUint b s = Some n \<Longrightarrow> n < 2 ^ b"
  by (auto simp: ParseUint_def Let_def split: if_splits)

lemma Atoi_range: "Atoi s = Some n \<Longrightarrow> in_int64 n"
  by (cases s) (auto simp: in_int64_def split: if_splits option.splits)

lemma duration_loop_bound: "duration_loop d s = Some n \<Longrightarrow> d \<le> 2 ^ 63 \<Longrightarrow> n \<le> 2 ^ 63"
proof (induction d s rule: duration_loop.induct)
  case (1 d s)
  show ?case
  proof (cases "s = []")
    case False
    with "1.prems"(1) obtain v r where u: "duration_unit s = Some (v, r)"
      by (auto simp: duration_loop.simps [of d s] split: option.splits)
    with False "1.prems"(1) have "\<not> 2 ^ 63 < (d + v) mod 2 ^ 64" "duration_loop ((d + v) mod 2 ^ 64) r = Some n"
      by (auto simp: duration_loop.simps [of d s] Let_def split: if_splits)
    then show ?thesis using "1.IH" [OF False u] by simp
  qed (use "1.prems" in \<open>simp add: duration_loop.simps\<close>)
qed

lemma ParseDuration_range: "ParseDuration s = Some d \<Longrightarrow> in_int64 d"
proof -
  assume d: "ParseDuration s = Some d"
  define t where "t = (if s \<noteq> [] \<and> (hd s = 45 \<or> hd s = 43) then tl s else s)"
  have "\<And>n. duration_loop 0 t = Some n \<Longrightarrow> n \<le> 2 ^ 63" using duration_loop_bound by simp
  with d show ?thesis
    by (auto simp: ParseDuration_def Let_def in_int64_def simp flip: t_def split: if_splits option.splits)
qed

text \<open>The integers of a configuration fit Go's 64-bit \<^verbatim>\<open>int\<close>.\<close>

definition config_ok :: "Config \<Rightarrow> bool" where
  "config_ok c \<longleftrightarrow> in_int64 (Port c) \<and> in_int64 (MaxConn c) \<and> in_int64 (WriteQueueSize c) \<and> in_int64 (WriteTimeout c)"

section \<open>What the environment layer computes\<close>

text \<open>The variables in the order of the code, each with the test its value has to pass.\<close>

definition env_checks :: "(bytes \<times> (bytes \<Rightarrow> bool)) list" where
  "env_checks =
     [(str ''KINZ_PORT'', \<lambda>v. Atoi v \<noteq> None), (str ''KINZ_MAXCONN'', \<lambda>v. Atoi v \<noteq> None),
      (str ''KINZ_MAXPACKETSIZE'', \<lambda>v. ParseUint 32 v \<noteq> None), (str ''KINZ_WORKERPOOLSIZE'', \<lambda>v. ParseUint 32 v \<noteq> None),
      (str ''KINZ_MAXWORKERTASKLEN'', \<lambda>v. ParseUint 32 v \<noteq> None), (str ''KINZ_WRITEQUEUESIZE'', \<lambda>v. Atoi v \<noteq> None),
      (str ''KINZ_WRITETIMEOUT'', \<lambda>v. ParseDuration v \<noteq> None)]"

definition env_errors :: "(bytes \<Rightarrow> bytes option) \<Rightarrow> config_error list" where
  "env_errors env =
     concat (map (\<lambda>(k, ok). case env k of None \<Rightarrow> [] | Some v \<Rightarrow> if ok v then [] else [InvalidEnv k v]) env_checks)"

definition env_value :: "(bytes \<Rightarrow> bytes option) \<Rightarrow> bytes \<Rightarrow> (bytes \<Rightarrow> 'a option) \<Rightarrow> 'a \<Rightarrow> 'a" where
  "env_value env key parse base = (case env key of None \<Rightarrow> base | Some v \<Rightarrow> the (parse v))"

definition overlay :: "(bytes \<Rightarrow> bytes option) \<Rightarrow> Config \<Rightarrow> Config" where
  "overlay env c =
     \<lparr>Name = env_value env (str ''KINZ_NAME'') Some (Name c), Host = env_value env (str ''KINZ_HOST'') Some (Host c),
      Port = env_value env (str ''KINZ_PORT'') Atoi (Port c), MaxConn = env_value env (str ''KINZ_MAXCONN'') Atoi (MaxConn c),
      MaxPacketSize = env_value env (str ''KINZ_MAXPACKETSIZE'') (map_option of_nat \<circ> ParseUint 32) (MaxPacketSize c),
      WorkerPoolSize = env_value env (str ''KINZ_WORKERPOOLSIZE'') (map_option of_nat \<circ> ParseUint 32) (WorkerPoolSize c),
      MaxWorkerTaskLen = env_value env (str ''KINZ_MAXWORKERTASKLEN'') (map_option of_nat \<circ> ParseUint 32) (MaxWorkerTaskLen c),
      WriteQueueSize = env_value env (str ''KINZ_WRITEQUEUESIZE'') Atoi (WriteQueueSize c),
      WriteTimeout = env_value env (str ''KINZ_WRITETIMEOUT'') ParseDuration (WriteTimeout c)\<rparr>"

text \<open>Each block either reports its variable or sets its field; the first report is the result.\<close>

definition key_errors :: "(bytes \<Rightarrow> bytes option) \<Rightarrow> bytes \<Rightarrow> (bytes \<Rightarrow> 'a option) \<Rightarrow> config_error list" where
  "key_errors env k parse = (case env k of None \<Rightarrow> [] | Some v \<Rightarrow> if parse v \<noteq> None then [] else [InvalidEnv k v])"

definition set_field :: "(bytes \<Rightarrow> bytes option) \<Rightarrow> bytes \<Rightarrow> (bytes \<Rightarrow> 'a option) \<Rightarrow> ('a \<Rightarrow> Config \<Rightarrow> Config) \<Rightarrow> Config \<Rightarrow> Config" where
  "set_field env k parse put c = (case env k of None \<Rightarrow> c | Some v \<Rightarrow> put (the (parse v)) c)"

definition first_error :: "config_error list \<Rightarrow> config_error + 'a \<Rightarrow> config_error + 'a" where
  "first_error es r = (case es of [] \<Rightarrow> r | e # _ \<Rightarrow> Inl e)"

lemma first_error_simps [simp]: "first_error [] r = r" "first_error (a @ b) r = first_error a (first_error b r)"
  by (simp_all add: first_error_def split: list.splits)

lemma env_block: "env_field env k parse put c = first_error (key_errors env k parse) (Inr (set_field env k parse put c))"
  by (simp add: env_field_def first_error_def key_errors_def set_field_def split: option.splits)

lemma and_then_first_error [simp]: "and_then (first_error es (Inr x)) f = first_error es (f x)"
  by (simp add: first_error_def split: list.splits)

lemma key_errors_Some [simp]: "key_errors env k Some = []"
  by (simp add: key_errors_def split: option.splits)

lemma set_fields:
  "set_field env k p (\<lambda>v c. c\<lparr>Name := v\<rparr>) c = c\<lparr>Name := env_value env k p (Name c)\<rparr>"
  "set_field env k p (\<lambda>v c. c\<lparr>Host := v\<rparr>) c = c\<lparr>Host := env_value env k p (Host c)\<rparr>"
  "set_field env k q (\<lambda>v c. c\<lparr>Port := v\<rparr>) c = c\<lparr>Port := env_value env k q (Port c)\<rparr>"
  "set_field env k q (\<lambda>v c. c\<lparr>MaxConn := v\<rparr>) c = c\<lparr>MaxConn := env_value env k q (MaxConn c)\<rparr>"
  "set_field env k q (\<lambda>v c. c\<lparr>WriteQueueSize := v\<rparr>) c = c\<lparr>WriteQueueSize := env_value env k q (WriteQueueSize c)\<rparr>"
  "set_field env k q (\<lambda>v c. c\<lparr>WriteTimeout := v\<rparr>) c = c\<lparr>WriteTimeout := env_value env k q (WriteTimeout c)\<rparr>"
  by (simp_all add: set_field_def env_value_def split: option.splits)

lemma set_uint_fields:
  assumes "key_errors env k p = []"
  shows "set_field env k p (\<lambda>v c. c\<lparr>MaxPacketSize := uint32_of v\<rparr>) c = c\<lparr>MaxPacketSize := env_value env k (map_option of_nat \<circ> p) (MaxPacketSize c)\<rparr>"
    and "set_field env k p (\<lambda>v c. c\<lparr>WorkerPoolSize := uint32_of v\<rparr>) c = c\<lparr>WorkerPoolSize := env_value env k (map_option of_nat \<circ> p) (WorkerPoolSize c)\<rparr>"
    and "set_field env k p (\<lambda>v c. c\<lparr>MaxWorkerTaskLen := uint32_of v\<rparr>) c = c\<lparr>MaxWorkerTaskLen := env_value env k (map_option of_nat \<circ> p) (MaxWorkerTaskLen c)\<rparr>"
  using assms by (auto simp: set_field_def env_value_def key_errors_def uint32_of_def split: option.splits if_splits)

lemma env_errors_keys:
  "env_errors env =
     key_errors env (str ''KINZ_PORT'') Atoi @ key_errors env (str ''KINZ_MAXCONN'') Atoi @
     key_errors env (str ''KINZ_MAXPACKETSIZE'') (ParseUint 32) @ key_errors env (str ''KINZ_WORKERPOOLSIZE'') (ParseUint 32) @
     key_errors env (str ''KINZ_MAXWORKERTASKLEN'') (ParseUint 32) @ key_errors env (str ''KINZ_WRITEQUEUESIZE'') Atoi @
     key_errors env (str ''KINZ_WRITETIMEOUT'') ParseDuration"
  by (simp only: env_errors_def env_checks_def list.map prod.case concat.simps append_Nil2 key_errors_def)

text \<open>The blocks in sequence: the errors in their order, and with none of them every field set.\<close>

lemma applyEnv_errors: "\<exists>c'. applyEnv env c = first_error (env_errors env) (Inr c')"
  unfolding applyEnv_def env_block and_then_first_error env_errors_keys first_error_simps key_errors_Some and_then.simps
  by (rule exI, rule refl)

lemma applyEnv_fields:
  assumes "env_errors env = []"
  shows "applyEnv env c = Inr (overlay env c)"
proof -
  from assms have none:
    "key_errors env (str ''KINZ_PORT'') Atoi = []" "key_errors env (str ''KINZ_MAXCONN'') Atoi = []"
    "key_errors env (str ''KINZ_MAXPACKETSIZE'') (ParseUint 32) = []"
    "key_errors env (str ''KINZ_WORKERPOOLSIZE'') (ParseUint 32) = []"
    "key_errors env (str ''KINZ_MAXWORKERTASKLEN'') (ParseUint 32) = []"
    "key_errors env (str ''KINZ_WRITEQUEUESIZE'') Atoi = []"
    "key_errors env (str ''KINZ_WRITETIMEOUT'') ParseDuration = []"
    by (simp_all only: env_errors_keys append_is_Nil_conv)
  note uints = set_uint_fields(1) [OF none(3)] set_uint_fields(2) [OF none(4)] set_uint_fields(3) [OF none(5)]
  have "applyEnv env c = Inr
     (c\<lparr>Name := Name (overlay env c), Host := Host (overlay env c), Port := Port (overlay env c), MaxConn := MaxConn (overlay env c),
        MaxPacketSize := MaxPacketSize (overlay env c), WorkerPoolSize := WorkerPoolSize (overlay env c),
        MaxWorkerTaskLen := MaxWorkerTaskLen (overlay env c), WriteQueueSize := WriteQueueSize (overlay env c),
        WriteTimeout := WriteTimeout (overlay env c)\<rparr>)"
    by (simp add: applyEnv_def env_block none set_fields uints overlay_def cong del: option.case_cong)
  then show ?thesis by simp
qed

lemma applyEnv_overlay: "applyEnv env c = first_error (env_errors env) (Inr (overlay env c))"
  using applyEnv_errors [of env c] applyEnv_fields [of env c] by (cases "env_errors env") (auto simp: first_error_def)

text \<open>A configuration printed into the variables, the timeout in nanoseconds.\<close>

definition env_of :: "Config \<Rightarrow> bytes \<Rightarrow> bytes option" where
  "env_of c = map_of
     [(str ''KINZ_NAME'', Name c), (str ''KINZ_HOST'', Host c), (str ''KINZ_PORT'', itoa (Port c)),
      (str ''KINZ_MAXCONN'', itoa (MaxConn c)), (str ''KINZ_MAXPACKETSIZE'', digits_of (unat (MaxPacketSize c))),
      (str ''KINZ_WORKERPOOLSIZE'', digits_of (unat (WorkerPoolSize c))),
      (str ''KINZ_MAXWORKERTASKLEN'', digits_of (unat (MaxWorkerTaskLen c))),
      (str ''KINZ_WRITEQUEUESIZE'', itoa (WriteQueueSize c)), (str ''KINZ_WRITETIMEOUT'', itoa (WriteTimeout c) @ str ''ns'')]"

lemma env_of_keys [simp]:
  "env_of c (str ''KINZ_NAME'') = Some (Name c)" "env_of c (str ''KINZ_HOST'') = Some (Host c)"
  "env_of c (str ''KINZ_PORT'') = Some (itoa (Port c))" "env_of c (str ''KINZ_MAXCONN'') = Some (itoa (MaxConn c))"
  "env_of c (str ''KINZ_MAXPACKETSIZE'') = Some (digits_of (unat (MaxPacketSize c)))"
  "env_of c (str ''KINZ_WORKERPOOLSIZE'') = Some (digits_of (unat (WorkerPoolSize c)))"
  "env_of c (str ''KINZ_MAXWORKERTASKLEN'') = Some (digits_of (unat (MaxWorkerTaskLen c)))"
  "env_of c (str ''KINZ_WRITEQUEUESIZE'') = Some (itoa (WriteQueueSize c))"
  "env_of c (str ''KINZ_WRITETIMEOUT'') = Some (itoa (WriteTimeout c) @ str ''ns'')"
  by (simp_all add: env_of_def str_def)

lemma ParseUint_u32 [simp]: "ParseUint 32 (digits_of (unat (w :: u32))) = Some (unat w)"
  using unsigned_less [of w] by simp

lemma env_of_errors: "config_ok c \<Longrightarrow> env_errors (env_of c) = []"
  by (simp add: env_errors_keys key_errors_def config_ok_def Atoi_itoa ParseDuration_ns del: ParseUint_digits_of)

lemma env_of_overlay: "config_ok c \<Longrightarrow> overlay (env_of c) b = c"
  by (simp add: overlay_def env_value_def config_ok_def Atoi_itoa ParseDuration_ns del: ParseUint_digits_of)

lemma env_value_range:
  assumes "in_int64 b" and "\<And>v n. parse v = Some n \<Longrightarrow> in_int64 n" and "key_errors env k parse = []"
  shows "in_int64 (env_value env k parse b)"
  using assms by (auto simp: env_value_def key_errors_def split: option.splits if_splits)

section \<open>Properties\<close>

text \<open>
  C29: Loading is the chain the package comment promises. The result is the defaults, overridden by the file when a
  path is given and the file is there (a missing file is not an error), overridden field by field by the variables
  that are set; an unreadable file and an invalid file are errors before any variable is looked at, and of several
  invalid variables the first in the order of the code is reported, with its name and value.
\<close>

theorem load_chain:
  "Load readFile yaml env path =
     (case (if path = [] then NotExist else readFile path) of
        ReadError \<Rightarrow> Inl (ReadConfig path)
      | NotExist \<Rightarrow> (case env_errors env of e # _ \<Rightarrow> Inl e | [] \<Rightarrow> Inr (overlay env Default))
      | FileData d \<Rightarrow>
          (case yaml d Default of
             None \<Rightarrow> Inl (ParseConfig path)
           | Some file \<Rightarrow> (case env_errors env of e # _ \<Rightarrow> Inl e | [] \<Rightarrow> Inr (overlay env file))))"
  by (simp add: Load_def applyEnv_overlay first_error_def split: read_result.splits option.splits list.splits)

text \<open>
  C30: Every configuration whose integers fit Go's \<^verbatim>\<open>int\<close> can be given through the environment: with its fields
  printed in decimal, and the timeout in nanoseconds, the environment layer rebuilds exactly it over any base, and
  the same timeout text in a YAML file decodes to the same duration.
\<close>

theorem env_round_trip:
  assumes "config_ok c"
  shows "applyEnv (env_of c) b = Inr c \<and>
    UnmarshalYAML (Some (RawString (itoa (WriteTimeout c) @ str ''ns''))) = Inr (WriteTimeout c)"
  using assms by (simp add: applyEnv_overlay env_of_errors env_of_overlay UnmarshalYAML_def ParseDuration_ns config_ok_def)

theorem env_round_trip_witness:
  "config_ok (Default\<lparr>Port := -1\<rparr>) \<and> applyEnv (env_of (Default\<lparr>Port := -1\<rparr>)) Default = Inr (Default\<lparr>Port := -1\<rparr>)"
proof -
  have "config_ok (Default\<lparr>Port := -1\<rparr>)" by (simp add: config_ok_def Default_def in_int64_def)
  then show ?thesis using env_round_trip by blast
qed

end
