(* ===== verification/Kinz_ClientState.thy ===== *)
theory Kinz_ClientState
  imports Kinz_Client Kinz_Host Kinz_Config
begin

text \<open>
  The client of \<^verbatim>\<open>src/knet/client.go\<close> as a whole: its options and constructor, the fields under \<^verbatim>\<open>stateMu\<close> with their
  setters, the hooks, the heartbeat template and \<^verbatim>\<open>Restart\<close>, with the connections of \<^verbatim>\<open>Kinz_Connection\<close> and the pool of
  \<^verbatim>\<open>Kinz_Workers\<close> themselves. Setters, and calls on a connection that \<^verbatim>\<open>Conn\<close> returned, may come between any two steps of the
  goroutines.
\<close>

section \<open>State\<close>

text \<open>A goroutine of the client that is inside \<^verbatim>\<open>Connection.Start\<close>, or inside its call number \<open>n\<close> of \<^verbatim>\<open>Connection.Stop\<close>.\<close>

datatype inner = InStart u64 | InStop u64 nat

text \<open>
  \<open>life\<close> are the fields under \<^verbatim>\<open>mu\<close> and the goroutines; its lists of running and closing connections are kept for the record
  only, no step reads them. \<open>conns\<close> is the store of connections. \<open>inside\<close> says which goroutine is inside a method of a
  connection; while it is inside \<^verbatim>\<open>Start\<close>, \<open>life\<close> has where it goes on afterwards. \<open>poolReady\<close> are the calls of \<^verbatim>\<open>Start\<close> that have
  started the worker pool, \<open>restarts\<close> the calls of \<^verbatim>\<open>Restart\<close> that have still to call \<^verbatim>\<open>Start\<close>, each with the call of \<^verbatim>\<open>Stop\<close> it
  waits for. The last fields record history: the codec a connection was given, and the hooks called.
\<close>

record ('c, 'v, 'e, 'f, 'h) Client =
  cfg :: Config
  name :: bytes
  codec :: 'c
  tlsConfig :: bool
  pool :: "('v, 'e) pool"
  hbTemplate :: "('v, 'e, 'f) HeartBeatChecker option"
  reconnect :: reconnectPolicy
  connsActive :: int
  connsClosed :: nat
  onConnStart :: "'h option"
  onConnStop :: "'h option"
  life :: ClientLife
  conns :: "u64 \<rightharpoonup> ('c, 'v, 'e, 'f) Connection"
  inside :: "nat \<rightharpoonup> inner"
  poolReady :: "nat list"
  restarts :: "nat option list"
  cloned :: "u64 \<rightharpoonup> 'c"
  called :: "(hook \<times> 'h \<times> u64) list"

section \<open>Construction\<close>

datatype 'c client_option = WithCodecClient "'c option" | WithNameClient bytes | ReconnectOption int int rat | WithTLSClient bool

record 'c client_setup =
  setupName :: bytes
  setupCodec :: "'c option"
  setupReconnect :: reconnectPolicy
  setupTLS :: bool

fun apply_client_option :: "'c client_option \<Rightarrow> 'c client_setup \<Rightarrow> 'c client_setup" where
  "apply_client_option (WithCodecClient c) s = s\<lparr>setupCodec := c\<rparr>"
| "apply_client_option (WithNameClient n) s = s\<lparr>setupName := n\<rparr>"
| "apply_client_option (ReconnectOption i mx mul) s = s\<lparr>setupReconnect := WithReconnect i mx mul (setupReconnect s)\<rparr>"
| "apply_client_option (WithTLSClient t) s = s\<lparr>setupTLS := t\<rparr>"

text \<open>\<open>tlv\<close> is a \<^verbatim>\<open>TLVPack\<close> as an \<^verbatim>\<open>ICodec\<close>.\<close>

definition NewClient :: "(TLVPack \<Rightarrow> 'c) \<Rightarrow> bytes \<Rightarrow> int \<Rightarrow> 'c client_option list \<Rightarrow> ('c, 'v, 'e, 'f, 'h) Client" where
  "NewClient tlv ip port opts =
     (let c = Default\<lparr>Host := ip, Port := port\<rparr>;
          st = fold apply_client_option opts
            \<lparr>setupName = str ''KinzClient'', setupCodec = None, setupReconnect = defaultReconnect, setupTLS = False\<rparr>
      in \<lparr>cfg = c, name = setupName st,
          codec = (case setupCodec st of None \<Rightarrow> tlv (NewTLVPackWithOrder (Some LittleEndian) (MaxPacketSize c)) | Some cod \<Rightarrow> cod),
          tlsConfig = setupTLS st,
          pool = init_pool (SetMetrics (Some \<lparr>panics = 0, duration = 0, queueFull = 0\<rparr>) (NewMsgHandler (WorkerPoolSize c) (MaxWorkerTaskLen c))),
          hbTemplate = None, reconnect = setupReconnect st, connsActive = 0, connsClosed = 0, onConnStart = None, onConnStop = None,
          life = new_life, conns = Map.empty, inside = Map.empty, poolReady = [], restarts = [], cloned = Map.empty, called = []\<rparr>)"

section \<open>Calls\<close>

definition GetOnConnStart :: "('c, 'v, 'e, 'f, 'h) Client \<Rightarrow> 'h option" where [simp]:
  "GetOnConnStart c = onConnStart c"

definition GetOnConnStop :: "('c, 'v, 'e, 'f, 'h) Client \<Rightarrow> 'h option" where [simp]:
  "GetOnConnStop c = onConnStop c"

definition GetCodec :: "('c, 'v, 'e, 'f, 'h) Client \<Rightarrow> 'c" where [simp]:
  "GetCodec c = codec c"

definition GetName :: "('c, 'v, 'e, 'f, 'h) Client \<Rightarrow> bytes" where [simp]:
  "GetName c = name c"

definition GetHeartBeat :: "('c, 'v, 'e, 'f, 'h) Client \<Rightarrow> ('v, 'e, 'f) HeartBeatChecker option" where [simp]:
  "GetHeartBeat c = hbTemplate c"

definition SetOnConnStart :: "'h option \<Rightarrow> ('c, 'v, 'e, 'f, 'h) Client \<Rightarrow> ('c, 'v, 'e, 'f, 'h) Client" where
  "SetOnConnStart f c = c\<lparr>onConnStart := f\<rparr>"

definition SetOnConnStop :: "'h option \<Rightarrow> ('c, 'v, 'e, 'f, 'h) Client \<Rightarrow> ('c, 'v, 'e, 'f, 'h) Client" where
  "SetOnConnStop f c = c\<lparr>onConnStop := f\<rparr>"

definition SetCodec :: "'c \<Rightarrow> ('c, 'v, 'e, 'f, 'h) Client \<Rightarrow> ('c, 'v, 'e, 'f, 'h) Client" where
  "SetCodec cod c = c\<lparr>codec := cod\<rparr>"

definition SetName :: "bytes \<Rightarrow> ('c, 'v, 'e, 'f, 'h) Client \<Rightarrow> ('c, 'v, 'e, 'f, 'h) Client" where
  "SetName n c = c\<lparr>name := n\<rparr>"

definition Client_AddRouterSlices ::
  "u32 \<Rightarrow> ('v, 'e) handler list \<Rightarrow> ('c, 'v, 'e, 'f, 'h) Client \<Rightarrow> (go_error + unit) \<times> ('c, 'v, 'e, 'f, 'h) Client" where
  "Client_AddRouterSlices i hs c = (let (r, m) = AddRouterSlices i hs (mh (pool c)) in (r, c\<lparr>pool := (pool c)\<lparr>mh := m\<rparr>\<rparr>))"

definition StartHeartBeatWithOption ::
  "int \<Rightarrow> ('v, 'e, 'f) HeartBeatOption option \<Rightarrow> ('c, 'v, 'e, 'f, 'h) Client \<Rightarrow> ('c, 'v, 'e, 'f, 'h) Client" where
  "StartHeartBeatWithOption ival opt c = c\<lparr>hbTemplate := Some (client_template ival opt)\<rparr>"

definition StartHeartBeat :: "int \<Rightarrow> ('c, 'v, 'e, 'f, 'h) Client \<Rightarrow> ('c, 'v, 'e, 'f, 'h) Client" where
  "StartHeartBeat ival c = StartHeartBeatWithOption ival None c"

definition Conn :: "('c, 'v, 'e, 'f, 'h) Client \<Rightarrow> u64 option" where
  "Conn c = curConn (life c)"

text \<open>The host of a connection: the hooks, and the signal of a lost connection, which is dropped when the channel is full.\<close>

definition CallOnConnStart :: "u64 \<Rightarrow> ('c, 'v, 'e, 'f, 'h) Client \<Rightarrow> ('c, 'v, 'e, 'f, 'h) Client" where
  "CallOnConnStart i c = (case GetOnConnStart c of None \<Rightarrow> c | Some f \<Rightarrow> c\<lparr>called := called c @ [(OnConnStart, f, i)]\<rparr>)"

definition CallOnConnStop :: "u64 \<Rightarrow> ('c, 'v, 'e, 'f, 'h) Client \<Rightarrow> ('c, 'v, 'e, 'f, 'h) Client" where
  "CallOnConnStop i c =
     (case GetOnConnStop c of None \<Rightarrow> c | Some f \<Rightarrow> c\<lparr>called := called c @ [(OnConnStop, f, i)]\<rparr>)\<lparr>life := close_signal i (life c)\<rparr>"

text \<open>\<^verbatim>\<open>Start\<close>, \<^verbatim>\<open>Stop\<close> and \<^verbatim>\<open>Restart\<close> up to the end of their first section under the lock.\<close>

definition Client_Start :: "('c, 'v, 'e, 'f, 'h) Client \<Rightarrow> go_error option \<times> ('c, 'v, 'e, 'f, 'h) Client" where
  "Client_Start c = (let (r, l) = Start (life c) in (r, c\<lparr>life := l\<rparr>))"

definition Client_Stop :: "('c, 'v, 'e, 'f, 'h) Client \<Rightarrow> ('c, 'v, 'e, 'f, 'h) Client" where
  "Client_Stop c = c\<lparr>life := Stop (life c)\<rparr>"

definition Restart :: "('c, 'v, 'e, 'f, 'h) Client \<Rightarrow> ('c, 'v, 'e, 'f, 'h) Client" where
  "Restart c = (Client_Stop c)\<lparr>restarts := restarts c @ [if ClientLife.started (life c) then Some (length (threads (life c))) else None]\<rparr>"

definition restart_ready :: "nat option \<Rightarrow> ('c, 'v, 'e, 'f, 'h) Client \<Rightarrow> bool" where
  "restart_ready x c \<longleftrightarrow> (case x of None \<Rightarrow> True | Some j \<Rightarrow> j < length (threads (life c)) \<and> threads (life c) ! j = Finished)"

section \<open>Steps\<close>

fun call_hooks :: "u64 \<Rightarrow> hook list \<Rightarrow> ('c, 'v, 'e, 'f, 'h) Client \<Rightarrow> ('c, 'v, 'e, 'f, 'h) Client" where
  "call_hooks i [] c = c"
| "call_hooks i (OnConnStart # hs) c = call_hooks i hs (CallOnConnStart i c)"
| "call_hooks i (OnConnStop # hs) c = call_hooks i hs (CallOnConnStop i c)"

text \<open>
  The effect on the client of a step of connection \<open>i\<close> from \<open>k\<close> to \<open>k'\<close>: the record that its state was set to closed, the hooks
  it calls, what it adds to the shared metrics, and its removal from the manager.
\<close>

definition host :: "u64 \<Rightarrow> ('c, 'v, 'e, 'f) Connection \<Rightarrow> ('c, 'v, 'e, 'f) Connection \<Rightarrow> ('c, 'v, 'e, 'f, 'h) Client \<Rightarrow> ('c, 'v, 'e, 'f, 'h) Client" where
  "host i k k' c =
     (let c1 = (if cstate k' = stateClosed \<and> cstate k \<noteq> stateClosed then c\<lparr>life := close_begin i (life c)\<rparr> else c);
          c2 = call_hooks i (drop (length (hooks k)) (hooks k')) c1
      in c2\<lparr>conns := (conns c2)(i \<mapsto> k'),
            connsActive := connsActive c2 + (gauge_of k' - gauge_of k), connsClosed := connsClosed c2 + (closed_of k' - closed_of k),
            life := if removals k' = removals k then life c2 else close_end i (life c2)\<rparr>)"

text \<open>The connection that a goroutine is about to start, or about to stop and where it goes on after that.\<close>

definition start_of :: "thread \<Rightarrow> u64 option" where
  "start_of t = (case dial_of t of Some (DialStart i) \<Rightarrow> Some i | _ \<Rightarrow> None)"

fun stop_of :: "thread \<Rightarrow> (u64 \<times> thread) option" where
  "stop_of (Stopping (StopOne i)) = Some (i, Stopping StopClear)"
| "stop_of (Stopping (StopAll (i # is))) = Some (i, Stopping (StopAll is))"
| "stop_of t = None"

text \<open>Goroutine \<open>j\<close> can act: it is not inside a method of a connection, and a \<^verbatim>\<open>Start\<close> dials only after it has started the pool.\<close>

definition acting :: "nat \<Rightarrow> thread \<Rightarrow> ('c, 'v, 'e, 'f, 'h) Client \<Rightarrow> bool" where
  "acting j t c \<longleftrightarrow> j < length (threads (life c)) \<and> threads (life c) ! j = t \<and> inside c j = None \<and> ClientLife.connID (life c) \<noteq> - 1 \<and>
     (case t of Starting k DialNet \<Rightarrow> k \<in> set (poolReady c) | _ \<Rightarrow> True)"

definition moved :: "nat \<Rightarrow> thread \<times> ClientLife \<Rightarrow> ('c, 'v, 'e, 'f, 'h) Client \<Rightarrow> ('c, 'v, 'e, 'f, 'h) Client" where
  "moved j r c = c\<lparr>life := (snd r)\<lparr>threads := (threads (snd r))[j := fst r]\<rparr>\<rparr>"

text \<open>The connection that a successful dial makes, with a clone of the codec of the moment.\<close>

definition make_conn :: "('c \<Rightarrow> 'c) \<Rightarrow> int \<Rightarrow> ('c, 'v, 'e, 'f, 'h) Client \<Rightarrow> ('c, 'v, 'e, 'f, 'h) Client outcome" where
  "make_conn cln now c =
     (let i = ClientLife.connID (life c) + 1; cod = cln (GetCodec c) in
      case NewConnection i cod (WriteQueueSize (cfg c)) (WriteTimeout (cfg c)) True now of
        Panic \<Rightarrow> Panic
      | Ret k \<Rightarrow> Ret (c\<lparr>conns := (conns c)(i \<mapsto> k), cloned := (cloned c)(i \<mapsto> cod)\<rparr>))"

text \<open>\<^verbatim>\<open>Connection.Start\<close>: the compare-and-swap, after which the goroutine is inside if it won, and the following actions.\<close>

definition start_enter :: "nat \<Rightarrow> u64 \<Rightarrow> ('c, 'v, 'e, 'f) Connection \<Rightarrow> ('c, 'v, 'e, 'f, 'h) Client \<Rightarrow> ('c, 'v, 'e, 'f, 'h) Client" where
  "start_enter j i k c =
     (case start_action (GetHeartBeat c) StartCas k of
        None \<Rightarrow> c
      | Some k' \<Rightarrow> c\<lparr>conns := (conns c)(i \<mapsto> k'), inside := (inside c)(j \<mapsto> InStart i)\<rparr>)"

definition start_next :: "nat \<Rightarrow> u64 \<Rightarrow> ('c, 'v, 'e, 'f) Connection \<Rightarrow> ('c, 'v, 'e, 'f) Connection \<Rightarrow> ('c, 'v, 'e, 'f, 'h) Client \<Rightarrow> ('c, 'v, 'e, 'f, 'h) Client" where
  "start_next j i k k' c =
     (let c' = host i k k' c in if spc k' = StartReturned then c'\<lparr>inside := (inside c)(j := None)\<rparr> else c')"

definition stop_enter :: "nat \<Rightarrow> u64 \<Rightarrow> ('c, 'v, 'e, 'f) Connection \<Rightarrow> ('c, 'v, 'e, 'f, 'h) Client \<Rightarrow> ('c, 'v, 'e, 'f, 'h) Client" where
  "stop_enter j i k c = c\<lparr>conns := (conns c)(i \<mapsto> stop_call k), inside := (inside c)(j \<mapsto> InStop i (length (stops k)))\<rparr>"

text \<open>The last action of \<^verbatim>\<open>Stop\<close> stops the worker pool.\<close>

definition end_stop :: "thread \<Rightarrow> ('c, 'v, 'e, 'f, 'h) Client \<Rightarrow> ('c, 'v, 'e, 'f, 'h) Client" where
  "end_stop t c = (if t = Stopping (StopAll []) then c\<lparr>pool := (pool c)\<lparr>mh := StopWorkerPool (mh (pool c))\<rparr>\<rparr> else c)"

inductive client_call :: "('c, 'v, 'e, 'f, 'h) Client \<Rightarrow> ('c, 'v, 'e, 'f, 'h) Client \<Rightarrow> bool" where
  on_start: "client_call c (SetOnConnStart f c)"
| on_stop: "client_call c (SetOnConnStop f c)"
| codec: "client_call c (SetCodec cod c)"
| name: "client_call c (SetName n c)"
| router: "client_call c (snd (Client_AddRouterSlices i hs c))"
| heartbeat: "client_call c (StartHeartBeatWithOption ival opt c)"
| start: "client_call c (snd (Client_Start c))"
| stop: "client_call c (Client_Stop c)"
| restart: "client_call c (Restart c)"

text \<open>
  Everything together: calls; the start of the pool by \<^verbatim>\<open>Client.Start\<close>; steps of the goroutines, where a dial makes a connection
  and \<^verbatim>\<open>Connection.Start\<close> and \<^verbatim>\<open>Connection.Stop\<close> take several steps; steps of the connections, whose readers wait inside the pool;
  and the pool.
\<close>

inductive client_run ::
  "('c \<Rightarrow> bytes \<Rightarrow> Message list \<times> go_error option \<times> 'c) \<Rightarrow> ('c \<Rightarrow> Message \<Rightarrow> go_error + bytes) \<Rightarrow> ('c \<Rightarrow> 'c) \<Rightarrow>
   ('c, 'v, 'e, 'f, 'h) Client \<Rightarrow> ('c, 'v, 'e, 'f, 'h) Client \<Rightarrow> bool" for dec pack cln where
  call: "client_call c c' \<Longrightarrow> client_run dec pack cln c c'"
| pool: "Starting n DialNet \<in> set (threads (life c)) \<Longrightarrow> n \<notin> set (poolReady c) \<Longrightarrow>
    client_run dec pack cln c (c\<lparr>pool := start_pool (pool c), poolReady := n # poolReady c\<rparr>)"
| dialled: "acting j t c \<Longrightarrow> dial_of t = Some DialNet \<Longrightarrow> thread_step (True, e) t (life c) = Some r \<Longrightarrow> make_conn cln now c = Ret c1 \<Longrightarrow>
    client_run dec pack cln c (moved j r c1)"
| thread: "acting j t c \<Longrightarrow> start_of t = None \<Longrightarrow> stop_of t = None \<Longrightarrow> dial_of t = Some DialNet \<longrightarrow> \<not> fst b \<Longrightarrow>
    thread_step b t (life c) = Some r \<Longrightarrow> client_run dec pack cln c (end_stop t (moved j r c))"
| start_enter: "acting j t c \<Longrightarrow> start_of t = Some i \<Longrightarrow> conns c i = Some k \<Longrightarrow> thread_step b t (life c) = Some r \<Longrightarrow>
    client_run dec pack cln c (start_enter j i k (moved j r c))"
| start_next: "inside c j = Some (InStart i) \<Longrightarrow> conns c i = Some k \<Longrightarrow> start_action (GetHeartBeat c) (spc k) k = Some k' \<Longrightarrow>
    client_run dec pack cln c (start_next j i k k' c)"
| stop_enter: "acting j t c \<Longrightarrow> stop_of t = Some (i, t') \<Longrightarrow> conns c i = Some k \<Longrightarrow> client_run dec pack cln c (stop_enter j i k c)"
| stop_return: "inside c j = Some (InStop i n) \<Longrightarrow> stop_of (threads (life c) ! j) = Some (i, t') \<Longrightarrow> conns c i = Some k \<Longrightarrow>
    stops k ! n = StopRet b w \<Longrightarrow> ClientLife.connID (life c) \<noteq> - 1 \<Longrightarrow> client_run dec pack cln c ((moved j (t', life c) c)\<lparr>inside := (inside c)(j := None)\<rparr>)"
| handoff: "i \<in> set (published (life c)) \<Longrightarrow> conns c i = Some k \<Longrightarrow> rd k = Dispatching (m # ms) \<Longrightarrow> i \<notin> busy (pool c) \<Longrightarrow>
    client_run dec pack cln c ((host i k (dispatch_action (m # ms) k) c)\<lparr>pool := check_send (NewRequest i (Some m)) (pool c)\<rparr>)"
| other: "i \<in> set (published (life c)) \<Longrightarrow> conns c i = Some k \<Longrightarrow> conn_step dec pack k k' \<Longrightarrow> spc k' = spc k \<Longrightarrow>
    dispatched k' = dispatched k \<Longrightarrow> rd k' = rd k \<or> i \<notin> busy (pool c) \<Longrightarrow> client_run dec pack cln c (host i k k' c)"
| serve: "pool_serve (pool c) p \<Longrightarrow> client_run dec pack cln c (c\<lparr>pool := p\<rparr>)"
| restarted: "x \<in> set (restarts c) \<Longrightarrow> restart_ready x c \<Longrightarrow>
    client_run dec pack cln c ((snd (Client_Start c))\<lparr>restarts := remove1 x (restarts c)\<rparr>)"

inductive client_runs ::
  "('c \<Rightarrow> bytes \<Rightarrow> Message list \<times> go_error option \<times> 'c) \<Rightarrow> ('c \<Rightarrow> Message \<Rightarrow> go_error + bytes) \<Rightarrow> ('c \<Rightarrow> 'c) \<Rightarrow> (TLVPack \<Rightarrow> 'c) \<Rightarrow>
   ('c, 'v, 'e, 'f, 'h) Client \<Rightarrow> bool" for dec pack cln tlv where
  new: "client_runs dec pack cln tlv (NewClient tlv ip port opts)"
| step: "client_runs dec pack cln tlv c \<Longrightarrow> client_run dec pack cln c c' \<Longrightarrow> client_runs dec pack cln tlv c'"

end
