(* ===== verification/Kinz_ClientRuns.thy ===== *)
theory Kinz_ClientRuns
  imports Kinz_ClientState
begin

text \<open>
  What the interleavings of \<^verbatim>\<open>Kinz_ClientState\<close> guarantee. Every step of the client with its connections is a step of the life
  of \<^verbatim>\<open>Kinz_Client\<close> or leaves it alone, and the lists of that life agree with the states of the connections; so what holds of
  lives holds of clients.
\<close>

section \<open>What a step of a connection does to its host\<close>

text \<open>A step that neither closes the connection, nor calls \<^verbatim>\<open>CallOnConnStop\<close>, nor leaves the manager.\<close>

definition calm :: "('c, 'v, 'e, 'f) Connection \<Rightarrow> ('c, 'v, 'e, 'f) Connection \<Rightarrow> bool" where
  "calm k k' \<longleftrightarrow> cstate k' = cstate k \<and> removals k' = removals k \<and> (opc k' = OnceDone \<longleftrightarrow> opc k = OnceDone) \<and>
     (opc k' = CallStop \<longleftrightarrow> opc k = CallStop) \<and> (hooks k' = hooks k \<or> hooks k' = hooks k @ [OnConnStart])"

lemma calm_start: "start_action tpl (spc k) k = Some k' \<Longrightarrow> spc k \<noteq> StartCas \<or> spc k' = spc k \<Longrightarrow> calm k k'"
  by (elim start_actionE) (simp_all add: calm_def)

lemma calm_once:
  assumes "once_action (opc k) k = Ret k'" and "opc k \<noteq> OnceDone"
  obtains (store) "opc k = StoreClosed" "k' = k\<lparr>cstate := stateClosed, opc := CallStop\<rparr>"
  | (signal) "opc k = CallStop" "k' = k\<lparr>hooks := hooks k @ [OnConnStop], opc := TakeHb\<rparr>"
  | (unregister) "opc k = MgrRemove" "k' = k\<lparr>removals := Suc (removals k), opc := OnceDone\<rparr>"
  | (calm) "calm k k'"
proof -
  have "calm k k' \<or> opc k \<in> {StoreClosed, CallStop, MgrRemove}"
    using assms by (elim once_actionE) (simp_all add: calm_def)
  moreover have "opc k = StoreClosed \<Longrightarrow> k' = k\<lparr>cstate := stateClosed, opc := CallStop\<rparr>"
    "opc k = CallStop \<Longrightarrow> k' = k\<lparr>hooks := hooks k @ [OnConnStop], opc := TakeHb\<rparr>"
    "opc k = MgrRemove \<Longrightarrow> k' = k\<lparr>removals := Suc (removals k), opc := OnceDone\<rparr>"
    using assms(1) by simp_all
  ultimately show thesis using that by blast
qed

lemma conn_stepE:
  assumes "conn_step dec pack k k'" and "spc k \<noteq> StartCas \<or> spc k' = spc k"
  obtains (store) "opc k = StoreClosed" "k' = k\<lparr>cstate := stateClosed, opc := CallStop\<rparr>"
  | (signal) "opc k = CallStop" "k' = k\<lparr>hooks := hooks k @ [OnConnStop], opc := TakeHb\<rparr>"
  | (unregister) "opc k = MgrRemove" "k' = k\<lparr>removals := Suc (removals k), opc := OnceDone\<rparr>"
  | (calm) "calm k k'"
proof (cases "\<exists>p. once_action (opc k) k = Ret p \<and> opc k \<noteq> OnceDone \<and> k' = p")
  case True
  then show thesis using calm_once [of k k'] that by blast
next
  case False
  have "calm k k'" using assms False
  proof (induction rule: conn_step.induct)
    case (internal c c')
    then show ?case
    proof (induction rule: conn_internal.induct)
      case (start tpl c c')
      then show ?case by (intro calm_start)
    next
      case (once c c')
      then show ?case by blast
    next
      case (stop i c c')
      from stop.hyps(2) show ?case by (cases rule: stop_actionE) (simp_all add: calm_def)
    next
      case (handoff c ms)
      then show ?case by (cases ms) (simp_all add: calm_def)
    next
      case (read c b now)
      then show ?case by (simp add: calm_def read_chunk_def touch_def split: prod.splits)
    qed (simp_all add: calm_def write_ok_def count_written_def write_failed_def)
  next
    case (send_select n c sc r c')
    from send_select.hyps(2) show ?case by (cases rule: SendMsg_selectE) (simp_all add: calm_def accept_wire_def Let_def)
  qed (simp_all add: calm_def conn_defs)
  then show thesis by (rule that(4))
qed

lemma host_simps [simp]:
  "conns (host i k k' c) = (conns c)(i \<mapsto> k')" "cloned (host i k k' c) = cloned c" "pool (host i k k' c) = pool c"
  "inside (host i k k' c) = inside c" "poolReady (host i k k' c) = poolReady c" "cfg (host i k k' c) = cfg c"
  "restarts (host i k k' c) = restarts c" "hbTemplate (host i k k' c) = hbTemplate c"
proof -
  have h: "\<exists>l cs. call_hooks i hs c = c\<lparr>life := l, called := cs\<rparr>" for hs and c :: "('a, 'b, 'c, 'd, 'e) Client"
  proof (induction i hs c rule: call_hooks.induct)
    case (1 i c)
    show ?case by (intro exI [of _ "life c"] exI [of _ "called c"]) simp
  next
    case (2 i hs c)
    then show ?case by (auto simp: CallOnConnStart_def split: option.splits)
  next
    case (3 i hs c)
    then show ?case by (auto simp: CallOnConnStop_def split: option.splits)
  qed
  obtain l cs where "call_hooks i (drop (length (hooks k)) (hooks k'))
      (if cstate k' = stateClosed \<and> cstate k \<noteq> stateClosed then c\<lparr>life := close_begin i (life c)\<rparr> else c) = c\<lparr>life := l, called := cs\<rparr>"
    using h [of "drop (length (hooks k)) (hooks k')" "if cstate k' = stateClosed \<and> cstate k \<noteq> stateClosed then c\<lparr>life := close_begin i (life c)\<rparr> else c"]
    by (auto split: if_splits)
  then show "conns (host i k k' c) = (conns c)(i \<mapsto> k')" "cloned (host i k k' c) = cloned c" "pool (host i k k' c) = pool c"
    "inside (host i k k' c) = inside c" "poolReady (host i k k' c) = poolReady c" "cfg (host i k k' c) = cfg c"
    "restarts (host i k k' c) = restarts c" "hbTemplate (host i k k' c) = hbTemplate c"
    by (simp_all add: host_def Let_def)
qed

text \<open>The life of a client when one of its connections moves.\<close>

lemma host_life:
  assumes "conn_step dec pack k k'" and "spc k \<noteq> StartCas \<or> spc k' = spc k" and "conn_inv k"
  obtains (store) "opc k = StoreClosed" "k' = k\<lparr>cstate := stateClosed, opc := CallStop\<rparr>" "life (host i k k' c) = close_begin i (life c)"
  | (signal) "opc k = CallStop" "k' = k\<lparr>hooks := hooks k @ [OnConnStop], opc := TakeHb\<rparr>" "life (host i k k' c) = close_signal i (life c)"
  | (unregister) "opc k = MgrRemove" "k' = k\<lparr>removals := Suc (removals k), opc := OnceDone\<rparr>" "life (host i k k' c) = close_end i (life c)"
  | (calm) "calm k k'" "life (host i k k' c) = life c"
  using assms(1,2)
proof (cases rule: conn_stepE)
  case store
  then have "cstate k \<noteq> stateClosed" using assms(3) by (simp add: conn_inv_def life_inv_def)
  then show thesis using store by (intro that(1)) (simp_all add: host_def)
next
  case signal
  then have "cstate k = stateClosed" using assms(3) by (simp add: conn_inv_def life_inv_def)
  then show thesis using signal by (intro that(2)) (simp_all add: host_def CallOnConnStop_def split: option.split)
next
  case unregister
  then have "cstate k = stateClosed" using assms(3) by (simp add: conn_inv_def life_inv_def)
  then show thesis using unregister by (intro that(3)) (simp_all add: host_def)
next
  case calm
  then have "life (host i k k' c) = life c"
    by (auto simp: calm_def host_def Let_def CallOnConnStart_def split: option.split)
  with calm show thesis by (intro that(4))
qed

section \<open>Invariants\<close>

text \<open>What the life of the client has on record of connection \<open>i\<close> is the state of that connection.\<close>

definition agrees :: "ClientLife \<Rightarrow> u64 \<Rightarrow> ('c, 'v, 'e, 'f) Connection \<Rightarrow> bool" where
  "agrees l i k \<longleftrightarrow> (i \<in> set (live l) \<longleftrightarrow> cstate k = stateRunning) \<and> (i \<in> set (ended l) \<longleftrightarrow> cstate k = stateClosed) \<and>
     (i \<in> set (closing l) \<longleftrightarrow> cstate k = stateClosed \<and> opc k \<noteq> OnceDone) \<and> (i \<in> set (silent l) \<longleftrightarrow> opc k = CallStop) \<and>
     (i \<notin> set (published l) \<longrightarrow> spc k = StartCas)"

definition on_record :: "ClientLife \<Rightarrow> u64 set" where
  "on_record l = set (published l) \<union> set (live l) \<union> set (closing l) \<union> set (silent l) \<union> set (ended l) \<union> {i. \<exists>t \<in> set (threads l). flight t = Some i}"

definition lists_ok :: "ClientLife \<Rightarrow> (u64 \<rightharpoonup> 'k) \<Rightarrow> bool" where
  "lists_ok l cs \<longleftrightarrow> on_record l \<subseteq> dom cs \<and> distinct (closing l) \<and> distinct (silent l) \<and> (\<forall>i \<in> dom cs. unat i \<le> unat (ClientLife.connID l))"

fun inner_ok :: "(u64 \<rightharpoonup> ('c, 'v, 'e, 'f) Connection) \<Rightarrow> inner \<Rightarrow> bool" where
  "inner_ok cs (InStart i) \<longleftrightarrow> (\<exists>k. cs i = Some k \<and> spc k \<noteq> StartCas)"
| "inner_ok cs (InStop i n) \<longleftrightarrow> (\<exists>k. cs i = Some k \<and> n < length (stops k))"

definition inside_ok :: "('c, 'v, 'e, 'f, 'h) Client \<Rightarrow> bool" where
  "inside_ok c \<longleftrightarrow> (\<forall>j x. inside c j = Some x \<longrightarrow> j < length (threads (life c)) \<and> inner_ok (conns c) x)"

text \<open>Nothing is dialled before the pool has been started.\<close>

fun is_running :: "thread \<Rightarrow> bool" where
  "is_running (Running k pc) = True"
| "is_running t = False"

definition ready_ok :: "('c, 'v, 'e, 'f, 'h) Client \<Rightarrow> bool" where
  "ready_ok c \<longleftrightarrow> (if poolReady c = [] then conns c = Map.empty \<and> (\<forall>t \<in> set (threads (life c)). \<not> is_running t)
     else workerCtx (mh (pool c)) = None \<longrightarrow> workerPoolSize (mh (pool c)) = 0)"

definition stored_ok :: "('c \<Rightarrow> bytes \<Rightarrow> Message list \<times> go_error option \<times> 'c) \<Rightarrow> ('c \<Rightarrow> Message \<Rightarrow> go_error + bytes) \<Rightarrow> ('c, 'v, 'e, 'f, 'h) Client \<Rightarrow> bool" where
  "stored_ok dec pack c \<longleftrightarrow> (\<forall>i k. conns c i = Some k \<longrightarrow> agrees (life c) i k \<and> Connection.metrics k \<noteq> None \<and>
     (\<exists>cod. cloned c i = Some cod \<and> conn_reachable dec pack cod k))"

definition past_locks :: "ClientLife \<Rightarrow> bool" where
  "past_locks l \<longleftrightarrow> (\<forall>t \<in> set (threads l). \<forall>pc i. dial_of t = Some pc \<longrightarrow> past_lock pc = Some i \<longrightarrow> i \<in> set (published l))"

definition run_inv :: "('c \<Rightarrow> bytes \<Rightarrow> Message list \<times> go_error option \<times> 'c) \<Rightarrow> ('c \<Rightarrow> Message \<Rightarrow> go_error + bytes) \<Rightarrow> ('c, 'v, 'e, 'f, 'h) Client \<Rightarrow> bool" where
  "run_inv dec pack c \<longleftrightarrow> client_reachable (life c) \<and> stored_ok dec pack c \<and> lists_ok (life c) (conns c) \<and> inside_ok c \<and>
     ready_ok c \<and> feeding (conns c) (set (published (life c))) (pool c)"

lemma run_invD:
  assumes "run_inv dec pack c"
  shows "client_reachable (life c)" "stored_ok dec pack c" "lists_ok (life c) (conns c)" "inside_ok c" "ready_ok c"
    "feeding (conns c) (set (published (life c))) (pool c)"
  using assms by (simp_all add: run_inv_def)

lemma storedD:
  assumes "run_inv dec pack c" and "conns c i = Some k"
  shows "agrees (life c) i k" "conn_inv k" "Connection.metrics k \<noteq> None" "\<exists>cod. cloned c i = Some cod \<and> conn_reachable dec pack cod k"
  using run_invD(2) [OF assms(1)] assms(2) by (auto simp: stored_ok_def intro: conn_reachable_inv)

lemma fresh_id:
  assumes "lists_ok l cs" and "ClientLife.connID l \<noteq> - 1"
  shows "unat (ClientLife.connID l + 1) = Suc (unat (ClientLife.connID l))" "cs (ClientLife.connID l + 1) = None" "ClientLife.connID l + 1 \<notin> on_record l"
proof -
  show up: "unat (ClientLife.connID l + 1) = Suc (unat (ClientLife.connID l))"
    using assms(2) unatSuc [of "ClientLife.connID l"] by (metis add.commute add_eq_0_iff)
  then show none: "cs (ClientLife.connID l + 1) = None" using assms(1) by (metis Suc_n_not_le_n domIff lists_ok_def)
  then show "ClientLife.connID l + 1 \<notin> on_record l" using assms(1) by (auto simp: lists_ok_def)
qed

text \<open>A step of a goroutine that dials nothing new, and neither starts nor stops a connection.\<close>

definition same_lists :: "ClientLife \<Rightarrow> ClientLife \<Rightarrow> bool" where
  "same_lists l l' \<longleftrightarrow> live l' = live l \<and> closing l' = closing l \<and> silent l' = silent l \<and> ended l' = ended l \<and>
     ClientLife.connID l' = ClientLife.connID l \<and> threads l' = threads l"

lemma other_thread:
  assumes "thread_step b t l = Some (t', l')" and "start_of t = None" and "stop_of t = None" and "dial_of t = Some DialNet \<longrightarrow> \<not> fst b"
  shows "same_lists l l'" "flight t' = None \<or> flight t' = flight t"
    "published l' = published l \<or> (\<exists>i. flight t = Some i \<and> published l' = published l @ [i])" "is_running t' \<longrightarrow> is_running t"
proof -
  have "same_lists l l' \<and> (flight t' = None \<or> flight t' = flight t) \<and>
    (published l' = published l \<or> (\<exists>i. flight t = Some i \<and> published l' = published l @ [i])) \<and> (is_running t' \<longrightarrow> is_running t)"
  proof (cases "dial_of t")
    case (Some pc)
    then show ?thesis using assms
      by (cases t rule: dial_of.cases; cases pc)
        (auto simp: same_lists_def flight_def start_of_def Add_def split: if_splits prod.splits sum.splits option.splits)
  next
    case None
    then show ?thesis using assms
      by (cases t rule: stop_of.cases)
        (auto simp: same_lists_def flight_def elim!: thread_step.elims split: if_splits option.splits)
  qed
  then show "same_lists l l'" "flight t' = None \<or> flight t' = flight t"
    "published l' = published l \<or> (\<exists>i. flight t = Some i \<and> published l' = published l @ [i])" "is_running t' \<longrightarrow> is_running t"
    by blast+
qed

lemma past_locks_thread:
  assumes "thread_step b t l = Some (t', l')" and "t \<in> set (threads l)" and "past_locks l"
  shows "set (published l) \<subseteq> set (published l')" "\<And>pc i. dial_of t' = Some pc \<Longrightarrow> past_lock pc = Some i \<Longrightarrow> i \<in> set (published l')"
proof -
  have "set (published l) \<subseteq> set (published l') \<and> (\<forall>pc i. dial_of t' = Some pc \<longrightarrow> past_lock pc = Some i \<longrightarrow> i \<in> set (published l'))"
  proof (cases "dial_of t")
    case (Some pc)
    moreover have "\<And>i. past_lock pc = Some i \<Longrightarrow> i \<in> set (published l)" using Some assms(2,3) by (auto simp: past_locks_def)
    ultimately show ?thesis using assms(1)
      by (cases t rule: dial_of.cases; cases pc) (auto simp: Add_def split: if_splits prod.splits sum.splits option.splits)
  next
    case None
    then show ?thesis using assms(1)
      by (auto simp: stop_conn_def close_begin_def elim!: thread_step.elims split: if_splits option.splits)
  qed
  then show "set (published l) \<subseteq> set (published l')" "\<And>pc i. dial_of t' = Some pc \<Longrightarrow> past_lock pc = Some i \<Longrightarrow> i \<in> set (published l')"
    by blast+
qed

lemma past_locks_moved:
  assumes "past_locks l" and "j < length (threads l)" and "thread_step b (threads l ! j) l = Some (t', l')"
  shows "past_locks (l'\<lparr>threads := (threads l)[j := t']\<rparr>)"
  using past_locks_thread [OF assms(3) nth_mem [OF assms(2)] assms(1)] assms(1) moved_set [OF assms(2)]
  unfolding past_locks_def by simp blast

lemma thread_step_threads: "thread_step b t l = Some (t', l') \<Longrightarrow> threads l' = threads l"
  by (cases rule: thread_step_cases) (auto simp: same_conns_def close_begin_def)

lemma past_locks_reachable: "client_reachable l \<Longrightarrow> past_locks l"
proof (induction rule: client_reachable.induct)
  case new
  show ?case by (simp add: new_life_def past_locks_def)
next
  case (step l l')
  from step.hyps(2) step.IH show ?case
  proof (induction rule: client_step.induct)
    case (internal l l')
    then show ?case
    proof (induction rule: client_internal.induct)
      case (thread j l b t l')
      then show ?case using past_locks_moved [OF _ thread.hyps(1,3)] thread_step_threads [OF thread.hyps(3)] by simp
    qed (simp_all add: past_locks_def close_begin_def close_signal_def close_end_def)
  qed (auto simp: past_locks_def Start_def Stop_def)
qed

section \<open>Goroutines\<close>

text \<open>Changes of the life that leave the record of every connection as it is, or add that it was published.\<close>

definition same_record :: "ClientLife \<Rightarrow> ClientLife \<Rightarrow> bool" where
  "same_record l l' \<longleftrightarrow> live l' = live l \<and> closing l' = closing l \<and> silent l' = silent l \<and> ended l' = ended l \<and> set (published l) \<subseteq> set (published l')"

lemma agrees_same: "agrees l i k \<Longrightarrow> same_record l l' \<Longrightarrow> agrees l' i k"
  by (auto simp: agrees_def same_record_def)

lemma stored_same:
  "stored_ok dec pack c \<Longrightarrow> same_record (life c) (life c') \<Longrightarrow> conns c' = conns c \<Longrightarrow> cloned c' = cloned c \<Longrightarrow> stored_ok dec pack c'"
  using agrees_same unfolding stored_ok_def by metis

lemma lists_same:
  assumes "lists_ok l cs" and "same_record l l'" and "ClientLife.connID l' = ClientLife.connID l"
    and "set (published l') \<subseteq> on_record l" and "\<And>t i. t \<in> set (threads l') \<Longrightarrow> flight t = Some i \<Longrightarrow> i \<in> on_record l"
  shows "lists_ok l' cs"
proof -
  have "on_record l' \<subseteq> on_record l" using assms(2,4,5) unfolding on_record_def [of l'] by (auto simp: same_record_def on_record_def)
  then show ?thesis using assms(1-3) by (auto simp: lists_ok_def same_record_def)
qed

lemma feeding_published: "feeding cs (set (published l)) p \<Longrightarrow> same_record l l' \<Longrightarrow> feeding cs (set (published l')) p"
  by (erule feeding_more) (simp add: same_record_def)

lemma on_record_flight: "t \<in> set (threads l) \<Longrightarrow> flight t = Some i \<Longrightarrow> i \<in> on_record l"
  by (auto simp: on_record_def)

lemma on_record_published: "set (published l) \<subseteq> on_record l"
  by (auto simp: on_record_def)

text \<open>Calls of the application append at most one goroutine.\<close>

lemma inv_call:
  assumes inv: "run_inv dec pack c"
    and same: "conns c' = conns c" "cloned c' = cloned c" "inside c' = inside c" "poolReady c' = poolReady c"
    and life: "life c' \<in> {life c, snd (Start (life c)), Stop (life c)}"
    and pool: "pool c' = (pool c)\<lparr>mh := m\<rparr>" "same_routes (mh (pool c)) m"
  shows "run_inv dec pack c'"
proof -
  have rec: "same_record (life c) (life c')" "ClientLife.connID (life c') = ClientLife.connID (life c)" "published (life c') = published (life c)"
    and thr: "\<exists>ts. threads (life c') = threads (life c) @ ts \<and> (\<forall>t \<in> set ts. flight t = None \<and> \<not> is_running t)"
    using life by (auto simp: same_record_def Start_def Stop_def flight_def)
  have "client_reachable (life c')"
    using life run_invD(1) [OF inv] client_reachable.step [OF run_invD(1) [OF inv]] client_step.start client_step.stop by auto
  moreover have "stored_ok dec pack c'" by (rule stored_same [OF run_invD(2) [OF inv] rec(1) same(1,2)])
  moreover have "lists_ok (life c') (conns c')"
    unfolding same(1) by (rule lists_same [OF run_invD(3) [OF inv] rec(1,2)])
      (use rec(3) thr on_record_published in \<open>auto dest: on_record_flight\<close>)
  moreover have "inside_ok c'" using run_invD(4) [OF inv] same thr by (fastforce simp: inside_ok_def)
  moreover have "ready_ok c'" using run_invD(5) [OF inv] same thr pool by (auto simp: ready_ok_def same_routes_def)
  moreover have "feeding (conns c') (set (published (life c'))) (pool c')"
    unfolding rec(3) same(1) pool(1) by (rule feeding_routes [OF run_invD(6) [OF inv] pool(2)])
  ultimately show ?thesis by (simp add: run_inv_def)
qed

lemma inv_plain:
  assumes "run_inv dec pack c"
    and "conns c' = conns c" "cloned c' = cloned c" "inside c' = inside c" "poolReady c' = poolReady c" "pool c' = pool c"
    and "life c' \<in> {life c, snd (Start (life c)), Stop (life c)}"
  shows "run_inv dec pack c'"
  by (rule inv_call [OF assms(1-5,7), where m = "mh (pool c)"]) (simp_all add: assms(6) same_routesI)

lemma moved_simps [simp]:
  "conns (moved j r c) = conns c" "cloned (moved j r c) = cloned c" "inside (moved j r c) = inside c" "poolReady (moved j r c) = poolReady c"
  "pool (moved j r c) = pool c" "life (moved j r c) = (snd r)\<lparr>threads := (threads (snd r))[j := fst r]\<rparr>" "called (moved j r c) = called c"
  "hbTemplate (moved j r c) = hbTemplate c" "restarts (moved j r c) = restarts c"
  by (simp_all add: moved_def)

lemma end_stop_simps [simp]:
  "conns (end_stop t c) = conns c" "cloned (end_stop t c) = cloned c" "inside (end_stop t c) = inside c" "poolReady (end_stop t c) = poolReady c"
  "life (end_stop t c) = life c" "called (end_stop t c) = called c" "hbTemplate (end_stop t c) = hbTemplate c" "restarts (end_stop t c) = restarts c"
  by (simp_all add: end_stop_def)

lemma end_stop_pool:
  "feeding cs known (pool c) \<Longrightarrow> feeding cs known (pool (end_stop t c))" "ready_ok c \<Longrightarrow> ready_ok (end_stop t c)"
  by (simp add: end_stop_def feeding_cancel) (simp add: end_stop_def ready_ok_def StopWorkerPool_def split: if_splits)

lemma moved_reachable:
  assumes "client_reachable (life c)" and "acting j t c" and "thread_step b t (life c) = Some r"
  shows "client_reachable (life (moved j r c))"
proof -
  have "client_internal (life c) ((snd r)\<lparr>threads := (threads (snd r))[j := fst r]\<rparr>)"
    using assms(2,3) by (intro client_internal.thread [where b = b]) (simp_all add: acting_def)
  then show ?thesis using assms(1) by (auto intro: client_reachable.step client_step.internal)
qed

lemma inside_moved: "inside_ok c \<Longrightarrow> length (threads l) = length (threads (life c)) \<Longrightarrow> inside_ok (c\<lparr>life := l\<rparr>)"
  by (simp add: inside_ok_def)

lemma acting_mem: "acting j t c \<Longrightarrow> j < length (threads (life c)) \<and> threads (life c) ! j = t \<and> t \<in> set (threads (life c))"
  by (auto simp: acting_def)

lemma inv_thread:
  assumes inv: "run_inv dec pack c" and act: "acting j t c" and st: "thread_step b t (life c) = Some (t', l')"
    and "start_of t = None" "stop_of t = None" "dial_of t = Some DialNet \<longrightarrow> \<not> fst b"
  shows "run_inv dec pack (end_stop t (moved j (t', l') c))"
proof -
  note new = other_thread [OF st assms(4-6)]
  note mem = acting_mem [OF act]
  have rec: "same_record (life c) (life (moved j (t', l') c))" using new(1,3) by (auto simp: same_record_def same_lists_def)
  have thr: "x = t' \<or> x \<in> set (threads (life c))" if "x \<in> set ((threads l')[j := t'])" for x
    using moved_set [of j "threads (life c)" x t'] that new(1) mem by (auto simp: same_lists_def)
  have "client_reachable (life (moved j (t', l') c))" by (rule moved_reachable [OF run_invD(1) [OF inv] act st])
  moreover have "stored_ok dec pack (end_stop t (moved j (t', l') c))"
    by (rule stored_same [OF run_invD(2) [OF inv]]) (use rec in simp_all)
  moreover have "lists_ok (life (moved j (t', l') c)) (conns c)"
  proof (rule lists_same [OF run_invD(3) [OF inv] rec])
    show "set (published (life (moved j (t', l') c))) \<subseteq> on_record (life c)"
      using new(3) mem on_record_published on_record_flight by fastforce
    show "i \<in> on_record (life c)" if "x \<in> set (threads (life (moved j (t', l') c)))" "flight x = Some i" for x i
      using thr [of x] that new(2) mem on_record_flight [of _ "life c" i] by fastforce
  qed (use new(1) in \<open>simp add: same_lists_def\<close>)
  moreover have "inside_ok (end_stop t (moved j (t', l') c))"
    using run_invD(4) [OF inv] new(1) by (simp add: inside_ok_def same_lists_def)
  moreover have "ready_ok (moved j (t', l') c)"
  proof -
    have "\<not> is_running x" if "\<forall>x \<in> set (threads (life c)). \<not> is_running x" "x \<in> set ((threads l')[j := t'])" for x
      using thr [OF that(2)] that(1) new(4) mem by auto
    then show ?thesis using run_invD(5) [OF inv] by (simp add: ready_ok_def split: if_splits)
  qed
  moreover have "feeding (conns c) (set (published (life (moved j (t', l') c)))) (pool (moved j (t', l') c))"
    using feeding_published [OF run_invD(6) [OF inv] rec] by simp
  ultimately show ?thesis by (simp add: run_inv_def end_stop_pool)
qed

text \<open>A dial that succeeds.\<close>

lemma dialled_thread:
  assumes "dial_of t = Some DialNet" and "thread_step (True, e) t l = Some (t', l')"
  shows "l' = l\<lparr>ClientLife.connID := ClientLife.connID l + 1\<rparr>" "flight t' = Some (ClientLife.connID l + 1)" "is_running t' \<longleftrightarrow> is_running t"
  using assms by (cases t rule: dial_of.cases; auto simp: flight_def)+

lemma dialled_ready: "ready_ok c \<Longrightarrow> acting j t c \<Longrightarrow> dial_of t = Some DialNet \<Longrightarrow> poolReady c \<noteq> []"
  by (cases t rule: dial_of.cases) (auto simp: ready_ok_def acting_def split: if_splits dest!: nth_mem)

lemma dialled_connE:
  assumes "make_conn cln now c = Ret c1"
  obtains k where "NewConnection (ClientLife.connID (life c) + 1) (cln (codec c)) (WriteQueueSize (cfg c)) (WriteTimeout (cfg c)) True now = Ret k"
    "c1 = c\<lparr>conns := (conns c)(ClientLife.connID (life c) + 1 \<mapsto> k), cloned := (cloned c)(ClientLife.connID (life c) + 1 \<mapsto> cln (codec c))\<rparr>"
  using assms by (auto simp: make_conn_def Let_def split: outcome.splits)

lemma new_agrees:
  assumes "NewConnection i cod wq wt True now = Ret k" and "i \<notin> on_record l"
  shows "agrees l i k" "Connection.metrics k \<noteq> None" "dispatched k = []" "conn_reachable dec pack cod k"
  using NewConnectionD [OF assms(1)] assms by (auto simp: agrees_def on_record_def new_conn_def touch_def intro: conn_reachable.new)

lemma inv_dialled:
  assumes inv: "run_inv dec pack c" and act: "acting j t c" and dial: "dial_of t = Some DialNet"
    and st: "thread_step (True, e) t (life c) = Some (t', l')" and made: "make_conn cln now c = Ret c1"
  shows "run_inv dec pack (moved j (t', l') c1)"
proof -
  let ?i = "ClientLife.connID (life c) + 1"
  obtain k where k: "NewConnection ?i (cln (codec c)) (WriteQueueSize (cfg c)) (WriteTimeout (cfg c)) True now = Ret k"
    and c1: "c1 = c\<lparr>conns := (conns c)(?i \<mapsto> k), cloned := (cloned c)(?i \<mapsto> cln (codec c))\<rparr>"
    using made by (elim dialled_connE)
  note new = dialled_thread [OF dial st]
  note mem = acting_mem [OF act]
  have "ClientLife.connID (life c) \<noteq> - 1" using act by (simp add: acting_def)
  note fresh = fresh_id [OF run_invD(3) [OF inv] this]
  note ok = new_agrees [OF k fresh(3)]
  let ?c = "moved j (t', l') c1"
  have rec: "same_record (life c) (life ?c)" using new(1) by (simp add: same_record_def)
  have thr: "x = t' \<or> x \<in> set (threads (life c))" if "x \<in> set (threads (life ?c))" for x
    using moved_set [of j "threads (life c)" x t'] that new(1) mem by auto
  have "client_reachable (life ?c)" using moved_reachable [OF run_invD(1) [OF inv] act st] by simp
  moreover have "stored_ok dec pack ?c"
  proof (unfold stored_ok_def, intro allI impI)
    fix n x
    assume "conns ?c n = Some x"
    then show "agrees (life ?c) n x \<and> Connection.metrics x \<noteq> None \<and> (\<exists>cod. cloned ?c n = Some cod \<and> conn_reachable dec pack cod x)"
      using run_invD(2) [OF inv] ok c1 agrees_same [of "life c" n x, OF _ rec] agrees_same [of "life c" ?i k, OF _ rec]
      by (cases "n = ?i") (auto simp: stored_ok_def)
  qed
  moreover have "lists_ok (life ?c) (conns ?c)"
  proof -
    have "on_record (life ?c) \<subseteq> insert ?i (on_record (life c))" using rec thr new(1,2) unfolding on_record_def by fastforce
    then show ?thesis using run_invD(3) [OF inv] fresh(1) c1 new(1) by (auto simp: lists_ok_def intro: le_SucI)
  qed
  moreover have "inside_ok ?c"
  proof -
    have "inner_ok ((conns c)(?i \<mapsto> k)) x" if "inner_ok (conns c) x" for x using that fresh(2) by (cases x) auto
    then show ?thesis using run_invD(4) [OF inv] c1 new(1) by (simp add: inside_ok_def)
  qed
  moreover have "ready_ok ?c"
    using run_invD(5) [OF inv] dialled_ready [OF run_invD(5) [OF inv] act dial] c1 by (simp add: ready_ok_def)
  moreover have "feeding (conns ?c) (set (published (life ?c))) (pool ?c)"
    using feeding_make [OF run_invD(6) [OF inv] _ ok(3)] fresh(3) on_record_published new(1) c1 by auto
  ultimately show ?thesis by (simp add: run_inv_def)
qed

section \<open>Steps of the connections\<close>

text \<open>What a step of connection \<open>i\<close> leaves alone, whether the life records it or not.\<close>

lemma agrees_close:
  assumes "distinct (live l)" "distinct (closing l)" "distinct (silent l)" "agrees l n k"
  shows "agrees (close_begin i l) n k \<or> n = i" "agrees (close_signal i l) n k \<or> n = i" "agrees (close_end i l) n k \<or> n = i"
  using assms by (auto simp: agrees_def close_begin_def close_signal_def close_end_def)

lemma agrees_closed:
  assumes "distinct (live l)" "distinct (closing l)" "distinct (silent l)" "agrees l i k" "conn_inv k" "i \<in> set (published l)"
  shows "opc k = StoreClosed \<Longrightarrow> agrees (close_begin i l) i (k\<lparr>cstate := stateClosed, opc := CallStop\<rparr>)"
    "opc k = CallStop \<Longrightarrow> agrees (close_signal i l) i (k\<lparr>hooks := hs, opc := TakeHb\<rparr>)"
    "opc k = MgrRemove \<Longrightarrow> agrees (close_end i l) i (k\<lparr>removals := n, opc := OnceDone\<rparr>)"
  using assms by (auto simp: agrees_def close_begin_def close_signal_def close_end_def conn_inv_def life_inv_def)

lemma close_frame [simp]:
  "published (close_begin i l) = published l" "threads (close_begin i l) = threads l" "ClientLife.connID (close_begin i l) = ClientLife.connID l"
  "published (close_signal i l) = published l" "threads (close_signal i l) = threads l" "ClientLife.connID (close_signal i l) = ClientLife.connID l"
  "published (close_end i l) = published l" "threads (close_end i l) = threads l" "ClientLife.connID (close_end i l) = ClientLife.connID l"
  by (simp_all add: close_begin_def close_signal_def close_end_def)

lemma on_record_close:
  "on_record (close_begin i l) \<subseteq> insert i (on_record l)" "on_record (close_signal i l) \<subseteq> insert i (on_record l)" "on_record (close_end i l) \<subseteq> insert i (on_record l)"
  using set_remove1_subset [of i "live l"] set_remove1_subset [of i "closing l"] set_remove1_subset [of i "silent l"]
  unfolding on_record_def by (auto simp: close_begin_def close_signal_def close_end_def)

lemma calm_agrees: "agrees l i k \<Longrightarrow> calm k k' \<Longrightarrow> i \<in> set (published l) \<Longrightarrow> agrees l i k'"
  by (auto simp: agrees_def calm_def)

text \<open>The life makes a step of its own or none, and keeps the record.\<close>

lemma host_record:
  fixes c :: "('c, 'v, 'e, 'f, 'h) Client"
  assumes inv: "run_inv dec pack c" and k: "conns c i = Some k" and pub: "i \<in> set (published (life c))"
    and step: "conn_step dec pack k k'" "spc k \<noteq> StartCas \<or> spc k' = spc k"
  defines "l \<equiv> life c" and "l' \<equiv> life (host i k k' c)"
  shows "client_reachable l'" "\<And>n x. n \<noteq> i \<Longrightarrow> agrees l n x \<Longrightarrow> agrees l' n x" "agrees l' i k'" "on_record l' \<subseteq> on_record l"
    "distinct (closing l')" "distinct (silent l')" "published l' = published l" "threads l' = threads l" "ClientLife.connID l' = ClientLife.connID l"
proof -
  have ok: "agrees l i k" "conn_inv k" using storedD [OF inv k] by (simp_all add: l_def)
  have reach: "client_reachable l" and d: "distinct (live l)" "distinct (closing l)" "distinct (silent l)"
    using run_invD(1,3) [OF inv] live_distinct client_reachable_inv [of l] by (auto simp: l_def lists_ok_def client_inv_def)
  have rec: "i \<in> on_record l" using pub by (auto simp: on_record_def l_def)
  note io = ok pub [folded l_def]
  have "client_reachable l' \<and> (\<forall>n x. n \<noteq> i \<longrightarrow> agrees l n x \<longrightarrow> agrees l' n x) \<and> agrees l' i k' \<and> on_record l' \<subseteq> on_record l \<and>
    distinct (closing l') \<and> distinct (silent l') \<and> published l' = published l \<and> threads l' = threads l \<and> ClientLife.connID l' = ClientLife.connID l"
    using step ok(2)
  proof (cases rule: host_life [where i = i and c = c])
    case store
    then have new: "i \<notin> set (ended l)" "i \<notin> set (closing l)" "i \<notin> set (silent l)" and l': "l' = close_begin i l"
      using ok by (auto simp: agrees_def conn_inv_def life_inv_def l_def l'_def)
    have "client_internal l l'" unfolding l' using io(3) new(1) by (rule client_internal.lose)
    then have "client_reachable l'" using reach by (auto intro: client_reachable.step client_step.internal)
    moreover have "distinct (closing l')" "distinct (silent l')" using d new by (simp_all add: l' close_begin_def)
    ultimately show ?thesis
      using agrees_close(1) [OF d] agrees_closed(1) [OF d io] store(1,2) on_record_close(1) [of i l] rec l' by auto
  next
    case signal
    then have new: "i \<in> set (silent l)" and l': "l' = close_signal i l" using ok by (simp_all add: agrees_def l_def l'_def)
    have "client_internal l l'" unfolding l' using new by (rule client_internal.signal)
    then have "client_reachable l'" using reach by (auto intro: client_reachable.step client_step.internal)
    moreover have "distinct (closing l')" "distinct (silent l')" using d by (simp_all add: l' close_signal_def)
    ultimately show ?thesis
      using agrees_close(2) [OF d] agrees_closed(2) [OF d io] signal(1,2) on_record_close(2) [of i l] rec l' by auto
  next
    case unregister
    then have new: "i \<in> set (closing l)" "i \<notin> set (silent l)" and l': "l' = close_end i l"
      using ok by (auto simp: agrees_def conn_inv_def life_inv_def l_def l'_def)
    have "client_internal l l'" unfolding l' using new by (rule client_internal.unregister)
    then have "client_reachable l'" using reach by (auto intro: client_reachable.step client_step.internal)
    moreover have "distinct (closing l')" "distinct (silent l')" using d by (simp_all add: l' close_end_def)
    ultimately show ?thesis
      using agrees_close(3) [OF d] agrees_closed(3) [OF d io] unregister(1,2) on_record_close(3) [of i l] rec l' by auto
  next
    case calm
    then show ?thesis using reach calm_agrees [OF ok(1) _ io(3)] d by (simp add: l_def l'_def)
  qed
  then show "client_reachable l'" "\<And>n x. n \<noteq> i \<Longrightarrow> agrees l n x \<Longrightarrow> agrees l' n x" "agrees l' i k'" "on_record l' \<subseteq> on_record l"
    "distinct (closing l')" "distinct (silent l')" "published l' = published l" "threads l' = threads l" "ClientLife.connID l' = ClientLife.connID l"
    by blast+
qed

lemma stored_update:
  fixes c c' :: "('c, 'v, 'e, 'f, 'h) Client"
  assumes "stored_ok dec pack c" and "conns c i = Some k" and "conn_step dec pack k k'"
    and "\<And>n x :: ('c, 'v, 'e, 'f) Connection. n \<noteq> i \<Longrightarrow> agrees (life c) n x \<Longrightarrow> agrees (life c') n x" and "agrees (life c') i k'"
    and "conns c' = (conns c)(i \<mapsto> k')" and "cloned c' = cloned c"
  shows "stored_ok dec pack c'"
proof (unfold stored_ok_def, intro allI impI)
  fix n x
  assume x: "conns c' n = Some x"
  show "agrees (life c') n x \<and> Connection.metrics x \<noteq> None \<and> (\<exists>cod. cloned c' n = Some cod \<and> conn_reachable dec pack cod x)"
  proof (cases "n = i")
    case True
    moreover obtain cod where "cloned c i = Some cod" "conn_reachable dec pack cod k" "Connection.metrics k \<noteq> None"
      using assms(1,2) by (auto simp: stored_ok_def)
    ultimately show ?thesis
      using x assms(5-7) conn_step_mono [OF assms(3)] conn_reachable.step [OF _ assms(3)] by auto
  next
    case False
    then show ?thesis using x assms(1,4,6,7) unfolding stored_ok_def by auto
  qed
qed

lemma inner_update:
  assumes "inner_ok cs x" and "cs i = Some k" and "spos (spc k) \<le> spos (spc k')" and "length (stops k) \<le> length (stops k')"
  shows "inner_ok (cs(i \<mapsto> k')) x"
  using assms by (cases x) (auto simp flip: spos_0)

lemma inside_update:
  assumes "inside_ok c" and "conns c i = Some k" and "spos (spc k) \<le> spos (spc k')" and "length (stops k) \<le> length (stops k')"
    and "conns c' = (conns c)(i \<mapsto> k')" and "inside c' = inside c" and "threads (life c') = threads (life c)"
  shows "inside_ok c'"
  using assms(1,5-7) inner_update [of "conns c", OF _ assms(2-4)] by (simp add: inside_ok_def)

lemma ready_update:
  "ready_ok c \<Longrightarrow> conns c i = Some k \<Longrightarrow> conns c' = (conns c)(i \<mapsto> k') \<Longrightarrow> poolReady c' = poolReady c \<Longrightarrow> pool c' = pool c \<Longrightarrow> ready_ok c'"
  by (auto simp: ready_ok_def split: if_splits)

lemma start_action_spos: "start_action tpl (spc k) k = Some k' \<Longrightarrow> spos (spc k) \<le> spos (spc k')"
  by (elim start_actionE) simp_all

lemma inv_conn:
  assumes inv: "run_inv dec pack c" and k: "conns c i = Some k" and pub: "i \<in> set (published (life c))"
    and step: "conn_step dec pack k k'" "spc k \<noteq> StartCas \<or> spc k' = spc k" "spos (spc k) \<le> spos (spc k')"
    and fed: "dispatched k' = dispatched k" "rd k' = rd k \<or> i \<notin> busy (pool c)"
  shows "run_inv dec pack (host i k k' c)"
proof -
  note rec = host_record [OF inv k pub step(1,2)]
  have "lists_ok (life (host i k k' c)) (conns (host i k k' c))"
    using run_invD(3) [OF inv] rec(4-6,9) k by (auto simp: lists_ok_def)
  moreover have "stored_ok dec pack (host i k k' c)" by (rule stored_update [OF run_invD(2) [OF inv] k step(1) rec(2,3)]) simp_all
  moreover have "inside_ok (host i k k' c)"
    by (rule inside_update [OF run_invD(4) [OF inv] k step(3)]) (use conn_step_mono [OF step(1)] rec(8) in simp_all)
  moreover have "ready_ok (host i k k' c)" by (rule ready_update [OF run_invD(5) [OF inv] k]) simp_all
  moreover have "feeding (conns (host i k k' c)) (set (published (life (host i k k' c)))) (pool (host i k k' c))"
    using feeding_other [OF run_invD(6) [OF inv] k fed] rec(7) by simp
  ultimately show ?thesis using rec(1) by (simp add: run_inv_def)
qed

lemma inv_handoff:
  assumes inv: "run_inv dec pack c" and pub: "i \<in> set (published (life c))" and k: "conns c i = Some k" and rd: "rd k = Dispatching (m # ms)"
    and free: "i \<notin> busy (pool c)"
  shows "run_inv dec pack ((host i k (dispatch_action (m # ms) k) c)\<lparr>pool := check_send (NewRequest i (Some m)) (pool c)\<rparr>)" (is "run_inv _ _ ?c")
proof -
  let ?k = "dispatch_action (m # ms) k"
  have step: "conn_step dec pack k ?k" using rd by (intro conn_step.internal conn_internal.handoff)
  note rec = host_record [OF inv k pub step]
  have "mh (check_send (NewRequest i (Some m)) (pool c)) = mh (pool c)" by (simp add: check_send_def split: dispatch.split)
  then have "ready_ok ?c" using run_invD(5) [OF inv] k by (auto simp: ready_ok_def split: if_splits)
  moreover have "lists_ok (life ?c) (conns ?c)" using run_invD(3) [OF inv] rec(4-6,9) k by (auto simp: lists_ok_def)
  moreover have "stored_ok dec pack ?c" by (rule stored_update [OF run_invD(2) [OF inv] k step]) (use rec(2,3) in simp_all)
  moreover have "inside_ok ?c" by (rule inside_update [OF run_invD(4) [OF inv] k, of ?k]) (use rec(8) in simp_all)
  moreover have "feeding (conns ?c) (set (published (life ?c))) (pool ?c)"
    using feeding_submit [OF run_invD(6) [OF inv] pub k rd free] rec(7) by simp
  ultimately show ?thesis using rec(1) by (simp add: run_inv_def)
qed

section \<open>Goroutines inside a connection\<close>

lemma inv_inside: "run_inv dec pack c \<Longrightarrow> run_inv dec pack (c\<lparr>inside := (inside c)(j := None)\<rparr>)"
  by (auto simp: run_inv_def stored_ok_def inside_ok_def ready_ok_def)

lemma inv_start_next:
  assumes inv: "run_inv dec pack c" and j: "inside c j = Some (InStart i)" and k: "conns c i = Some k"
    and act: "start_action (GetHeartBeat c) (spc k) k = Some k'"
  shows "run_inv dec pack (start_next j i k k' c)"
proof -
  have cas: "spc k \<noteq> StartCas" using run_invD(4) [OF inv] j k by (fastforce simp: inside_ok_def)
  have pub: "i \<in> set (published (life c))" using storedD(1) [OF inv k] cas by (auto simp: agrees_def)
  have "rd k' = rd k \<or> rd k = NoReader" "dispatched k' = dispatched k"
    using act storedD(2) [OF inv k] by (elim start_actionE; simp add: conn_inv_def life_inv_def)+
  moreover have "i \<notin> busy (pool c)" if "rd k = NoReader"
    using feedingD(3) [OF run_invD(6) [OF inv], of i] k that by auto
  ultimately have "run_inv dec pack (host i k k' c)"
    using cas by (intro inv_conn [OF inv k pub] conn_step.internal conn_internal.start [OF act] start_action_spos [OF act]) auto
  then show ?thesis using inv_inside [of dec pack "host i k k' c" j] by (simp add: start_next_def Let_def)
qed

lemma inv_stop_enter:
  assumes inv: "run_inv dec pack c" and j: "j < length (threads (life c))" and k: "conns c i = Some k"
  shows "run_inv dec pack (stop_enter j i k c)"
proof -
  have ag: "agrees (life c) i (stop_call k)" using storedD(1) [OF inv k] by (simp add: agrees_def stop_call_def)
  have "stored_ok dec pack (stop_enter j i k c)"
    by (rule stored_update [OF run_invD(2) [OF inv] k conn_step.call_stop]) (use ag in \<open>simp_all add: stop_enter_def\<close>)
  moreover have "inner_ok ((conns c)(i \<mapsto> stop_call k)) x" if "inner_ok (conns c) x" for x
    using inner_update [of "conns c" x i k "stop_call k"] that k by (simp add: stop_call_def)
  then have "inside_ok (stop_enter j i k c)"
    using run_invD(4) [OF inv] j by (auto simp: inside_ok_def stop_enter_def stop_call_def)
  moreover have "feeding ((conns c)(i \<mapsto> stop_call k)) (set (published (life c))) (pool c)"
    by (rule feeding_other [OF run_invD(6) [OF inv] k]) (simp_all add: stop_call_def)
  moreover have "ready_ok (stop_enter j i k c)" by (rule ready_update [OF run_invD(5) [OF inv] k]) (simp_all add: stop_enter_def)
  moreover have "lists_ok (life c) ((conns c)(i \<mapsto> stop_call k))" using run_invD(3) [OF inv] k by (auto simp: lists_ok_def)
  ultimately show ?thesis using run_invD(1) [OF inv] by (simp add: run_inv_def stop_enter_def)
qed

lemma starting_thread:
  assumes "start_of t = Some i" and "thread_step b t l = Some (t', l')"
  shows "l' = (if i \<in> set (ended l) then l else l\<lparr>live := live l @ [i]\<rparr>)" "is_running t'" "flight t' = None" "flight t = Some i"
    "dial_of t = Some (DialStart i)"
  using assms by (auto simp: start_of_def flight_def split: option.splits dial_pc.splits elim!: dial_of.elims)

lemma starting_conn:
  assumes inv: "run_inv dec pack c" and t: "t \<in> set (threads (life c))" "start_of t = Some i" and k: "conns c i = Some k"
  shows "cstate k \<noteq> stateRunning" "i \<in> set (published (life c))"
proof -
  have dial: "dial_of t = Some (DialStart i)" "flight t = Some i"
    using t(2) by (auto simp: start_of_def flight_def split: option.splits dial_pc.splits)
  show "i \<in> set (published (life c))" using past_locks_reachable [OF run_invD(1) [OF inv]] t(1) dial by (fastforce simp: past_locks_def)
  have "filter (\<lambda>t. flight t = Some i) (threads (life c)) \<noteq> []" using t(1) dial(2) by (auto simp: filter_empty_conv)
  moreover have "uses (life c) i \<le> 1" using client_reachable_inv [OF run_invD(1) [OF inv]] by (simp add: client_inv_def ids_inv_def)
  ultimately have "count_list (live (life c)) i = 0" unfolding uses_def by (cases "filter (\<lambda>t. flight t = Some i) (threads (life c))") auto
  then show "cstate k \<noteq> stateRunning" using storedD(1) [OF inv k] by (auto simp: agrees_def count_list_0_iff)
qed

text \<open>The thread that enters \<^verbatim>\<open>Connection.Start\<close>, and what this leaves of the client.\<close>

lemma start_enter_simps [simp]:
  "life (start_enter j i k c) = life c" "cloned (start_enter j i k c) = cloned c" "poolReady (start_enter j i k c) = poolReady c"
  "pool (start_enter j i k c) = pool c"
  by (simp_all add: start_enter_def split: option.split)

lemma start_enter_conns:
  "conns c i = Some k \<Longrightarrow> dom (conns (start_enter j i k c)) = dom (conns c)"
  by (auto simp: start_enter_def split: option.splits)

lemma start_idle:
  assumes "run_inv dec pack c" and "acting j t c" and "start_of t = Some i" and k: "conns c i = Some k"
  shows "cstate k = stateCreated \<longleftrightarrow> i \<notin> set (ended (life c))"
  using storedD(1) [OF assms(1) k] starting_conn(1) [OF assms(1) _ assms(3) k] acting_mem [OF assms(2)]
  by (cases "cstate k") (auto simp: agrees_def)

lemma start_lists:
  assumes inv: "run_inv dec pack c" and act: "acting j t c" and t: "start_of t = Some i" and k: "conns c i = Some k"
    and st: "thread_step b t (life c) = Some (t', l')"
  shows "lists_ok (l'\<lparr>threads := (threads l')[j := t']\<rparr>) (conns (start_enter j i k (moved j (t', l') c)))" (is "lists_ok ?l ?cs")
proof -
  note mem = acting_mem [OF act]
  note new = starting_thread [OF t st]
  have thr: "x = t' \<or> x \<in> set (threads (life c))" if "x \<in> set (threads ?l)" for x
    using moved_set [of j "threads (life c)" x t'] that new(1) mem by (auto split: if_splits)
  have "i \<in> on_record (life c)" using starting_conn(2) [OF inv _ t k] mem on_record_published by fast
  moreover have "x \<in> set (threads (life c))" if "x \<in> set (threads ?l)" "flight x = Some n" for x n
    using thr [OF that(1)] that(2) new(3) by auto
  ultimately have "on_record ?l \<subseteq> on_record (life c)" using new(1) unfolding on_record_def by (auto split: if_splits)
  moreover have "dom ?cs = dom (conns c)" using start_enter_conns [of "moved j (t', l') c" i k j] k by simp
  ultimately show ?thesis using run_invD(3) [OF inv] new(1) by (auto simp: lists_ok_def split: if_splits)
qed

lemma start_stored:
  assumes inv: "run_inv dec pack c" and act: "acting j t c" and t: "start_of t = Some i" and k: "conns c i = Some k"
    and st: "thread_step b t (life c) = Some (t', l')"
  shows "stored_ok dec pack (start_enter j i k (moved j (t', l') c))" (is "stored_ok _ _ ?c")
proof (cases "cstate k = stateCreated")
  case True
  note idle = start_idle [OF inv act t k]
  let ?k = "k\<lparr>cstate := stateRunning, spc := StartBind\<rparr>"
  have "spc k = StartCas" using storedD(2) [OF inv k] True by (simp add: conn_inv_def life_inv_def)
  then have step: "conn_step dec pack k ?k" using True by (intro conn_step.internal conn_internal.start [where tpl = None]) simp
  have "l' = (life c)\<lparr>live := live (life c) @ [i]\<rparr>" using starting_thread(1) [OF t st] idle True by simp
  then have life: "life ?c = (life c)\<lparr>live := live (life c) @ [i], threads := (threads (life c))[j := t']\<rparr>" by simp
  have other: "agrees (life ?c) n x" if "n \<noteq> i" "agrees (life c) n x" for n x using that unfolding life by (simp add: agrees_def)
  have self: "agrees (life ?c) i ?k"
    using storedD(1) [OF inv k] True starting_conn(2) [OF inv _ t k] acting_mem [OF act] idle unfolding life by (auto simp: agrees_def)
  show ?thesis
    by (rule stored_update [OF run_invD(2) [OF inv] k step other self]) (use True in \<open>simp_all add: start_enter_def\<close>)
next
  case False
  then have "?c = moved j (t', l') c" "same_record (life c) (life ?c)"
    using starting_thread(1) [OF t st] start_idle [OF inv act t k] by (simp_all add: start_enter_def same_record_def)
  then show ?thesis using stored_same [OF run_invD(2) [OF inv], of ?c] by simp
qed

lemma inv_start_enter:
  assumes inv: "run_inv dec pack c" and act: "acting j t c" and t: "start_of t = Some i" and k: "conns c i = Some k"
    and st: "thread_step b t (life c) = Some (t', l')"
  shows "run_inv dec pack (start_enter j i k (moved j (t', l') c))" (is "run_inv _ _ ?c")
proof -
  note new = starting_thread(1) [OF t st]
  let ?k = "k\<lparr>cstate := stateRunning, spc := StartBind\<rparr>"
  have "client_reachable (life ?c)" using moved_reachable [OF run_invD(1) [OF inv] act st] by simp
  moreover have "lists_ok (life ?c) (conns ?c)" using start_lists [OF assms] by simp
  moreover have "stored_ok dec pack ?c" by (rule start_stored [OF assms])
  moreover have "inside_ok ?c"
  proof -
    have "length (threads (life ?c)) = length (threads (life c))" using new by simp
    moreover have "inner_ok ((conns c)(i \<mapsto> ?k)) x" if "inner_ok (conns c) x" "cstate k = stateCreated" for x
      using inner_update [of "conns c" x i k ?k] that k storedD(2) [OF inv k] by (simp add: conn_inv_def life_inv_def)
    ultimately show ?thesis using run_invD(4) [OF inv] acting_mem [OF act] by (auto simp: inside_ok_def start_enter_def split: if_splits)
  qed
  moreover have "ready_ok ?c" using run_invD(5) [OF inv] start_enter_conns [of "moved j (t', l') c" i k j] k by (auto simp: ready_ok_def split: if_splits)
  moreover have "feeding (conns ?c) (set (published (life ?c))) (pool ?c)"
    using run_invD(6) [OF inv] feeding_other [OF run_invD(6) [OF inv] k, of ?k] new by (simp add: start_enter_def)
  ultimately show ?thesis by (simp add: run_inv_def)
qed

lemma stopping_thread:
  assumes "stop_of t = Some (i, t')" and "i \<in> set (ended l)" and "i \<notin> set (closing l)"
  shows "thread_step b t l = Some (t', l)" "flight t = None" "flight t' = None" "\<not> is_running t'"
  using assms by (cases t rule: stop_of.cases; auto simp: stop_conn_def flight_def)+

lemma inv_stop_return:
  assumes inv: "run_inv dec pack c" and j: "inside c j = Some (InStop i n)" and t: "stop_of (threads (life c) ! j) = Some (i, t')"
    and k: "conns c i = Some k" and ret: "stops k ! n = StopRet b w" and id: "ClientLife.connID (life c) \<noteq> - 1"
  shows "run_inv dec pack ((moved j (t', life c) c)\<lparr>inside := (inside c)(j := None)\<rparr>)"
proof -
  have n: "j < length (threads (life c))" "n < length (stops k)" using run_invD(4) [OF inv] j k by (fastforce simp: inside_ok_def)+
  have "stopper_inv k (StopRet b w)" using storedD(2) [OF inv k] n(2) ret by (metis conn_inv_def list_all_length)
  then have "opc k = OnceDone" "cstate k = stateClosed" using storedD(2) [OF inv k] by (simp_all add: conn_inv_def life_inv_def)
  then have rec: "i \<in> set (ended (life c))" "i \<notin> set (closing (life c))" using storedD(1) [OF inv k] by (simp_all add: agrees_def)
  note new = stopping_thread [OF t rec]
  let ?l = "(life c)\<lparr>threads := (threads (life c))[j := t']\<rparr>"
  have thr: "x = t' \<or> x \<in> set (threads (life c))" if "x \<in> set (threads ?l)" for x using moved_set [OF n(1)] that by simp
  have "client_internal (life c) ?l" using new(1) n(1) id by (intro client_internal.thread)
  then have "client_reachable ?l" using run_invD(1) [OF inv] by (auto intro: client_reachable.step client_step.internal)
  moreover have same: "same_record (life c) ?l" by (simp add: same_record_def)
  have "stored_ok dec pack (moved j (t', life c) c)" by (rule stored_same [OF run_invD(2) [OF inv]]) (use same in simp_all)
  moreover have "lists_ok ?l (conns c)"
  proof (rule lists_same [OF run_invD(3) [OF inv] same])
    show "m \<in> on_record (life c)" if "x \<in> set (threads ?l)" "flight x = Some m" for x m
      using thr [OF that(1)] that(2) new(3) on_record_flight [of x "life c" m] by auto
  qed (simp_all add: on_record_published)
  moreover have "inside_ok (moved j (t', life c) c)" using run_invD(4) [OF inv] by (simp add: inside_ok_def)
  moreover have "ready_ok (moved j (t', life c) c)"
  proof -
    have "\<not> is_running x" if "\<forall>x \<in> set (threads (life c)). \<not> is_running x" "x \<in> set ((threads (life c))[j := t'])" for x
      using moved_set [OF n(1) that(2)] that(1) new(4) by blast
    then show ?thesis using run_invD(5) [OF inv] by (simp add: ready_ok_def split: if_splits)
  qed
  ultimately have "run_inv dec pack (moved j (t', life c) c)" using run_invD(6) [OF inv] by (simp add: run_inv_def)
  then show ?thesis using inv_inside [of dec pack "moved j (t', life c) c" j] by simp
qed

section \<open>The invariant holds\<close>

lemma inv_pool:
  assumes inv: "run_inv dec pack c"
  shows "run_inv dec pack (c\<lparr>pool := start_pool (pool c), poolReady := n # poolReady c\<rparr>)"
proof -
  have "set (published (life c)) = {} \<and> (\<forall>i k. conns c i = Some k \<longrightarrow> dispatched k = [])"
    if "workerCtx (mh (pool c)) = None" "workerPoolSize (mh (pool c)) \<noteq> 0"
  proof -
    have "conns c = Map.empty" using run_invD(5) [OF inv] that by (auto simp: ready_ok_def split: if_splits)
    then show ?thesis using run_invD(3) [OF inv] on_record_published [of "life c"] by (auto simp: lists_ok_def)
  qed
  then have "feeding (conns c) (set (published (life c))) (start_pool (pool c))" by (rule feeding_start [OF run_invD(6) [OF inv]])
  moreover have "workerCtx (mh (start_pool (pool c))) = None \<longrightarrow> workerPoolSize (mh (start_pool (pool c))) = 0"
    by (auto simp: start_pool_def StartWorkerPool_def Let_def)
  ultimately show ?thesis using inv by (simp add: run_inv_def stored_ok_def inside_ok_def ready_ok_def)
qed

lemma inv_serve:
  assumes inv: "run_inv dec pack c" and "pool_serve (pool c) p"
  shows "run_inv dec pack (c\<lparr>pool := p\<rparr>)"
proof -
  have "workerCtx (mh p) = workerCtx (mh (pool c))" "workerPoolSize (mh p) = workerPoolSize (mh (pool c))"
    using serve_pool [OF assms(2) feedingD(1) [OF run_invD(6) [OF inv]]] by simp_all
  then show ?thesis
    using inv feeding_serve [OF run_invD(6) [OF inv] assms(2)] by (simp add: run_inv_def stored_ok_def inside_ok_def ready_ok_def)
qed

lemma inv_client_call: "client_call c c' \<Longrightarrow> run_inv dec pack c \<Longrightarrow> run_inv dec pack c'"
proof (induction rule: client_call.induct)
  case (router c i hs)
  obtain r m where m: "AddRouterSlices i hs (mh (pool c)) = (r, m)" by fastforce
  then have "same_routes (mh (pool c)) m" using registration_routes(1) [of "mh (pool c)" i hs] by simp
  then show ?case by (intro inv_call [OF router.prems, where m = m]) (simp_all add: Client_AddRouterSlices_def m)
qed (erule inv_plain;
  simp add: SetOnConnStart_def SetOnConnStop_def SetCodec_def SetName_def StartHeartBeatWithOption_def Client_Start_def Client_Stop_def Restart_def case_prod_beta)+

lemma inv_run: "client_run dec pack cln c c' \<Longrightarrow> run_inv dec pack c \<Longrightarrow> run_inv dec pack c'"
proof (induction rule: client_run.induct)
  case (call c c')
  then show ?case by (rule inv_client_call)
next
  case (pool n c)
  then show ?case by (intro inv_pool)
next
  case (dialled j t c e r now c1)
  then show ?case using inv_dialled [OF dialled.prems dialled.hyps(1,2), of e "fst r" "snd r" cln now c1] by simp
next
  case (thread j t c b r)
  then show ?case using inv_thread [OF thread.prems thread.hyps(1), of b "fst r" "snd r"] by simp
next
  case (start_enter j t c i k b r)
  then show ?case using inv_start_enter [OF start_enter.prems start_enter.hyps(1-3), of b "fst r" "snd r"] by simp
next
  case (start_next c j i k k')
  then show ?case by (intro inv_start_next)
next
  case (stop_enter j t c i t' k)
  then show ?case by (intro inv_stop_enter) (simp_all add: acting_def)
next
  case (stop_return c j i n t' k b w)
  then show ?case by (intro inv_stop_return)
next
  case (handoff i c k m ms)
  then show ?case by (intro inv_handoff)
next
  case (other i c k k')
  then show ?case by (intro inv_conn) auto
next
  case (serve c p)
  then show ?case by (intro inv_serve)
next
  case (restarted x c)
  show ?case by (rule inv_plain [OF restarted.prems]) (simp_all add: Client_Start_def case_prod_beta)
qed

lemma inv_new: "run_inv dec pack (NewClient tlv ip port opts)"
proof -
  let ?c = "NewClient tlv ip port opts :: ('a, 'b, 'c, 'd, 'e) Client"
  have "feeding (\<lambda>_. None) (set (published (life ?c))) (pool ?c)"
  proof (rule feeding_none)
    show "pool_ok (pool ?c)" by (simp add: NewClient_def Let_def pool_ok_New)
  qed (simp_all add: NewClient_def Let_def init_pool_def busy_def SetMetrics_def NewMsgHandler_def)
  then show ?thesis
    by (simp add: run_inv_def NewClient_def Let_def client_reachable.new stored_ok_def lists_ok_def on_record_def inside_ok_def ready_ok_def)
      (simp add: new_life_def)
qed

lemma runs_inv: "client_runs dec pack cln tlv c \<Longrightarrow> run_inv dec pack c"
  by (induction rule: client_runs.induct) (simp_all add: inv_new inv_run)

end
