(* ===== verification/Kinz_Sessions.thy ===== *)
theory Kinz_Sessions
  imports Kinz_ClientRuns
begin

text \<open>
  The properties of the client of \<^verbatim>\<open>src/knet/client.go\<close> together with its connections and its pool: which connections run,
  what \<^verbatim>\<open>Stop\<close> leaves behind, the hooks, the metrics, and the messages of the server. They rest on the invariant of
  \<^verbatim>\<open>Kinz_ClientRuns\<close> and, for the messages, on the locale of hosts.
\<close>

section \<open>The client as a host\<close>

interpretation client_host: conn_host "client_runs dec pack cln tlv" dec pack conns "\<lambda>c. set (published (life c))" cloned pool
  for dec pack cln tlv
proof
  fix c i k
  assume "client_runs dec pack cln tlv c"
  then have inv: "run_inv dec pack c" by (rule runs_inv)
  then show "feeding (conns c) (set (published (life c))) (pool c)" by (rule run_invD(6))
  show "\<exists>cod. cloned c i = Some cod \<and> conn_reachable dec pack cod k" if "conns c i = Some k" by (rule storedD(4) [OF inv that])
qed

interpretation tlv_client: tlv_host "client_runs Decode Pack Clone tlv" conns "\<lambda>c. set (published (life c))" cloned pool
  for tlv
  by unfold_locales

section \<open>Hooks and metrics\<close>

text \<open>How often a hook has been called for connection \<open>i\<close>.\<close>

definition calls :: "hook \<Rightarrow> u64 \<Rightarrow> ('c, 'v, 'e, 'f, 'h) Client \<Rightarrow> nat" where
  "calls h i c = length (filter (\<lambda>(h', f, i'). h' = h \<and> i' = i) (called c))"

lemma calls_cong: "called c = called c' \<Longrightarrow> calls h i c = calls h i c'"
  by (simp add: calls_def)

definition hooked :: "(u64 \<rightharpoonup> ('c, 'v, 'e, 'f) Connection) \<Rightarrow> u64 \<Rightarrow> hook \<Rightarrow> nat" where
  "hooked cs i h = (case cs i of None \<Rightarrow> 0 | Some k \<Rightarrow> count_list (hooks k) h)"

definition hooks_inv :: "('c, 'v, 'e, 'f, 'h) Client \<Rightarrow> bool" where
  "hooks_inv c \<longleftrightarrow> (\<forall>h i. calls h i c \<le> hooked (conns c) i h)"

text \<open>The client decrements the gauge of active connections and never increments it.\<close>

definition gauge_inv :: "('c, 'v, 'e, 'f, 'h) Client \<Rightarrow> bool" where
  "gauge_inv c \<longleftrightarrow> connsActive c \<le> 0"

lemma call_hooks_calls: "calls h n (call_hooks i hs c) \<le> calls h n c + (if n = i then count_list hs h else 0)"
proof (induction i hs c rule: call_hooks.induct)
  case (2 i hs c)
  have "calls h n (CallOnConnStart i c) \<le> calls h n c + of_bool (n = i \<and> h = OnConnStart)"
    by (simp add: CallOnConnStart_def calls_def split: option.split)
  then show ?case using 2 by (auto split: if_splits)
next
  case (3 i hs c)
  have "calls h n (CallOnConnStop i c) \<le> calls h n c + of_bool (n = i \<and> h = OnConnStop)"
    by (simp add: CallOnConnStop_def calls_def split: option.split)
  then show ?case using 3 by (auto split: if_splits)
qed simp

lemma call_hooks_gauge: "connsActive (call_hooks i hs c) = connsActive c" "connsClosed (call_hooks i hs c) = connsClosed c"
  by (induction i hs c rule: call_hooks.induct) (simp_all add: CallOnConnStart_def CallOnConnStop_def split: option.split)

lemma host_calls: "calls h n (host i k k' c) \<le> calls h n c + (if n = i then count_list (drop (length (hooks k)) (hooks k')) h else 0)"
proof -
  let ?hs = "drop (length (hooks k)) (hooks k')"
  let ?c1 = "if cstate k' = stateClosed \<and> cstate k \<noteq> stateClosed then c\<lparr>life := close_begin i (life c)\<rparr> else c"
  have "calls h n ?c1 = calls h n c" by (rule calls_cong) simp
  moreover have "calls h n (host i k k' c) = calls h n (call_hooks i ?hs ?c1)" by (rule calls_cong) (simp add: host_def Let_def)
  ultimately show ?thesis using call_hooks_calls [of h n i ?hs ?c1] by linarith
qed

lemma host_gauge:
  "connsActive (host i k k' c) = connsActive c + (gauge_of k' - gauge_of k)" "connsClosed (host i k k' c) = connsClosed c + (closed_of k' - closed_of k)"
  by (simp_all add: host_def Let_def call_hooks_gauge)

lemma hooks_extend:
  assumes "conn_step dec pack k k'" and "spc k \<noteq> StartCas \<or> spc k' = spc k"
  shows "hooks k' = hooks k @ drop (length (hooks k)) (hooks k')"
  using assms by (cases rule: conn_stepE) (auto simp: calm_def)

lemma hooks_host:
  assumes "hooks_inv c" and "conns c i = Some k" and "conn_step dec pack k k'" and "spc k \<noteq> StartCas \<or> spc k' = spc k"
  shows "hooks_inv (host i k k' c)"
proof (unfold hooks_inv_def, intro allI)
  fix h n
  have "calls h n c \<le> hooked (conns c) n h" using assms(1) by (simp add: hooks_inv_def)
  moreover have "count_list (hooks k') h = count_list (hooks k) h + count_list (drop (length (hooks k)) (hooks k')) h"
    using hooks_extend [OF assms(3,4)] by (metis count_list_append)
  ultimately show "calls h n (host i k k' c) \<le> hooked (conns (host i k k' c)) n h"
    using host_calls [of h n i k k' c] assms(2) by (simp add: hooked_def split: if_splits)
qed

lemma gauge_mono:
  assumes "conn_step dec pack k k'" and "conn_inv k"
  shows "gauge_of k' \<le> gauge_of k"
  using conn_step_mono [OF assms(1)] assms(2) conn_inv_step [OF assms]
  by (auto simp: conn_inv_def metrics_inv_def gauge_of_def split: option.splits)

lemma tally_gauge:
  assumes "gauge_inv c" and "conn_step dec pack k k'" and "conn_inv k"
  shows "gauge_inv (host i k k' c)"
  using assms(1) gauge_mono [OF assms(2,3)] by (simp add: gauge_inv_def host_gauge)

text \<open>Both hold of every client; connections are added and changed without their hooks being called otherwise.\<close>

definition tally :: "('c, 'v, 'e, 'f, 'h) Client \<Rightarrow> bool" where
  "tally c \<longleftrightarrow> hooks_inv c \<and> gauge_inv c"

lemma tally_same:
  fixes c c' :: "('c, 'v, 'e, 'f, 'h) Client"
  assumes "tally c" and "called c' = called c" and "connsActive c' = connsActive c" and "connsClosed c' = connsClosed c"
    and "\<And>i h. hooked (conns c) i h \<le> hooked (conns c') i h"
  shows "tally c'"
proof -
  have "calls h i c' \<le> hooked (conns c') i h" for h i
    using assms(1) assms(5) [of i h] calls_cong [OF assms(2), of h i] unfolding tally_def hooks_inv_def by (metis order_trans)
  then show ?thesis using assms(1,3,4) by (simp add: tally_def hooks_inv_def gauge_inv_def)
qed

lemma tally_host:
  assumes "tally c" and "run_inv dec pack c" and "conns c i = Some k" and "conn_step dec pack k k'" and "spc k \<noteq> StartCas \<or> spc k' = spc k"
  shows "tally (host i k k' c)"
  using assms(1) hooks_host [OF _ assms(3-5)] tally_gauge [of c, OF _ assms(4) storedD(2) [OF assms(2,3)]] by (simp add: tally_def)

lemma tally_run: "client_run dec pack cln c c' \<Longrightarrow> run_inv dec pack c \<Longrightarrow> tally c \<Longrightarrow> tally c'"
proof (induction rule: client_run.induct)
  case (call c c')
  then show ?case
    by (intro tally_same [OF call.prems(2)])
      (auto elim!: client_call.cases simp: SetOnConnStart_def SetOnConnStop_def SetCodec_def SetName_def Client_AddRouterSlices_def
        StartHeartBeatWithOption_def Client_Start_def Client_Stop_def Restart_def case_prod_beta)
next
  case (dialled j t c e r now c1)
  have "ClientLife.connID (life c) \<noteq> - 1" using dialled.hyps(1) by (simp add: acting_def)
  note fresh = fresh_id(2) [OF run_invD(3) [OF dialled.prems(1)] this]
  from dialled.hyps(4) show ?case
    by (elim dialled_connE) (intro tally_same [OF dialled.prems(2)]; simp add: moved_def hooked_def fresh)
next
  case (start_enter j t c i k b r)
  then show ?case by (intro tally_same [OF start_enter.prems(2)]) (auto simp: start_enter_def moved_def hooked_def split: option.splits)
next
  case (start_next c j i k k')
  have "spc k \<noteq> StartCas" using run_invD(4) [OF start_next.prems(1)] start_next.hyps(1,2) by (fastforce simp: inside_ok_def)
  then have "tally (host i k k' c)"
    using start_next by (intro tally_host [of c dec pack] conn_step.internal conn_internal.start) simp_all
  then show ?case by (simp add: start_next_def Let_def tally_def hooks_inv_def gauge_inv_def calls_def)
next
  case (stop_enter j t c i t' k)
  then show ?case by (intro tally_same [OF stop_enter.prems(2)]) (auto simp: stop_enter_def stop_call_def hooked_def)
next
  case (handoff i c k m ms)
  then have "tally (host i k (dispatch_action (m # ms) k) c)"
    by (intro tally_host [of c dec pack] conn_step.internal conn_internal.handoff) simp_all
  then show ?case by (simp add: tally_def hooks_inv_def gauge_inv_def calls_def del: dispatch_action.simps)
next
  case (other i c k k')
  then show ?case by (intro tally_host [of c dec pack]) simp_all
qed (erule tally_same; simp add: end_stop_def moved_def Client_Start_def case_prod_beta)+

lemma runs_tally: "client_runs dec pack cln tlv c \<Longrightarrow> tally c"
proof (induction rule: client_runs.induct)
  case (new ip port opts)
  show ?case by (simp add: tally_def hooks_inv_def gauge_inv_def calls_def NewClient_def Let_def)
next
  case (step c c')
  then show ?case using tally_run runs_inv by blast
qed

section \<open>Schedules\<close>

type_synonym tlv_client = "(TLVPack, nat, nat, nat, nat) Client"

text \<open>A call, a step of goroutine \<open>j\<close> outside or inside a connection, a step of a connection, or one of the pool.\<close>

datatype client_move =
    SetStartHook nat | SetStopHook nat | StartCall | StopCall | RestartCall | PoolMove nat | ThreadMove bool nat | RestartMove
  | EnterStart nat | NextStart nat | EnterStop nat | LeaveStop nat
  | ClientConn u64 act | ClientHand u64 | ClientCommit | ClientWork nat

fun run_client_move :: "client_move \<Rightarrow> tlv_client \<Rightarrow> tlv_client option" where
  "run_client_move (SetStartHook f) c = Some (SetOnConnStart (Some f) c)"
| "run_client_move (SetStopHook f) c = Some (SetOnConnStop (Some f) c)"
| "run_client_move StartCall c = Some (snd (Client_Start c))"
| "run_client_move StopCall c = Some (Client_Stop c)"
| "run_client_move RestartCall c = Some (Restart c)"
| "run_client_move (PoolMove n) c =
     (if Starting n DialNet \<in> set (threads (life c)) \<and> n \<notin> set (poolReady c)
      then Some (c\<lparr>pool := start_pool (pool c), poolReady := n # poolReady c\<rparr>) else None)"
| "run_client_move (ThreadMove b j) c =
     (let t = threads (life c) ! j in
      if \<not> acting j t c then None
      else if dial_of t = Some DialNet \<and> b
      then (case make_conn Clone 5 c of Panic \<Rightarrow> None | Ret c1 \<Rightarrow> map_option (\<lambda>r. moved j r c1) (thread_step (True, Plain []) t (life c)))
      else if start_of t = None \<and> stop_of t = None
      then map_option (\<lambda>r. end_stop t (moved j r c)) (thread_step (b, Plain []) t (life c)) else None)"
| "run_client_move RestartMove c =
     (case restarts c of [] \<Rightarrow> None
      | x # xs \<Rightarrow> if restart_ready x c then Some ((snd (Client_Start c))\<lparr>restarts := xs\<rparr>) else None)"
| "run_client_move (EnterStart j) c =
     (let t = threads (life c) ! j in
      if \<not> acting j t c then None
      else case start_of t of None \<Rightarrow> None
        | Some i \<Rightarrow> (case conns c i of None \<Rightarrow> None
            | Some k \<Rightarrow> map_option (\<lambda>r. start_enter j i k (moved j r c)) (thread_step (True, Plain []) t (life c))))"
| "run_client_move (NextStart j) c =
     (case inside c j of
        Some (InStart i) \<Rightarrow> (case conns c i of None \<Rightarrow> None
          | Some k \<Rightarrow> map_option (\<lambda>k'. start_next j i k k' c) (start_action (GetHeartBeat c) (spc k) k))
      | _ \<Rightarrow> None)"
| "run_client_move (EnterStop j) c =
     (let t = threads (life c) ! j in
      if \<not> acting j t c then None
      else case stop_of t of None \<Rightarrow> None
        | Some (i, t') \<Rightarrow> map_option (\<lambda>k. stop_enter j i k c) (conns c i))"
| "run_client_move (LeaveStop j) c =
     (case inside c j of
        Some (InStop i n) \<Rightarrow> (case (stop_of (threads (life c) ! j), conns c i) of
          (Some (i', t'), Some k) \<Rightarrow> (case stops k ! n of
            StopRet b w \<Rightarrow> if i' = i \<and> ClientLife.connID (life c) \<noteq> - 1 then Some ((moved j (t', life c) c)\<lparr>inside := (inside c)(j := None)\<rparr>) else None
          | _ \<Rightarrow> None)
        | _ \<Rightarrow> None)
      | _ \<Rightarrow> None)"
| "run_client_move (ClientConn i a) c =
     (if i \<in> set (published (life c))
      then (case conns c i of None \<Rightarrow> None
        | Some k \<Rightarrow> (case run_act a k of None \<Rightarrow> None
          | Some k' \<Rightarrow> if spc k' = spc k \<and> dispatched k' = dispatched k \<and> (rd k' = rd k \<or> i \<notin> busy (pool c)) then Some (host i k k' c) else None))
      else None)"
| "run_client_move (ClientHand i) c =
     (if i \<in> set (published (life c)) \<and> i \<notin> busy (pool c)
      then (case conns c i of None \<Rightarrow> None
        | Some k \<Rightarrow> (case rd k of
            Dispatching (m # ms) \<Rightarrow> Some ((host i k (dispatch_action (m # ms) k) c)\<lparr>pool := check_send (NewRequest i (Some m)) (pool c)\<rparr>)
          | _ \<Rightarrow> None))
      else None)"
| "run_client_move ClientCommit c = map_option (\<lambda>p. c\<lparr>pool := p\<rparr>) (commit_move (pool c))"
| "run_client_move (ClientWork i) c = map_option (\<lambda>p. c\<lparr>pool := p\<rparr>) (work_move i (pool c))"

fun run_client_moves :: "client_move list \<Rightarrow> tlv_client \<Rightarrow> tlv_client option" where
  "run_client_moves [] c = Some c"
| "run_client_moves (a # as) c = (case run_client_move a c of Some c' \<Rightarrow> run_client_moves as c' | None \<Rightarrow> None)"

abbreviation tlv_run :: "tlv_client \<Rightarrow> tlv_client \<Rightarrow> bool" where
  "tlv_run \<equiv> client_run Decode Pack Clone"

lemma thread_move_run: "run_client_move (ThreadMove b j) c = Some c' \<Longrightarrow> tlv_run c c'"
  using client_run.thread [of j "threads (life c) ! j" c "(b, Plain [])" _ Decode Pack Clone]
  by (auto simp: Let_def simp del: thread_step.simps intro: client_run.dialled split: if_splits outcome.splits)

lemma inner_move_run:
  "run_client_move (EnterStart j) c = Some c' \<Longrightarrow> tlv_run c c'" "run_client_move (NextStart j) c = Some c' \<Longrightarrow> tlv_run c c'"
  "run_client_move (EnterStop j) c = Some c' \<Longrightarrow> tlv_run c c'" "run_client_move (LeaveStop j) c = Some c' \<Longrightarrow> tlv_run c c'"
  by (auto simp: Let_def simp del: thread_step.simps start_action.simps intro: client_run.start_enter client_run.start_next client_run.stop_enter
      client_run.stop_return split: if_splits option.splits inner.splits stopper.splits prod.splits)

lemma conn_move_run: "run_client_move (ClientConn i a) c = Some c' \<Longrightarrow> tlv_run c c'" "run_client_move (ClientHand i) c = Some c' \<Longrightarrow> tlv_run c c'"
  by (auto simp del: run_act.simps dispatch_action.simps dest: run_act_step intro: client_run.other client_run.handoff
      split: if_splits option.splits reader.splits list.splits)

lemma client_move_run: "run_client_move a c = Some c' \<Longrightarrow> tlv_run c c'"
proof (cases a)
  case (PoolMove n)
  moreover assume "run_client_move a c = Some c'"
  ultimately show ?thesis using client_run.pool [of n c Decode Pack Clone] by (simp split: if_splits)
next
  case RestartMove
  moreover assume "run_client_move a c = Some c'"
  ultimately obtain x xs where "restarts c = x # xs" "restart_ready x c" "c' = (snd (Client_Start c))\<lparr>restarts := remove1 x (restarts c)\<rparr>"
    by (auto split: list.splits if_splits)
  then show ?thesis using client_run.restarted [of x c Decode Pack Clone] by (simp del: remove1.simps)
qed (auto simp only: thread_move_run inner_move_run conn_move_run, auto intro: client_run.call client_call.intros client_run.serve pool_moves)

lemma client_moves_runs: "run_client_moves as c = Some c' \<Longrightarrow> client_runs Decode Pack Clone tlv c \<Longrightarrow> client_runs Decode Pack Clone tlv c'"
proof (induction as arbitrary: c)
  case (Cons a as)
  then obtain d where "run_client_move a c = Some d" "run_client_moves as d = Some c'" by (auto split: option.splits)
  with Cons.IH client_runs.step [OF Cons.prems(2) client_move_run] show ?case by blast
qed simp

definition demo_client :: tlv_client where
  "demo_client = NewClient id [] 8999 []"

lemma demo_client_runs: "run_client_moves as demo_client = Some c \<Longrightarrow> client_runs Decode Pack Clone id c"
  by (erule client_moves_runs) (simp add: demo_client_def client_runs.new)

lemmas client_move_defs = demo_client_def NewClient_def Default_def Client_Start_def Client_Stop_def Restart_def restart_ready_def SetOnConnStart_def SetOnConnStop_def
  acting_def start_of_def moved_def end_stop_def start_enter_def start_next_def stop_enter_def client_defs make_conn_def NewConnection_def
  init_pool_def SetMetrics_def NewMsgHandler_def start_pool_def StartWorkerPool_def StopWorkerPool_def
  new_conn_def touch_def stop_call_def host_def gauge_of_def closed_of_def CallOnConnStart_def CallOnConnStop_def
  no_counts_def count_down_def count_closed_def busy_def make_chan_def Clone_def NewTLVPackWithOrder_def

abbreviation one_life :: "client_move list" where
  "one_life \<equiv> [SetStartHook 5, SetStopHook 6, StartCall, PoolMove 0, ThreadMove True 0, ThreadMove True 0, ThreadMove True 0, EnterStart 0,
     NextStart 0, NextStart 0, NextStart 0, NextStart 0, NextStart 0]"

abbreviation lose_it :: "client_move list" where
  "lose_it \<equiv> map (ClientConn 1) ([ReadErr] @ full_once)"

text \<open>\<^verbatim>\<open>Conn\<close> goes on returning a connection that is lost.\<close>

lemma lost_connection_returned:
  "\<exists>c k. run_client_moves (one_life @ lose_it) demo_client = Some c \<and> Conn c = Some 1 \<and> conns c 1 = Some k \<and> cstate k = stateClosed \<and> opc k = OnceDone"
  by (simp add: client_move_defs Conn_def)

section \<open>Properties\<close>

text \<open>
  C25: one connection. In every interleaving of calls of \<^verbatim>\<open>Start\<close>, \<^verbatim>\<open>Stop\<close> and \<^verbatim>\<open>Restart\<close>, also overlapping ones, and of the
  setters with the reconnection loops and the goroutines of the connections and workers, whenever no \<^verbatim>\<open>Stop\<close> is in the middle
  of stopping the connections it took out of the manager, at most one connection of the client is in the running state, and
  it is the one registered under its id.
\<close>

theorem client_single_connection:
  assumes "client_runs dec pack cln tlv c" and "\<forall>t \<in> set (threads (life c)). pend t = []"
    and "conns c i = Some k" "cstate k = stateRunning" and "conns c i' = Some k'" "cstate k' = stateRunning"
  shows "i = i' \<and> Get i (connMgr (life c)) = Inr i"
proof -
  have inv: "run_inv dec pack c" using assms(1) by (rule runs_inv)
  have "i \<in> set (live (life c))" "i' \<in> set (live (life c))" using storedD(1) [OF inv] assms(3-6) by (auto simp: agrees_def)
  then show ?thesis using one_live [OF client_reachable_inv [OF run_invD(1) [OF inv]] assms(2)] by (cases "live (life c)") auto
qed

theorem client_single_connection_witness:
  "\<exists>c k. run_client_moves one_life demo_client = Some c \<and> conns c 1 = Some k \<and> cstate k = stateRunning \<and> Get 1 (connMgr (life c)) = Inr 1"
proof -
  obtain c k where c: "run_client_moves one_life demo_client = Some c" "conns c 1 = Some k" "cstate k = stateRunning" "\<forall>t \<in> set (threads (life c)). pend t = []"
    by (simp add: client_move_defs)
  with client_single_connection [OF demo_client_runs [OF c(1)] c(4,2,3,2,3)] show ?thesis by blast
qed

text \<open>
  C26: \<^verbatim>\<open>Stop\<close> is final. In the first session of a client, from the moment a call of \<^verbatim>\<open>Stop\<close> has stopped the stored
  connection, and so also when it has returned, no connection is running and none will, even if a redial was on its way
  to register and start a new one when \<^verbatim>\<open>Stop\<close> came.
\<close>

theorem client_stop_final:
  assumes "client_runs dec pack cln tlv c" and "length (ctxs (life c)) \<le> 1" and "stopping (life c)" and "\<forall>t \<in> set (threads (life c)). \<not> early t"
    and "conns c i = Some k"
  shows "cstate k \<noteq> stateRunning"
proof -
  have inv: "run_inv dec pack c" using assms(1) by (rule runs_inv)
  have "live (life c) = []" using run_invD(1) [OF inv] assms(2-4) by (rule stopped_for_good)
  then show ?thesis using storedD(1) [OF inv assms(5)] by (simp add: agrees_def)
qed

abbreviation redial_under_stop :: "client_move list" where
  "redial_under_stop \<equiv> one_life @ lose_it @ [ThreadMove False 0, ThreadMove False 0, ThreadMove False 0, ThreadMove True 0, ThreadMove True 0,
     StopCall, ThreadMove True 1, EnterStop 1] @ map (ClientConn 2) (full_once @ [DoStop 0]) @ [LeaveStop 1, ThreadMove True 1, ThreadMove True 1,
     ThreadMove True 0, EnterStart 0]"

theorem client_stop_final_witness:
  "\<exists>c k. run_client_moves redial_under_stop demo_client = Some c \<and> threads (life c) = [Running 0 (RunSelect 0), Finished] \<and>
     conns c 2 = Some k \<and> cstate k \<noteq> stateRunning"
proof -
  have "\<exists>c k. run_client_moves redial_under_stop demo_client = Some c \<and>
      threads (life c) = [Running 0 (RunSelect 0), Finished] \<and> stopping (life c) \<and> length (ctxs (life c)) \<le> 1 \<and> conns c 2 = Some k"
    by (simp add: client_move_defs)
  then obtain c k where c: "run_client_moves redial_under_stop demo_client = Some c"
    "threads (life c) = [Running 0 (RunSelect 0), Finished]" "stopping (life c)" "length (ctxs (life c)) \<le> 1" "conns c 2 = Some k" by blast
  with client_stop_final [OF demo_client_runs [OF c(1)] c(4,3) _ c(5)] show ?thesis by auto
qed

text \<open>
  C27: hooks are called once. However the setters replace the hooks while the client runs, the start hook and the stop hook
  in force at the time are called at most once for each connection, and a running connection has had no stop hook.
\<close>

theorem client_hooks_once:
  assumes "client_runs dec pack cln tlv c"
  shows "calls OnConnStart i c \<le> 1 \<and> calls OnConnStop i c \<le> 1 \<and>
    (\<forall>k. conns c i = Some k \<and> cstate k = stateRunning \<longrightarrow> calls OnConnStop i c = 0)"
proof -
  have calls: "calls h i c \<le> hooked (conns c) i h" for h using runs_tally [OF assms] by (simp add: tally_def hooks_inv_def)
  show ?thesis
  proof (cases "conns c i")
    case None
    then show ?thesis using calls by (simp add: hooked_def)
  next
    case (Some k)
    have "conn_inv k" by (rule client_host.hosted_inv [OF assms Some])
    then have "count_list (hooks k) OnConnStart \<le> 1" "count_list (hooks k) OnConnStop \<le> 1"
      "cstate k = stateRunning \<Longrightarrow> count_list (hooks k) OnConnStop = 0"
      by (simp_all add: conn_inv_def once_inv_def life_inv_def)
    then show ?thesis using calls [of OnConnStart] calls [of OnConnStop] Some by (auto simp: hooked_def)
  qed
qed

theorem client_hooks_once_witness:
  "\<exists>c. run_client_moves (one_life @ lose_it) demo_client = Some c \<and> called c = [(OnConnStart, 5, 1), (OnConnStop, 6, 1)] \<and>
     calls OnConnStart 1 c \<le> 1 \<and> calls OnConnStop 1 c \<le> 1"
proof -
  obtain c where c: "run_client_moves (one_life @ lose_it) demo_client = Some c" "called c = [(OnConnStart, 5, 1), (OnConnStop, 6, 1)]"
    by (simp add: client_move_defs)
  from client_hooks_once [OF demo_client_runs [OF c(1)], of 1] c show ?thesis by blast
qed

text \<open>
  The gauge of active connections, which the client shares with whoever reads its metrics, never counts an open connection: it
  is never positive, and negative as soon as a connection has been closed.
\<close>

lemma client_gauge: "client_runs dec pack cln tlv c \<Longrightarrow> connsActive c \<le> 0"
  by (drule runs_tally) (simp add: tally_def gauge_inv_def)

lemma client_gauge_negative: "\<exists>c. run_client_moves (one_life @ lose_it) demo_client = Some c \<and> connsActive c = - 1"
  by (simp add: client_move_defs)

end
