(* ===== verification/Kinz_Server.thy ===== *)
theory Kinz_Server
  imports Kinz_Host Kinz_ConnManager Kinz_Config
begin

text \<open>
  The server of \<^verbatim>\<open>src/knet/server.go\<close> as a whole: its options, its setters, the accept loop with admission and rejection,
  \<^verbatim>\<open>Run\<close>, \<^verbatim>\<open>Shutdown\<close>, the metrics endpoint, and the connections and workers it runs. The state holds the connections of
  \<^verbatim>\<open>Kinz_Connection\<close> and the pool of \<^verbatim>\<open>Kinz_Workers\<close> themselves; \<open>server_step\<close> interleaves all goroutines, each cut at its
  accesses to shared state.
\<close>

section \<open>State\<close>

text \<open>Where the goroutines of the server are: the call of \<^verbatim>\<open>Run\<close>, the accept loop, the call of \<^verbatim>\<open>Shutdown\<close>, and the goroutine that it starts to drain the connections.\<close>

datatype run_pc = RunIdle | RunListen | RunFailed | RunBound | RunPool | RunGo | RunWait | RunShut | RunJoin bool | RunRet bool

datatype accept_pc =
    NoAccept | Accepting | Handling | Adding u64 | Counting u64 | CountingActive u64 | Launching u64
  | Rejecting go_error | RejectWrite go_error | AcceptDone

datatype shutdown_pc = NoShutdown | ShutClose bool "nat option" | ShutMetrics "nat option" | ShutWait | ShutPool | ShutJoin | ShutRet bool

datatype drain_pc = NoDrain | DrainClear | DrainStop "u64 list" | DrainWait u64 nat "u64 list" | Drained

text \<open>
  The struct. \<^typ>\<open>'c\<close> is the type of codecs, \<^typ>\<open>'h\<close> that of hooks; \<open>pool\<close> is the message handler with its goroutines.
  Connections are referred to by their ids and \<open>conns\<close> is the store. \<open>listener\<close> says whether the field is set, \<open>sock\<close>
  is \<^const>\<open>None\<close> until the socket is bound and then says whether it is open. The sockets of \<^verbatim>\<open>AttachMetrics\<close> are numbered:
  \<open>endpoints\<close> says which are open, \<open>attaching\<close> are those of calls that have not stored theirs yet.
  The last group records history: which ids the manager admitted and for which \<^verbatim>\<open>go c.Start()\<close> was executed, the codec each
  connection was given, the hooks called with the connection, and for each frame to a rejected peer the deadline, the frame and the
  part of it that was written.
\<close>

record ('c, 'v, 'e, 'f, 'h) Server =
  cfg :: Config
  connMgr :: "u64 ConnManager"
  pool :: "('v, 'e) pool"
  codec :: 'c
  hbTemplate :: "('v, 'e, 'f) HeartBeatChecker option"
  tlsConfig :: bool
  connsTotal :: nat
  connsActive :: int
  connsClosed :: nat
  connsRejected :: nat
  metricsListener :: "nat option"
  onConnStart :: "'h option"
  onConnStop :: "'h option"
  listener :: bool
  started :: bool
  closed :: bool
  connID :: u64
  sock :: "bool option"
  wrapped :: bool
  endpoints :: "bool list"
  attaching :: "nat list"
  rpc :: run_pc
  accepting :: accept_pc
  shut :: shutdown_pc
  drain :: drain_pc
  conns :: "u64 \<rightharpoonup> ('c, 'v, 'e, 'f) Connection"
  admitted :: "u64 list"
  launched :: "u64 list"
  cloned :: "u64 \<rightharpoonup> 'c"
  called :: "('h \<times> u64) list"
  refused :: "(int \<times> bytes \<times> bytes) list"

section \<open>Options\<close>

text \<open>
  The options act on the fields set so far: which \<^verbatim>\<open>Config\<close> object \<^verbatim>\<open>s.cfg\<close> points to, the objects themselves (a pointer is a
  number, \<^const>\<open>None\<close> the object that \<^verbatim>\<open>kconf.Default()\<close> made), and whether TLS is on.
\<close>

record server_setup =
  cfgPtr :: "nat option"
  heap :: "nat option \<Rightarrow> Config"
  setupTLS :: bool

datatype server_option = WithConfig nat | WithMaxConn int | WithName bytes | WithTLS bool

fun apply_server_option :: "server_option \<Rightarrow> server_setup \<Rightarrow> server_setup" where
  "apply_server_option (WithConfig p) s = s\<lparr>cfgPtr := Some p\<rparr>"
| "apply_server_option (WithMaxConn n) s = s\<lparr>heap := (heap s)(cfgPtr s := (heap s (cfgPtr s))\<lparr>MaxConn := n\<rparr>)\<rparr>"
| "apply_server_option (WithName n) s = s\<lparr>heap := (heap s)(cfgPtr s := (heap s (cfgPtr s))\<lparr>Name := n\<rparr>)\<rparr>"
| "apply_server_option (WithTLS t) s = s\<lparr>setupTLS := t\<rparr>"

definition setup_options :: "(nat \<Rightarrow> Config) \<Rightarrow> server_option list \<Rightarrow> server_setup" where
  "setup_options user opts =
     fold apply_server_option opts \<lparr>cfgPtr = None, heap = case_option Default user, setupTLS = False\<rparr>"

text \<open>\<^verbatim>\<open>NewServer\<close>; \<open>tlv\<close> is a \<^verbatim>\<open>TLVPack\<close> as an \<^verbatim>\<open>ICodec\<close>.\<close>

definition new_server :: "(TLVPack \<Rightarrow> 'c) \<Rightarrow> Config \<Rightarrow> bool \<Rightarrow> ('c, 'v, 'e, 'f, 'h) Server" where
  "new_server tlv c tls =
     \<lparr>cfg = c, connMgr = NewConnManager (MaxConn c),
      pool = init_pool (SetMetrics (Some \<lparr>panics = 0, duration = 0, queueFull = 0\<rparr>) (NewMsgHandler (WorkerPoolSize c) (MaxWorkerTaskLen c))),
      codec = tlv (NewTLVPackWithOrder (Some LittleEndian) (MaxPacketSize c)), hbTemplate = None, tlsConfig = tls,
      connsTotal = 0, connsActive = 0, connsClosed = 0, connsRejected = 0, metricsListener = None, onConnStart = None,
      onConnStop = None, listener = False, started = False, closed = False, connID = 0, sock = None, wrapped = False,
      endpoints = [], attaching = [], rpc = RunIdle, accepting = NoAccept, shut = NoShutdown, drain = NoDrain,
      conns = Map.empty, admitted = [], launched = [], cloned = Map.empty, called = [], refused = []\<rparr>"

definition NewServer :: "(TLVPack \<Rightarrow> 'c) \<Rightarrow> (nat \<Rightarrow> Config) \<Rightarrow> server_option list \<Rightarrow> ('c, 'v, 'e, 'f, 'h) Server" where
  "NewServer tlv user opts =
     (let st = setup_options user opts in new_server tlv (heap st (cfgPtr st)) (setupTLS st))"

section \<open>Calls\<close>

text \<open>The getters, the setters and the forwarding methods, each under its lock.\<close>

definition Server_Name :: "('c, 'v, 'e, 'f, 'h) Server \<Rightarrow> bytes" where [simp]:
  "Server_Name s = Name (cfg s)"

definition GetOnConnStart :: "('c, 'v, 'e, 'f, 'h) Server \<Rightarrow> 'h option" where [simp]:
  "GetOnConnStart s = onConnStart s"

definition GetOnConnStop :: "('c, 'v, 'e, 'f, 'h) Server \<Rightarrow> 'h option" where [simp]:
  "GetOnConnStop s = onConnStop s"

definition GetCodec :: "('c, 'v, 'e, 'f, 'h) Server \<Rightarrow> 'c" where [simp]:
  "GetCodec s = codec s"

definition GetHeartBeat :: "('c, 'v, 'e, 'f, 'h) Server \<Rightarrow> ('v, 'e, 'f) HeartBeatChecker option" where [simp]:
  "GetHeartBeat s = hbTemplate s"

definition SetOnConnStart :: "'h option \<Rightarrow> ('c, 'v, 'e, 'f, 'h) Server \<Rightarrow> ('c, 'v, 'e, 'f, 'h) Server" where
  "SetOnConnStart f s = s\<lparr>onConnStart := f\<rparr>"

definition SetOnConnStop :: "'h option \<Rightarrow> ('c, 'v, 'e, 'f, 'h) Server \<Rightarrow> ('c, 'v, 'e, 'f, 'h) Server" where
  "SetOnConnStop f s = s\<lparr>onConnStop := f\<rparr>"

definition SetCodec :: "'c \<Rightarrow> ('c, 'v, 'e, 'f, 'h) Server \<Rightarrow> ('c, 'v, 'e, 'f, 'h) Server" where
  "SetCodec c s = s\<lparr>codec := c\<rparr>"

definition CallOnConnStart :: "u64 \<Rightarrow> ('c, 'v, 'e, 'f, 'h) Server \<Rightarrow> ('c, 'v, 'e, 'f, 'h) Server" where
  "CallOnConnStart i s = (case GetOnConnStart s of None \<Rightarrow> s | Some f \<Rightarrow> s\<lparr>called := called s @ [(f, i)]\<rparr>)"

definition CallOnConnStop :: "u64 \<Rightarrow> ('c, 'v, 'e, 'f, 'h) Server \<Rightarrow> ('c, 'v, 'e, 'f, 'h) Server" where
  "CallOnConnStop i s = (case GetOnConnStop s of None \<Rightarrow> s | Some f \<Rightarrow> s\<lparr>called := called s @ [(f, i)]\<rparr>)"

definition set_handler :: "('v, 'e) MsgHandler \<Rightarrow> ('c, 'v, 'e, 'f, 'h) Server \<Rightarrow> ('c, 'v, 'e, 'f, 'h) Server" where
  "set_handler m s = s\<lparr>pool := (pool s)\<lparr>mh := m\<rparr>\<rparr>"

definition Server_AddRouterSlices ::
  "u32 \<Rightarrow> ('v, 'e) handler list \<Rightarrow> ('c, 'v, 'e, 'f, 'h) Server \<Rightarrow> (go_error + unit) \<times> ('c, 'v, 'e, 'f, 'h) Server" where
  "Server_AddRouterSlices i hs s = (let (r, m) = AddRouterSlices i hs (mh (pool s)) in (r, set_handler m s))"

definition Server_Group ::
  "u32 \<Rightarrow> u32 \<Rightarrow> ('v, 'e) handler list \<Rightarrow> ('c, 'v, 'e, 'f, 'h) Server \<Rightarrow> (go_error + u32 \<times> u32) \<times> ('c, 'v, 'e, 'f, 'h) Server" where
  "Server_Group a b hs s = (let (r, m) = Group a b hs (mh (pool s)) in (r, set_handler m s))"

definition Server_Use :: "('v, 'e) handler list \<Rightarrow> ('c, 'v, 'e, 'f, 'h) Server \<Rightarrow> ('c, 'v, 'e, 'f, 'h) Server" where
  "Server_Use hs s = set_handler (Use hs (mh (pool s))) s"

text \<open>
  \<^verbatim>\<open>SetHeartBeatWithOption\<close>: first the template under the lock, then the route for heartbeat frames; a duplicate
  registration is tolerated. \<open>handle\<close> is \<^verbatim>\<open>HeartBeatDefaultHandle\<close>.
\<close>

definition store_template ::
  "int \<Rightarrow> ('v, 'e, 'f) HeartBeatOption option \<Rightarrow> ('c, 'v, 'e, 'f, 'h) Server \<Rightarrow> ('c, 'v, 'e, 'f, 'h) Server" where
  "store_template ival opt s = s\<lparr>hbTemplate := Some (server_template ival opt)\<rparr>"

definition SetHeartBeatWithOption ::
  "('v, 'e) handler \<Rightarrow> int \<Rightarrow> ('v, 'e, 'f) HeartBeatOption option \<Rightarrow> ('c, 'v, 'e, 'f, 'h) Server \<Rightarrow> ('c, 'v, 'e, 'f, 'h) Server" where
  "SetHeartBeatWithOption handle ival opt s =
     snd (Server_AddRouterSlices (msgID (server_template ival opt)) [handle] (store_template ival opt s))"

definition StartHeartBeat :: "('v, 'e) handler \<Rightarrow> int \<Rightarrow> ('c, 'v, 'e, 'f, 'h) Server \<Rightarrow> ('c, 'v, 'e, 'f, 'h) Server" where
  "StartHeartBeat handle ival s = SetHeartBeatWithOption handle ival None s"

text \<open>\<^verbatim>\<open>AttachMetrics\<close>: binding a socket, then storing it under the lock unless one is stored. \<^verbatim>\<open>Address\<close> is nil before the listener is stored.\<close>

definition attach_listen :: "('c, 'v, 'e, 'f, 'h) Server \<Rightarrow> ('c, 'v, 'e, 'f, 'h) Server" where
  "attach_listen s = s\<lparr>endpoints := endpoints s @ [True], attaching := attaching s @ [length (endpoints s)]\<rparr>"

definition attach_store :: "nat \<Rightarrow> ('c, 'v, 'e, 'f, 'h) Server \<Rightarrow> go_error option \<times> ('c, 'v, 'e, 'f, 'h) Server" where
  "attach_store n s =
     (if metricsListener s \<noteq> None
      then (Some (Plain (str ''kinz: metrics endpoint already attached'')),
            s\<lparr>endpoints := (endpoints s)[n := False], attaching := remove1 n (attaching s)\<rparr>)
      else (None, s\<lparr>metricsListener := Some n, attaching := remove1 n (attaching s)\<rparr>))"

definition Address :: "(bytes \<Rightarrow> int \<Rightarrow> 'a) \<Rightarrow> ('c, 'v, 'e, 'f, 'h) Server \<Rightarrow> 'a option" where
  "Address addr s = (if listener s then Some (addr (Host (cfg s)) (Port (cfg s))) else None)"

section \<open>Run, accept, shutdown\<close>

definition Run :: "('c, 'v, 'e, 'f, 'h) Server \<Rightarrow> go_error option \<times> ('c, 'v, 'e, 'f, 'h) Server" where
  "Run s =
     (if started s then (Some (Plain (str ''kinz: server already started'')), s)
      else (None, s\<lparr>started := True, rpc := RunListen\<rparr>))"

definition Serve :: "('c, 'v, 'e, 'f, 'h) Server \<Rightarrow> go_error option \<times> ('c, 'v, 'e, 'f, 'h) Server" where
  "Serve s = Run s"

definition Shutdown :: "('c, 'v, 'e, 'f, 'h) Server \<Rightarrow> ('c, 'v, 'e, 'f, 'h) Server" where
  "Shutdown s =
     (if closed s then s
      else s\<lparr>closed := True, metricsListener := None, shut := ShutClose (listener s) (metricsListener s)\<rparr>)"

text \<open>The call of \<^verbatim>\<open>Run\<close> that set \<^verbatim>\<open>started\<close>; \<open>bound\<close> says whether \<^verbatim>\<open>net.Listen\<close> succeeds. At \<open>RunWait\<close> the context is done.\<close>

fun run_action :: "bool \<Rightarrow> run_pc \<Rightarrow> ('c, 'v, 'e, 'f, 'h) Server \<Rightarrow> ('c, 'v, 'e, 'f, 'h) Server option" where
  "run_action bound RunIdle s = None"
| "run_action bound RunListen s =
     Some (if bound then s\<lparr>sock := Some True, wrapped := tlsConfig s, rpc := RunBound\<rparr> else s\<lparr>rpc := RunFailed\<rparr>)"
| "run_action bound RunFailed s = Some (s\<lparr>started := False, rpc := RunIdle\<rparr>)"
| "run_action bound RunBound s = Some (s\<lparr>listener := True, rpc := RunPool\<rparr>)"
| "run_action bound RunPool s = Some (s\<lparr>pool := start_pool (pool s), rpc := RunGo\<rparr>)"
| "run_action bound RunGo s = Some (s\<lparr>accepting := Accepting, rpc := RunWait\<rparr>)"
| "run_action bound RunWait s = Some (if closed s then s\<lparr>rpc := RunJoin True\<rparr> else (Shutdown s)\<lparr>rpc := RunShut\<rparr>)"
| "run_action bound RunShut s = (case shut s of ShutRet ok \<Rightarrow> Some (s\<lparr>rpc := RunJoin ok\<rparr>) | _ \<Rightarrow> None)"
| "run_action bound (RunJoin ok) s = (if accepting s = AcceptDone then Some (s\<lparr>rpc := RunRet ok\<rparr>) else None)"
| "run_action bound (RunRet ok) s = None"

text \<open>
  The accept loop. \<^verbatim>\<open>handleConn\<close> makes the connection, adds it to the manager, counts it and starts it;
  \<^verbatim>\<open>rejectConn\<close> counts, writes the frame and closes. An error of \<^verbatim>\<open>Accept\<close> other than a closed listener changes nothing.
\<close>

definition make_conn :: "('c \<Rightarrow> 'c) \<Rightarrow> int \<Rightarrow> ('c, 'v, 'e, 'f, 'h) Server \<Rightarrow> ('c, 'v, 'e, 'f, 'h) Server outcome" where
  "make_conn cln now s =
     (let i = connID s + 1; cod = cln (GetCodec s) in
      case NewConnection i cod (WriteQueueSize (cfg s)) (WriteTimeout (cfg s)) True now of
        Panic \<Rightarrow> Panic
      | Ret c \<Rightarrow> Ret (s\<lparr>connID := i, conns := (conns s)(i \<mapsto> c), cloned := (cloned s)(i \<mapsto> cod), accepting := Adding i\<rparr>))"

definition add_conn :: "u64 \<Rightarrow> ('c, 'v, 'e, 'f, 'h) Server \<Rightarrow> ('c, 'v, 'e, 'f, 'h) Server" where
  "add_conn i s =
     (case Add id i (connMgr s) of
        (Some e, _) \<Rightarrow> s\<lparr>accepting := Rejecting e\<rparr>
      | (None, m) \<Rightarrow> s\<lparr>connMgr := m, admitted := admitted s @ [i], accepting := Counting i\<rparr>)"

text \<open>
  What \<^verbatim>\<open>rejectConn\<close> does with the socket after it has counted; \<open>wrote\<close> is how much \<^verbatim>\<open>Write\<close> puts on the wire before it returns, with
  an error when that is not everything. The deadline is set \<^verbatim>\<open>WriteTimeout\<close> ahead; all errors are ignored.
\<close>

definition reject_write ::
  "('c \<Rightarrow> Message \<Rightarrow> go_error + bytes) \<Rightarrow> int \<Rightarrow> nat \<Rightarrow> go_error \<Rightarrow> ('c, 'v, 'e, 'f, 'h) Server \<Rightarrow> ('c, 'v, 'e, 'f, 'h) Server" where
  "reject_write pack now wrote cause s =
     (case pack (GetCodec s) (NewMessage ServerFullMsgID (error_text cause)) of
        Inr w \<Rightarrow> s\<lparr>refused := refused s @ [(now + WriteTimeout (cfg s), w, take wrote w)], accepting := Accepting\<rparr>
      | Inl e \<Rightarrow> s\<lparr>accepting := Accepting\<rparr>)"

fun accept_action ::
  "('c \<Rightarrow> Message \<Rightarrow> go_error + bytes) \<Rightarrow> ('c \<Rightarrow> 'c) \<Rightarrow> int \<Rightarrow> nat \<Rightarrow> accept_pc \<Rightarrow>
   ('c, 'v, 'e, 'f, 'h) Server \<Rightarrow> ('c, 'v, 'e, 'f, 'h) Server outcome option" where
  "accept_action pack cln now wrote NoAccept s = None"
| "accept_action pack cln now wrote Accepting s =
     (case sock s of None \<Rightarrow> None | Some up \<Rightarrow> Some (Ret (s\<lparr>accepting := if up then Handling else AcceptDone\<rparr>)))"
| "accept_action pack cln now wrote Handling s = Some (make_conn cln now s)"
| "accept_action pack cln now wrote (Adding i) s = Some (Ret (add_conn i s))"
| "accept_action pack cln now wrote (Counting i) s = Some (Ret (s\<lparr>connsTotal := Suc (connsTotal s), accepting := CountingActive i\<rparr>))"
| "accept_action pack cln now wrote (CountingActive i) s = Some (Ret (s\<lparr>connsActive := connsActive s + 1, accepting := Launching i\<rparr>))"
| "accept_action pack cln now wrote (Launching i) s = Some (Ret (s\<lparr>launched := launched s @ [i], accepting := Accepting\<rparr>))"
| "accept_action pack cln now wrote (Rejecting e) s = Some (Ret (s\<lparr>connsRejected := Suc (connsRejected s), accepting := RejectWrite e\<rparr>))"
| "accept_action pack cln now wrote (RejectWrite e) s = Some (Ret (reject_write pack now wrote e s))"
| "accept_action pack cln now wrote AcceptDone s = None"

text \<open>\<^verbatim>\<open>Shutdown\<close> after its lock; \<open>late\<close> says whether its context is done.\<close>

fun shutdown_action :: "bool \<Rightarrow> shutdown_pc \<Rightarrow> ('c, 'v, 'e, 'f, 'h) Server \<Rightarrow> ('c, 'v, 'e, 'f, 'h) Server option" where
  "shutdown_action late NoShutdown s = None"
| "shutdown_action late (ShutClose l m) s =
     Some (s\<lparr>sock := if l then map_option (\<lambda>_. False) (sock s) else sock s, shut := ShutMetrics m\<rparr>)"
| "shutdown_action late (ShutMetrics m) s =
     Some (s\<lparr>endpoints := (case m of None \<Rightarrow> endpoints s | Some n \<Rightarrow> (endpoints s)[n := False]), drain := DrainClear, shut := ShutWait\<rparr>)"
| "shutdown_action late ShutWait s =
     (if late then Some (s\<lparr>shut := ShutRet False\<rparr>) else if drain s = Drained then Some (s\<lparr>shut := ShutPool\<rparr>) else None)"
| "shutdown_action late ShutPool s =
     Some ((set_handler (StopWorkerPool (mh (pool s))) s)\<lparr>shut := if workerCancel (mh (pool s)) then ShutJoin else ShutRet True\<rparr>)"
| "shutdown_action late ShutJoin s = (if stop_returns late (mh (pool s)) then Some (s\<lparr>shut := ShutRet True\<rparr>) else None)"
| "shutdown_action late (ShutRet ok) s = None"

text \<open>
  The draining goroutine runs \<^verbatim>\<open>ClearConn\<close>: a snapshot and an empty map, then one \<^verbatim>\<open>Stop\<close> after the other; \<open>js\<close> is the
  snapshot in the order in which the map is iterated.
\<close>

fun drain_action :: "u64 list \<Rightarrow> drain_pc \<Rightarrow> ('c, 'v, 'e, 'f, 'h) Server \<Rightarrow> ('c, 'v, 'e, 'f, 'h) Server option" where
  "drain_action js NoDrain s = None"
| "drain_action js DrainClear s =
     (if mset js = mset (map snd (connections (connMgr s)))
      then Some (s\<lparr>connMgr := (connMgr s)\<lparr>connections := []\<rparr>, drain := DrainStop js\<rparr>) else None)"
| "drain_action js (DrainStop []) s = Some (s\<lparr>drain := Drained\<rparr>)"
| "drain_action js (DrainStop (i # is)) s =
     (case conns s i of
        None \<Rightarrow> None
      | Some c \<Rightarrow> Some (s\<lparr>conns := (conns s)(i \<mapsto> stop_call c), drain := DrainWait i (length (stops c)) is\<rparr>))"
| "drain_action js (DrainWait i k is) s =
     (case conns s i of
        None \<Rightarrow> None
      | Some c \<Rightarrow> (case stops c ! k of StopRet b w \<Rightarrow> Some (s\<lparr>drain := DrainStop is\<rparr>) | _ \<Rightarrow> None))"
| "drain_action js Drained s = None"

section \<open>Connections under the server\<close>

fun call_hooks :: "u64 \<Rightarrow> hook list \<Rightarrow> ('c, 'v, 'e, 'f, 'h) Server \<Rightarrow> ('c, 'v, 'e, 'f, 'h) Server" where
  "call_hooks i [] s = s"
| "call_hooks i (OnConnStart # hs) s = call_hooks i hs (CallOnConnStart i s)"
| "call_hooks i (OnConnStop # hs) s = call_hooks i hs (CallOnConnStop i s)"

text \<open>
  The effect on the server of a step of connection \<open>i\<close> from \<open>c\<close> to \<open>c'\<close>: the hooks it calls, what it adds to the shared
  metrics, and its removal from the manager (\<^verbatim>\<open>src/knet/connhost.go\<close>).
\<close>

definition host :: "u64 \<Rightarrow> ('c, 'v, 'e, 'f) Connection \<Rightarrow> ('c, 'v, 'e, 'f) Connection \<Rightarrow> ('c, 'v, 'e, 'f, 'h) Server \<Rightarrow> ('c, 'v, 'e, 'f, 'h) Server" where
  "host i c c' s =
     (call_hooks i (drop (length (hooks c)) (hooks c')) s)
       \<lparr>conns := (conns s)(i \<mapsto> c'),
        connsActive := connsActive s + (gauge_of c' - gauge_of c), connsClosed := connsClosed s + (closed_of c' - closed_of c),
        connMgr := if removals c' = removals c then connMgr s else Remove id i (connMgr s)\<rparr>"

text \<open>The reader of connection \<open>i\<close> is inside \<^verbatim>\<open>SendMsgToTaskQueue\<close>.\<close>

definition submitting :: "u64 \<Rightarrow> ('c, 'v, 'e, 'f, 'h) Server \<Rightarrow> bool" where
  "submitting i s \<longleftrightarrow> i \<in> busy (pool s)"

text \<open>
  A step of a connection that others can reach. \<^verbatim>\<open>Start\<close> reads the server's template; the reader hands each message to the
  pool and waits there; everything else is as in \<open>conn_step\<close>.
\<close>

inductive hosted_step ::
  "('c \<Rightarrow> bytes \<Rightarrow> Message list \<times> go_error option \<times> 'c) \<Rightarrow> ('c \<Rightarrow> Message \<Rightarrow> go_error + bytes) \<Rightarrow>
   ('c, 'v, 'e, 'f, 'h) Server \<Rightarrow> ('c, 'v, 'e, 'f, 'h) Server \<Rightarrow> bool" for dec pack where
  start: "i \<in> set (launched s) \<Longrightarrow> conns s i = Some c \<Longrightarrow> start_action (GetHeartBeat s) (spc c) c = Some c' \<Longrightarrow>
    hosted_step dec pack s (host i c c' s)"
| handoff: "i \<in> set (admitted s) \<Longrightarrow> conns s i = Some c \<Longrightarrow> rd c = Dispatching (m # ms) \<Longrightarrow> \<not> submitting i s \<Longrightarrow>
    hosted_step dec pack s ((host i c (dispatch_action (m # ms) c) s)\<lparr>pool := check_send (NewRequest i (Some m)) (pool s)\<rparr>)"
| other: "i \<in> set (admitted s) \<Longrightarrow> conns s i = Some c \<Longrightarrow> conn_step dec pack c c' \<Longrightarrow> spc c' = spc c \<Longrightarrow>
    dispatched c' = dispatched c \<Longrightarrow> rd c' = rd c \<or> \<not> submitting i s \<Longrightarrow> hosted_step dec pack s (host i c c' s)"

text \<open>The calls of the application.\<close>

inductive call_step :: "('c, 'v, 'e, 'f, 'h) Server \<Rightarrow> ('c, 'v, 'e, 'f, 'h) Server \<Rightarrow> bool" where
  run: "call_step s (snd (Run s))"
| shutdown: "call_step s (Shutdown s)"
| on_start: "call_step s (SetOnConnStart f s)"
| on_stop: "call_step s (SetOnConnStop f s)"
| set_codec: "call_step s (SetCodec c s)"
| add_router: "call_step s (snd (Server_AddRouterSlices i hs s))"
| group: "call_step s (snd (Server_Group a b hs s))"
| use: "call_step s (Server_Use hs s)"
| template: "call_step s (store_template ival opt s)"
| attach: "call_step s (attach_listen s)"
| attach_end: "n \<in> set (attaching s) \<Longrightarrow> call_step s (snd (attach_store n s))"

text \<open>Everything together. The connection counter does not wrap.\<close>

inductive server_step ::
  "('c \<Rightarrow> bytes \<Rightarrow> Message list \<times> go_error option \<times> 'c) \<Rightarrow> ('c \<Rightarrow> Message \<Rightarrow> go_error + bytes) \<Rightarrow> ('c \<Rightarrow> 'c) \<Rightarrow>
   ('c, 'v, 'e, 'f, 'h) Server \<Rightarrow> ('c, 'v, 'e, 'f, 'h) Server \<Rightarrow> bool" for dec pack cln where
  call: "call_step s s' \<Longrightarrow> server_step dec pack cln s s'"
| run: "run_action bound (rpc s) s = Some s' \<Longrightarrow> server_step dec pack cln s s'"
| accept: "connID s \<noteq> - 1 \<Longrightarrow> accept_action pack cln now wrote (accepting s) s = Some (Ret s') \<Longrightarrow> server_step dec pack cln s s'"
| shutdown: "shutdown_action late (shut s) s = Some s' \<Longrightarrow> server_step dec pack cln s s'"
| drain: "drain_action js (drain s) s = Some s' \<Longrightarrow> server_step dec pack cln s s'"
| hosted: "hosted_step dec pack s s' \<Longrightarrow> server_step dec pack cln s s'"
| serve: "pool_serve (pool s) p \<Longrightarrow> server_step dec pack cln s (s\<lparr>pool := p\<rparr>)"

inductive server_reachable ::
  "('c \<Rightarrow> bytes \<Rightarrow> Message list \<times> go_error option \<times> 'c) \<Rightarrow> ('c \<Rightarrow> Message \<Rightarrow> go_error + bytes) \<Rightarrow> ('c \<Rightarrow> 'c) \<Rightarrow> (TLVPack \<Rightarrow> 'c) \<Rightarrow>
   ('c, 'v, 'e, 'f, 'h) Server \<Rightarrow> bool" for dec pack cln tlv where
  new: "server_reachable dec pack cln tlv (NewServer tlv user opts)"
| step: "server_reachable dec pack cln tlv s \<Longrightarrow> server_step dec pack cln s s' \<Longrightarrow> server_reachable dec pack cln tlv s'"

end
