(* ===== verification/Kinz_Serving.thy ===== *)
theory Kinz_Serving
  imports Kinz_Server
begin

text \<open>
  What the interleavings of \<^verbatim>\<open>Kinz_Server\<close> guarantee: every connection of a server is a connection in the sense of
  \<^verbatim>\<open>Kinz_Connection\<close>, the gauges are exact, the limit holds, a shutdown stops every connection and loses no request, and
  requests reach the workers in the order in which their bytes arrived.
\<close>

section \<open>Frames\<close>

text \<open>What the calls, the workers, \<^verbatim>\<open>Run\<close> and \<^verbatim>\<open>Shutdown\<close> leave alone.\<close>

definition same_world :: "('c, 'v, 'e, 'f, 'h) Server \<Rightarrow> ('c, 'v, 'e, 'f, 'h) Server \<Rightarrow> bool" where
  "same_world s s' \<longleftrightarrow> conns s' = conns s \<and> cloned s' = cloned s \<and> connID s' = connID s \<and> admitted s' = admitted s \<and>
     launched s' = launched s \<and> connMgr s' = connMgr s \<and> cfg s' = cfg s \<and> connsTotal s' = connsTotal s \<and>
     connsActive s' = connsActive s \<and> connsClosed s' = connsClosed s \<and> connsRejected s' = connsRejected s"

lemmas call_defs = Run_def Shutdown_def SetOnConnStart_def SetOnConnStop_def SetCodec_def Server_AddRouterSlices_def
  Server_Group_def Server_Use_def set_handler_def store_template_def attach_listen_def attach_store_def Let_def case_prod_beta

lemma call_frame: "call_step s s' \<Longrightarrow> same_world s s' \<and> accepting s' = accepting s \<and> drain s' = drain s"
  by (induction rule: call_step.induct) (simp_all add: same_world_def call_defs)

lemma serve_frame: "same_world s (s\<lparr>pool := p\<rparr>)"
  by (simp add: same_world_def)

lemma run_frame:
  "run_action bound (rpc s) s = Some s' \<Longrightarrow>
   same_world s s' \<and> accepting s' = (if rpc s = RunGo then Accepting else accepting s) \<and> drain s' = drain s"
  by (cases "rpc s") (auto simp: same_world_def Shutdown_def split: if_splits shutdown_pc.splits)

lemma shutdown_frame:
  "shutdown_action late (shut s) s = Some s' \<Longrightarrow>
   same_world s s' \<and> accepting s' = accepting s \<and> drain s' = (case shut s of ShutMetrics _ \<Rightarrow> DrainClear | _ \<Rightarrow> drain s)"
  by (cases "shut s") (auto simp: same_world_def set_handler_def split: if_splits)

lemma call_hooks_frame: "\<exists>cs. call_hooks i hs s = s\<lparr>called := cs\<rparr>"
proof (induction i hs s rule: call_hooks.induct)
  case (2 i hs s)
  then show ?case by (auto simp: CallOnConnStart_def split: option.splits)
next
  case (3 i hs s)
  then show ?case by (auto simp: CallOnConnStop_def split: option.splits)
next
  case (1 i s)
  show ?case by (rule exI [of _ "called s"]) simp
qed

lemma host_frame [simp]:
  "conns (host i c c' s) = (conns s)(i \<mapsto> c')" "cloned (host i c c' s) = cloned s" "connID (host i c c' s) = connID s"
  "admitted (host i c c' s) = admitted s" "launched (host i c c' s) = launched s" "cfg (host i c c' s) = cfg s"
  "connsTotal (host i c c' s) = connsTotal s" "connsRejected (host i c c' s) = connsRejected s"
  "connsActive (host i c c' s) = connsActive s + (gauge_of c' - gauge_of c)"
  "connsClosed (host i c c' s) = connsClosed s + (closed_of c' - closed_of c)"
  "connMgr (host i c c' s) = (if removals c' = removals c then connMgr s else Remove id i (connMgr s))"
  "accepting (host i c c' s) = accepting s" "drain (host i c c' s) = drain s" "pool (host i c c' s) = pool s"
  "rpc (host i c c' s) = rpc s" "shut (host i c c' s) = shut s" "closed (host i c c' s) = closed s"
  "started (host i c c' s) = started s" "sock (host i c c' s) = sock s" "listener (host i c c' s) = listener s"
proof -
  obtain cs where "call_hooks i (drop (length (hooks c)) (hooks c')) s = s\<lparr>called := cs\<rparr>"
    using call_hooks_frame by blast
  then have h: "host i c c' s = s\<lparr>called := cs, conns := (conns s)(i \<mapsto> c'),
        connsActive := connsActive s + (gauge_of c' - gauge_of c), connsClosed := connsClosed s + (closed_of c' - closed_of c),
        connMgr := if removals c' = removals c then connMgr s else Remove id i (connMgr s)\<rparr>"
    by (simp add: host_def)
  show
    "conns (host i c c' s) = (conns s)(i \<mapsto> c')" "cloned (host i c c' s) = cloned s" "connID (host i c c' s) = connID s"
    "admitted (host i c c' s) = admitted s" "launched (host i c c' s) = launched s" "cfg (host i c c' s) = cfg s"
    "connsTotal (host i c c' s) = connsTotal s" "connsRejected (host i c c' s) = connsRejected s"
    "connsActive (host i c c' s) = connsActive s + (gauge_of c' - gauge_of c)"
    "connsClosed (host i c c' s) = connsClosed s + (closed_of c' - closed_of c)"
    "connMgr (host i c c' s) = (if removals c' = removals c then connMgr s else Remove id i (connMgr s))"
    "accepting (host i c c' s) = accepting s" "drain (host i c c' s) = drain s" "pool (host i c c' s) = pool s"
    "rpc (host i c c' s) = rpc s" "shut (host i c c' s) = shut s" "closed (host i c c' s) = closed s"
    "started (host i c c' s) = started s" "sock (host i c c' s) = sock s" "listener (host i c c' s) = listener s"
    unfolding h by simp_all
qed

text \<open>A step of a hosted connection is a step of that connection, and possibly a submission to the pool.\<close>

lemma hostedE:
  assumes "hosted_step dec pack s s'" and "set (launched s) \<subseteq> set (admitted s)"
  obtains (step) i c c' where "i \<in> set (admitted s)" "conns s i = Some c" "conn_step dec pack c c'" "s' = host i c c' s"
    "dispatched c' = dispatched c" "rd c' = rd c \<or> spc c = GoReader \<or> \<not> submitting i s"
  | (submit) i c m ms where "i \<in> set (admitted s)" "conns s i = Some c" "conn_step dec pack c (dispatch_action (m # ms) c)"
    "s' = (host i c (dispatch_action (m # ms) c) s)\<lparr>pool := check_send (NewRequest i (Some m)) (pool s)\<rparr>"
    "rd c = Dispatching (m # ms)" "\<not> submitting i s"
  using assms
proof (cases rule: hosted_step.cases)
  case (start i c c')
  have "dispatched c' = dispatched c \<and> (rd c' = rd c \<or> spc c = GoReader)"
    using start(4) by (elim start_actionE) simp_all
  then show thesis
    using start assms(2) by (intro step [of i c c']) (auto intro: conn_step.internal conn_internal.start)
next
  case (handoff i c m ms)
  then have "conn_step dec pack c (dispatch_action (m # ms) c)" by (intro conn_step.internal conn_internal.handoff)
  with handoff show thesis by (intro submit [of i c m ms]) (simp_all del: dispatch_action.simps)
next
  case (other i c c')
  then show thesis by (intro step [of i c c']) auto
qed


section \<open>The connections of a server\<close>

definition hosts_inv ::
  "('c \<Rightarrow> bytes \<Rightarrow> Message list \<times> go_error option \<times> 'c) \<Rightarrow> ('c \<Rightarrow> Message \<Rightarrow> go_error + bytes) \<Rightarrow> ('c, 'v, 'e, 'f, 'h) Server \<Rightarrow> bool" where
  "hosts_inv dec pack s \<longleftrightarrow>
     (\<forall>i c. conns s i = Some c \<longrightarrow> i \<le> connID s \<and> Connection.metrics c \<noteq> None \<and>
        (\<exists>cod. cloned s i = Some cod \<and> conn_reachable dec pack cod c) \<and>
        (i \<notin> set (admitted s) \<longrightarrow> opc c = OnceIdle \<and> dispatched c = [] \<and> rd c = NoReader)) \<and>
     set (launched s) \<subseteq> set (admitted s) \<and> set (admitted s) \<subseteq> dom (conns s) \<and> distinct (admitted s)"

fun accept_ok :: "accept_pc \<Rightarrow> u64 set \<Rightarrow> u64 set \<Rightarrow> bool" where
  "accept_ok (Adding i) made inside \<longleftrightarrow> i \<in> made \<and> i \<notin> inside"
| "accept_ok (Counting i) made inside \<longleftrightarrow> i \<in> inside"
| "accept_ok (CountingActive i) made inside \<longleftrightarrow> i \<in> inside"
| "accept_ok (Launching i) made inside \<longleftrightarrow> i \<in> inside"
| "accept_ok _ made inside \<longleftrightarrow> True"

definition accept_inv :: "('c, 'v, 'e, 'f, 'h) Server \<Rightarrow> bool" where
  "accept_inv s \<longleftrightarrow> accept_ok (accepting s) (dom (conns s)) (set (admitted s))"

lemma hosts_same: "same_world s s' \<Longrightarrow> hosts_inv dec pack s' = hosts_inv dec pack s"
  by (simp add: same_world_def hosts_inv_def)

lemma accept_same: "same_world s s' \<Longrightarrow> accepting s' = accepting s \<Longrightarrow> accept_inv s' = accept_inv s"
  by (simp add: same_world_def accept_inv_def)

lemma admitted_conn: "hosts_inv dec pack s \<Longrightarrow> i \<in> set (admitted s) \<Longrightarrow> \<exists>c. conns s i = Some c"
  by (auto simp: hosts_inv_def)

lemma hosts_conn:
  "hosts_inv dec pack s \<Longrightarrow> conns s i = Some c \<Longrightarrow>
   i \<le> connID s \<and> Connection.metrics c \<noteq> None \<and> conn_inv c \<and> (\<exists>cod. cloned s i = Some cod \<and> conn_reachable dec pack cod c)"
  by (auto simp: hosts_inv_def dest: conn_reachable_inv)

lemma hosts_update:
  assumes "hosts_inv dec pack s" and "i \<in> set (admitted s)" and "conns s i = Some c" and "conn_step dec pack c c'"
    and "conns s' = (conns s)(i \<mapsto> c')" and "cloned s' = cloned s" and "connID s' = connID s" and "admitted s' = admitted s"
    and "launched s' = launched s"
  shows "hosts_inv dec pack s'"
proof -
  obtain cod where c: "cloned s i = Some cod" "conn_reachable dec pack cod c'" "i \<le> connID s" "Connection.metrics c' \<noteq> None"
    using hosts_conn [OF assms(1,3)] conn_step_mono [OF assms(4)] conn_reachable.step [OF _ assms(4)] by metis
  have "set (admitted s) \<subseteq> insert i (dom (conns s))" using assms(1) by (auto simp: hosts_inv_def)
  with c assms(1,2) show ?thesis
    unfolding hosts_inv_def assms(5-) by (simp split: if_splits)
qed

lemma word_Suc: "x \<noteq> - 1 \<Longrightarrow> unat (x + 1 :: u64) = Suc (unat x)"
  using unatSuc [of x] max_word_wrap [of x] by (auto simp: add.commute)

lemma word_below: "x \<noteq> - 1 \<Longrightarrow> j \<le> x \<Longrightarrow> j \<le> x + 1 \<and> j \<noteq> (x + 1 :: u64)"
  using word_Suc [of x] by (auto simp: word_le_nat_alt)

lemma make_connE:
  assumes "make_conn cln now s = Ret s'"
  obtains c where "NewConnection (connID s + 1) (cln (codec s)) (WriteQueueSize (cfg s)) (WriteTimeout (cfg s)) True now = Ret c"
    "s' = s\<lparr>connID := connID s + 1, conns := (conns s)(connID s + 1 \<mapsto> c), cloned := (cloned s)(connID s + 1 \<mapsto> cln (codec s)),
           accepting := Adding (connID s + 1)\<rparr>"
  using assms by (auto simp: make_conn_def Let_def split: outcome.splits)

lemma new_conn_facts:
  "NewConnection i cod wq wt True now = Ret c \<Longrightarrow>
   Connection.metrics c \<noteq> None \<and> opc c = OnceIdle \<and> dispatched c = [] \<and> rd c = NoReader \<and> removals c = 0"
  by (auto simp: new_conn_def touch_def dest!: NewConnectionD)

lemma hosts_make:
  assumes "hosts_inv dec pack s" and "connID s \<noteq> - 1" and "make_conn cln now s = Ret s'"
  shows "hosts_inv dec pack s' \<and> accept_inv s'"
  using assms(3)
proof (rule make_connE)
  let ?i = "connID s + 1"
  fix c assume c: "NewConnection ?i (cln (codec s)) (WriteQueueSize (cfg s)) (WriteTimeout (cfg s)) True now = Ret c"
    and s': "s' = s\<lparr>connID := ?i, conns := (conns s)(?i \<mapsto> c), cloned := (cloned s)(?i \<mapsto> cln (codec s)), accepting := Adding ?i\<rparr>"
  have old: "j \<le> ?i \<and> j \<noteq> ?i" if "conns s j = Some d" for j d
    using assms(1) that word_below [OF assms(2)] by (auto simp: hosts_inv_def)
  then have new: "?i \<notin> set (admitted s)" using admitted_conn [OF assms(1)] by blast
  have "conn_reachable dec pack (cln (codec s)) c" using c by (rule conn_reachable.new)
  with assms(1) old new new_conn_facts [OF c] show ?thesis
    unfolding s' hosts_inv_def accept_inv_def by (simp split: if_splits) blast
qed

lemma add_connE:
  obtains (reject) e where "Add id i (connMgr s) = (Some e, connMgr s)" "add_conn i s = s\<lparr>accepting := Rejecting e\<rparr>"
  | (admit) "add_conn i s = s\<lparr>connMgr := (connMgr s)\<lparr>connections := AList.update i i (connections (connMgr s))\<rparr>,
      admitted := admitted s @ [i], accepting := Counting i\<rparr>"
      "\<not> (0 < maxConn (connMgr s) \<and> maxConn (connMgr s) \<le> int (length (connections (connMgr s))))"
  by (cases "0 < maxConn (connMgr s) \<and> maxConn (connMgr s) \<le> int (length (connections (connMgr s)))")
    (auto simp: add_conn_def Add_def)

lemma hosts_accept:
  assumes "hosts_inv dec pack s" and "accept_inv s" and "connID s \<noteq> - 1" and "accept_action pack cln now wrote (accepting s) s = Some (Ret s')"
  shows "hosts_inv dec pack s' \<and> accept_inv s'"
proof (cases "accepting s")
  case Handling
  with assms show ?thesis by (intro hosts_make) auto
next
  case (Adding i)
  have "s' = add_conn i s" using assms(4) Adding by simp
  with assms(1,2) Adding show ?thesis
    by (cases rule: add_connE [of i s]) (auto simp: hosts_inv_def accept_inv_def)
next
  case (Launching i)
  with assms(1,2,4) show ?thesis by (auto simp: hosts_inv_def accept_inv_def)
qed (use assms(1,2,4) in \<open>auto simp: hosts_inv_def accept_inv_def reject_write_def split: option.splits sum.splits\<close>)

lemma drainE:
  assumes "drain_action js (drain s) s = Some s'"
  obtains (clear) "drain s = DrainClear" "mset js = mset (map snd (connections (connMgr s)))"
      "s' = s\<lparr>connMgr := (connMgr s)\<lparr>connections := []\<rparr>, drain := DrainStop js\<rparr>"
  | (finish) "drain s = DrainStop []" "s' = s\<lparr>drain := Drained\<rparr>"
  | (stop) i "is" c where "drain s = DrainStop (i # is)" "conns s i = Some c"
      "s' = s\<lparr>conns := (conns s)(i \<mapsto> stop_call c), drain := DrainWait i (length (stops c)) is\<rparr>"
  | (wait) i k "is" c b w where "drain s = DrainWait i k is" "conns s i = Some c" "stops c ! k = StopRet b w" "s' = s\<lparr>drain := DrainStop is\<rparr>"
proof (cases "drain s")
  case DrainClear
  with assms show thesis by (intro clear) (auto split: if_splits)
next
  case (DrainStop js')
  with assms show thesis by (cases js') (auto intro: finish stop split: option.splits)
next
  case (DrainWait i k js')
  with assms show thesis by (auto intro: wait split: option.splits stopper.splits)
qed (use assms in simp_all)

text \<open>While the drain has not emptied it, the manager holds exactly the connections that were admitted and have not left.\<close>

definition ids :: "u64 ConnManager \<Rightarrow> u64 set" where
  "ids cm = fst ` set (connections cm)"

definition holding :: "drain_pc \<Rightarrow> bool" where
  "holding d \<longleftrightarrow> d = NoDrain \<or> d = DrainClear"

definition table_inv :: "('c, 'v, 'e, 'f, 'h) Server \<Rightarrow> bool" where
  "table_inv s \<longleftrightarrow> cm_inv id (connMgr s) \<and> maxConn (connMgr s) = MaxConn (cfg s) \<and> ids (connMgr s) \<subseteq> set (admitted s) \<and>
     (holding (drain s) \<longrightarrow> ids (connMgr s) = {i \<in> set (admitted s). \<exists>c. conns s i = Some c \<and> removals c = 0})"

fun drain_ok :: "drain_pc \<Rightarrow> (u64 \<rightharpoonup> ('c, 'v, 'e, 'f) Connection) \<Rightarrow> u64 set \<Rightarrow> bool" where
  "drain_ok (DrainStop js) cs inside \<longleftrightarrow> set js \<subseteq> inside"
| "drain_ok (DrainWait i k js) cs inside \<longleftrightarrow> set js \<subseteq> inside \<and> i \<in> inside \<and> (\<exists>c. cs i = Some c \<and> k < length (stops c))"
| "drain_ok _ cs inside \<longleftrightarrow> True"

definition drain_inv :: "('c, 'v, 'e, 'f, 'h) Server \<Rightarrow> bool" where
  "drain_inv s \<longleftrightarrow> drain_ok (drain s) (conns s) (set (admitted s))"

lemma ids_simps [simp]:
  "ids (cm\<lparr>connections := []\<rparr>) = {}"
  "ids (cm\<lparr>connections := AList.update i i (connections cm)\<rparr>) = insert i (ids cm)"
  "ids (Remove id i cm) = ids cm - {i}"
  by (simp_all add: ids_def dom_update Remove_def AList.delete_eq) force

lemma holding_simps [simp]: "holding NoDrain" "holding DrainClear" "\<not> holding (DrainStop js)" "\<not> holding (DrainWait i k js)" "\<not> holding Drained"
  by (simp_all add: holding_def)

lemma table_same:
  "same_world s s' \<Longrightarrow> (holding (drain s') \<Longrightarrow> holding (drain s)) \<Longrightarrow> table_inv s \<Longrightarrow> table_inv s'"
  unfolding same_world_def table_inv_def by simp

lemma snapshot_ids: "cm_inv id cm \<Longrightarrow> set (map snd (connections cm)) = ids cm"
  by (force simp: ids_def cm_inv_def)

lemma removals_done: "conn_inv c \<Longrightarrow> removals c = of_bool (opc c = OnceDone)"
  by (simp add: conn_inv_def once_inv_def)

lemma table_host:
  assumes "hosts_inv dec pack s" and "i \<in> set (admitted s)" and "conns s i = Some c" and "conn_step dec pack c c'" and "table_inv s"
  shows "table_inv ((host i c c' s)\<lparr>pool := p\<rparr>)"
proof -
  have c: "conn_inv c" using hosts_conn [OF assms(1,3)] by blast
  have r: "removals c = of_bool (opc c = OnceDone)" "removals c' = of_bool (opc c' = OnceDone)"
    using c conn_inv_step [OF assms(4) c] by (simp_all add: removals_done)
  have "opc c = OnceDone \<longrightarrow> opc c' = OnceDone" using once_done_stays [OF assms(4)] by blast
  with r assms(2,3,5) show ?thesis
    by (auto simp: table_inv_def cm_inv_Remove split: if_splits)
qed

lemma table_accept:
  assumes "hosts_inv dec pack s" and "accept_inv s" and "connID s \<noteq> - 1" and "accept_action pack cln now wrote (accepting s) s = Some (Ret s')"
    and "table_inv s"
  shows "table_inv s'"
proof (cases "accepting s")
  case Handling
  have "connID s + 1 \<notin> set (admitted s)"
    using admitted_conn [OF assms(1)] hosts_conn [OF assms(1)] word_below [OF assms(3)] by blast
  then have "{i \<in> set (admitted s). \<exists>d. ((conns s)(connID s + 1 \<mapsto> c)) i = Some d \<and> removals d = 0} =
      {i \<in> set (admitted s). \<exists>d. conns s i = Some d \<and> removals d = 0}" for c
    by (intro Collect_cong) (metis fun_upd_other)
  moreover have "make_conn cln now s = Ret s'" using assms(4) Handling by simp
  ultimately show ?thesis
    using assms(5) by (elim make_connE) (simp add: table_inv_def del: fun_upd_apply)
next
  case (Adding i)
  have s': "s' = add_conn i s" using assms(4) Adding by simp
  obtain c where c: "conns s i = Some c" "i \<notin> set (admitted s)" using assms(2) Adding by (auto simp: accept_inv_def)
  then have "conn_inv c" "opc c = OnceIdle" using assms(1) hosts_conn [OF assms(1)] by (auto simp: hosts_inv_def)
  then have "removals c = 0" by (simp add: removals_done)
  moreover have "cm_inv id ((connMgr s)\<lparr>connections := AList.update i i (connections (connMgr s))\<rparr>)"
    if "\<not> (0 < maxConn (connMgr s) \<and> maxConn (connMgr s) \<le> int (length (connections (connMgr s))))"
    using cm_inv_Add [of id "connMgr s" i] that assms(5) by (auto simp: table_inv_def Add_def)
  ultimately show ?thesis
    using assms(5) c unfolding s' by (cases rule: add_connE [of i s]) (auto simp: table_inv_def)
qed (use assms(4,5) in \<open>auto simp: table_inv_def reject_write_def split: option.splits sum.splits\<close>)


text \<open>
  The counters: what was admitted is counted, except while the accept loop is between the registration and the
  counters; what has left the gauge and what is counted as closed has passed that point of its cleanup.
\<close>

definition past :: "once_pc \<Rightarrow> ('c, 'v, 'e, 'f, 'h) Server \<Rightarrow> u64 \<Rightarrow> bool" where
  "past p s i \<longleftrightarrow> (\<exists>c. conns s i = Some c \<and> opos p \<le> opos (opc c))"

text \<open>The cleanup has executed \<^verbatim>\<open>active.Dec()\<close>; it has executed \<^verbatim>\<open>closed.Inc()\<close>.\<close>

abbreviation left_gauge :: "('c, 'v, 'e, 'f, 'h) Server \<Rightarrow> u64 \<Rightarrow> bool" where
  "left_gauge \<equiv> past CountClosed"

abbreviation counted_closed :: "('c, 'v, 'e, 'f, 'h) Server \<Rightarrow> u64 \<Rightarrow> bool" where
  "counted_closed \<equiv> past CloseConn"

definition gauge_inv :: "('c, 'v, 'e, 'f, 'h) Server \<Rightarrow> bool" where
  "gauge_inv s \<longleftrightarrow>
     connsTotal s + (case accepting s of Counting _ \<Rightarrow> 1 | _ \<Rightarrow> 0) = length (admitted s) \<and>
     connsActive s + (case accepting s of Counting _ \<Rightarrow> 1 | CountingActive _ \<Rightarrow> 1 | _ \<Rightarrow> 0) + int (length (filter (left_gauge s) (admitted s))) =
       int (length (admitted s)) \<and>
     connsClosed s = length (filter (counted_closed s) (admitted s)) \<and>
     unat (connID s) = length (admitted s) + connsRejected s + (case accepting s of Adding _ \<Rightarrow> 1 | Rejecting _ \<Rightarrow> 1 | _ \<Rightarrow> 0)"

lemma past_same: "conns s' = conns s \<Longrightarrow> past p s' = past p s"
  by (simp add: past_def fun_eq_iff)

lemma past_frame [simp]:
  "past p (s\<lparr>accepting := a\<rparr>) = past p s" "past p (s\<lparr>connMgr := m\<rparr>) = past p s" "past p (s\<lparr>admitted := is\<rparr>) = past p s"
  "past p (s\<lparr>connsTotal := n\<rparr>) = past p s" "past p (s\<lparr>connsActive := k\<rparr>) = past p s" "past p (s\<lparr>connsRejected := n\<rparr>) = past p s"
  "past p (s\<lparr>launched := is\<rparr>) = past p s" "past p (s\<lparr>refused := fs\<rparr>) = past p s" "past p (s\<lparr>drain := d\<rparr>) = past p s"
  by (simp_all add: past_def fun_eq_iff)

lemma gauge_same: "same_world s s' \<Longrightarrow> accepting s' = accepting s \<or> accepting s = NoAccept \<and> accepting s' = Accepting \<Longrightarrow> gauge_inv s \<Longrightarrow> gauge_inv s'"
  by (auto simp: same_world_def gauge_inv_def past_same [of s'])

lemma length_filter_change:
  assumes "distinct xs" and "i \<in> set xs" and "\<And>j. j \<noteq> i \<Longrightarrow> P' j = P j"
  shows "length (filter P' xs) + of_bool (P i) = length (filter P xs) + of_bool (P' i)"
  using assms
proof (induction xs)
  case (Cons x xs)
  have "filter P' xs = filter P xs" if "i \<notin> set xs" using that Cons.prems(3) by (intro filter_cong) metis+
  with Cons show ?case by (cases "x = i") auto
qed simp

lemma shares: "conn_inv c \<Longrightarrow> Connection.metrics c \<noteq> None \<Longrightarrow>
    gauge_of c = - of_bool (6 \<le> opos (opc c)) \<and> closed_of c = of_bool (7 \<le> opos (opc c))"
  by (auto simp: conn_inv_def metrics_inv_def gauge_of_def closed_of_def)

lemma past_host:
  assumes "hosts_inv dec pack s" and "i \<in> set (admitted s)" and "conns s i = Some c"
  shows "length (filter (past p ((host i c c' s)\<lparr>pool := q\<rparr>)) (admitted s)) + of_bool (opos p \<le> opos (opc c)) =
    length (filter (past p s) (admitted s)) + of_bool (opos p \<le> opos (opc c'))"
proof -
  let ?s = "(host i c c' s)\<lparr>pool := q\<rparr>"
  have "past p s i = (opos p \<le> opos (opc c))" "past p ?s i = (opos p \<le> opos (opc c'))" using assms(3) by (simp_all add: past_def)
  moreover have "past p ?s j = past p s j" if "j \<noteq> i" for j using that by (simp add: past_def)
  ultimately show ?thesis
    using length_filter_change [of "admitted s" i "past p ?s" "past p s"] assms(1,2) by (simp add: hosts_inv_def)
qed

lemma gauge_host:
  assumes "hosts_inv dec pack s" and "i \<in> set (admitted s)" and "conns s i = Some c" and "conn_step dec pack c c'" and "gauge_inv s"
  shows "gauge_inv ((host i c c' s)\<lparr>pool := p\<rparr>)"
proof -
  have c: "conn_inv c" "Connection.metrics c \<noteq> None" using hosts_conn [OF assms(1,3)] by blast+
  note mono = conn_step_mono [OF assms(4)]
  have share: "gauge_of c = - of_bool (6 \<le> opos (opc c))" "closed_of c = of_bool (7 \<le> opos (opc c))"
      "gauge_of c' = - of_bool (6 \<le> opos (opc c'))" "closed_of c' = of_bool (7 \<le> opos (opc c'))"
    using shares [OF c] shares [OF conn_inv_step [OF assms(4) c(1)]] mono c(2) by simp_all
  with past_host [OF assms(1-3), where p = CountClosed and c' = c' and q = p] past_host [OF assms(1-3), where p = CloseConn and c' = c' and q = p] mono assms(5) show ?thesis
    by (cases "accepting s") (auto simp: gauge_inv_def of_bool_def split: if_splits)
qed

lemma gauge_accept:
  assumes "hosts_inv dec pack s" and "accept_inv s" and "connID s \<noteq> - 1" and "accept_action pack cln now wrote (accepting s) s = Some (Ret s')"
    and "gauge_inv s"
  shows "gauge_inv s'"
proof (cases "accepting s")
  case Handling
  have new: "connID s + 1 \<notin> set (admitted s)"
    using admitted_conn [OF assms(1)] hosts_conn [OF assms(1)] word_below [OF assms(3)] by blast
  have "make_conn cln now s = Ret s'" using assms(4) Handling by simp
  then obtain c where s': "s' = s\<lparr>connID := connID s + 1, conns := (conns s)(connID s + 1 \<mapsto> c),
      cloned := (cloned s)(connID s + 1 \<mapsto> cln (codec s)), accepting := Adding (connID s + 1)\<rparr>"
    by (rule make_connE)
  have "filter (past p s') (admitted s) = filter (past p s) (admitted s)" for p
    using new by (intro filter_cong) (auto simp: s' past_def)
  then show ?thesis using assms(5) Handling word_Suc [OF assms(3)] by (simp add: gauge_inv_def s')
next
  case (Adding i)
  have s': "s' = add_conn i s" using assms(4) Adding by simp
  obtain c where c: "conns s i = Some c" "i \<notin> set (admitted s)" using assms(2) Adding by (auto simp: accept_inv_def)
  then have "\<not> left_gauge s i" "\<not> counted_closed s i" using assms(1) by (auto simp: hosts_inv_def past_def)
  with assms(5) Adding show ?thesis unfolding s'
    by (cases rule: add_connE [of i s]) (auto simp: gauge_inv_def)
qed (use assms(4,5) in \<open>auto simp: gauge_inv_def reject_write_def split: option.splits sum.splits\<close>)


section \<open>Phases\<close>

definition early :: "run_pc \<Rightarrow> bool" where
  "early p \<longleftrightarrow> p \<in> {RunIdle, RunListen, RunFailed, RunBound, RunPool, RunGo}"

fun undrained :: "shutdown_pc \<Rightarrow> bool" where
  "undrained NoShutdown \<longleftrightarrow> True"
| "undrained (ShutClose l m) \<longleftrightarrow> True"
| "undrained (ShutMetrics m) \<longleftrightarrow> True"
| "undrained _ \<longleftrightarrow> False"

definition phase_inv :: "('c, 'v, 'e, 'f, 'h) Server \<Rightarrow> bool" where
  "phase_inv s \<longleftrightarrow>
     (started s \<longleftrightarrow> rpc s \<noteq> RunIdle) \<and> (accepting s = NoAccept \<longleftrightarrow> early (rpc s)) \<and>
     (closed s \<longleftrightarrow> shut s \<noteq> NoShutdown) \<and> (drain s = NoDrain \<longleftrightarrow> undrained (shut s)) \<and> (early (rpc s) \<longrightarrow> admitted s = [])"

lemma early_simps [simp]:
  "early RunIdle" "early RunListen" "early RunFailed" "early RunBound" "early RunPool" "early RunGo"
  "\<not> early RunWait" "\<not> early RunShut" "\<not> early (RunJoin ok)" "\<not> early (RunRet ok)"
  by (simp_all add: early_def)

lemma phase_call: "call_step s s' \<Longrightarrow> phase_inv s \<Longrightarrow> phase_inv s'"
  by (induction rule: call_step.induct) (auto simp: phase_inv_def call_defs)

lemma phase_serve: "phase_inv (s\<lparr>pool := p\<rparr>) = phase_inv s"
  by (simp add: phase_inv_def)

lemma phase_run: "phase_inv s \<Longrightarrow> pred_option phase_inv (run_action bound (rpc s) s)"
  by (cases "rpc s") (simp_all add: phase_inv_def Shutdown_def split: shutdown_pc.split)

lemma phase_shutdown: "phase_inv s \<Longrightarrow> pred_option phase_inv (shutdown_action late (shut s) s)"
  by (cases "shut s") (simp_all add: phase_inv_def set_handler_def)

lemma phase_drain: "drain_action js (drain s) s = Some s' \<Longrightarrow> phase_inv s \<Longrightarrow> phase_inv s'"
  by (erule drainE) (auto simp: phase_inv_def)

lemma phase_accept: "phase_inv s \<Longrightarrow> pred_option (pred_outcome phase_inv) (accept_action pack cln now wrote (accepting s) s)"
proof (cases "accepting s")
  case (Adding i)
  assume "phase_inv s"
  then show ?thesis unfolding Adding by (cases rule: add_connE [of i s]) (simp_all add: phase_inv_def Adding)
qed (simp_all add: phase_inv_def reject_write_def make_conn_def Let_def split: option.split outcome.split sum.split)

lemma phase_host: "phase_inv s \<Longrightarrow> phase_inv ((host i c c' s)\<lparr>pool := p\<rparr>)"
  by (auto simp: phase_inv_def)

section \<open>Requests\<close>

definition flow_inv :: "('c, 'v, 'e, 'f, 'h) Server \<Rightarrow> bool" where
  "flow_inv s \<longleftrightarrow> feeding (conns s) (set (admitted s)) (pool s)"

lemma flow_call: "call_step s s' \<Longrightarrow> flow_inv s \<Longrightarrow> flow_inv s'"
proof (induction rule: call_step.induct)
  case (add_router s i hs)
  then show ?case by (simp add: flow_inv_def Server_AddRouterSlices_def set_handler_def case_prod_beta Let_def feeding_routes registration_routes)
next
  case (group s a b hs)
  then show ?case by (simp add: flow_inv_def Server_Group_def set_handler_def case_prod_beta Let_def feeding_routes registration_routes)
next
  case (use s hs)
  then show ?case by (simp add: flow_inv_def Server_Use_def set_handler_def feeding_routes registration_routes)
qed (simp_all add: call_defs flow_inv_def)

lemma flow_serve: "pool_serve (pool s) p \<Longrightarrow> flow_inv s \<Longrightarrow> flow_inv (s\<lparr>pool := p\<rparr>)"
  by (simp add: flow_inv_def feeding_serve)

lemma flow_shutdown: "flow_inv s \<Longrightarrow> pred_option flow_inv (shutdown_action late (shut s) s)"
  by (cases "shut s") (simp_all add: flow_inv_def set_handler_def feeding_cancel)

lemma flow_run:
  assumes "flow_inv s" and "phase_inv s" and "hosts_inv dec pack s"
  shows "pred_option flow_inv (run_action bound (rpc s) s)"
proof (cases "rpc s")
  case RunPool
  have "admitted s = []" using assms(2) RunPool by (simp add: phase_inv_def)
  then have "feeding (conns s) (set (admitted s)) (start_pool (pool s))"
    using assms(1,3) by (intro feeding_start) (auto simp: flow_inv_def hosts_inv_def)
  with RunPool show ?thesis by (simp add: flow_inv_def)
qed (use assms(1) in \<open>simp_all add: flow_inv_def Shutdown_def split: shutdown_pc.split\<close>)

lemma flow_submit:
  assumes "flow_inv s" and "i \<in> set (admitted s)" and "conns s i = Some c" and "rd c = Dispatching (m # ms)" and "\<not> submitting i s"
  shows "flow_inv ((host i c (dispatch_action (m # ms) c) s)\<lparr>pool := check_send (NewRequest i (Some m)) (pool s)\<rparr>)"
  using feeding_submit [of "conns s", OF _ assms(2-4)] assms(1,5) by (simp add: flow_inv_def submitting_def)

lemma flow_other:
  assumes "flow_inv s" and "conns s i = Some c" and "dispatched c' = dispatched c" and "rd c' = rd c \<or> \<not> submitting i s"
  shows "flow_inv (host i c c' s)"
  using feeding_other [of "conns s", OF _ assms(2,3)] assms(1,4) by (simp add: flow_inv_def submitting_def)

lemma accept_frame:
  assumes "accept_action pack cln now wrote (accepting s) s = Some (Ret s')" and "accepting s \<noteq> Handling" and "\<And>i. accepting s \<noteq> Adding i"
  shows "conns s' = conns s \<and> admitted s' = admitted s \<and> pool s' = pool s \<and> cloned s' = cloned s \<and> drain s' = drain s"
  using assms by (cases "accepting s") (auto simp: reject_write_def split: option.splits sum.splits)

lemma flow_accept:
  assumes "hosts_inv dec pack s" and "accept_inv s" and "connID s \<noteq> - 1" and "flow_inv s"
    and "accept_action pack cln now wrote (accepting s) s = Some (Ret s')"
  shows "flow_inv s'"
proof (cases "accepting s")
  case Handling
  have new: "connID s + 1 \<notin> set (admitted s)"
    using admitted_conn [OF assms(1)] hosts_conn [OF assms(1)] word_below [OF assms(3)] by blast
  have "make_conn cln now s = Ret s'" using assms(5) Handling by simp
  then obtain c where c: "NewConnection (connID s + 1) (cln (codec s)) (WriteQueueSize (cfg s)) (WriteTimeout (cfg s)) True now = Ret c"
    and s': "s' = s\<lparr>connID := connID s + 1, conns := (conns s)(connID s + 1 \<mapsto> c),
      cloned := (cloned s)(connID s + 1 \<mapsto> cln (codec s)), accepting := Adding (connID s + 1)\<rparr>"
    by (rule make_connE)
  show ?thesis
    using assms(4) new new_conn_facts [OF c] unfolding s' by (simp add: flow_inv_def feeding_make)
next
  case (Adding i)
  have "s' = add_conn i s" using assms(5) Adding by simp
  with assms(4) show ?thesis
    by (cases rule: add_connE [of i s]) (auto simp: flow_inv_def intro: feeding_more)
qed (use assms(4) accept_frame [OF assms(5)] in \<open>simp_all add: flow_inv_def\<close>)

section \<open>The invariant\<close>

definition server_inv ::
  "('c \<Rightarrow> bytes \<Rightarrow> Message list \<times> go_error option \<times> 'c) \<Rightarrow> ('c \<Rightarrow> Message \<Rightarrow> go_error + bytes) \<Rightarrow> ('c, 'v, 'e, 'f, 'h) Server \<Rightarrow> bool" where
  "server_inv dec pack s \<longleftrightarrow>
     hosts_inv dec pack s \<and> accept_inv s \<and> table_inv s \<and> gauge_inv s \<and> phase_inv s \<and> flow_inv s \<and> drain_inv s"

lemma drain_same: "same_world s s' \<Longrightarrow> drain s' = drain s \<or> drain s' = DrainClear \<Longrightarrow> drain_inv s \<Longrightarrow> drain_inv s'"
  by (auto simp: same_world_def drain_inv_def)

lemma drain_host:
  assumes "conns s i = Some c" and "conn_step dec pack c c'" and "drain_inv s"
  shows "drain_inv ((host i c c' s)\<lparr>pool := p\<rparr>)"
  using assms conn_step_mono [OF assms(2)] by (cases "drain s") (auto simp: drain_inv_def)

lemma accept_host: "conns s i = Some c \<Longrightarrow> accept_inv s \<Longrightarrow> accept_inv ((host i c c' s)\<lparr>pool := p\<rparr>)"
  by (cases "accepting s") (auto simp: accept_inv_def)

lemma host_pool [simp]: "(host i c c' s)\<lparr>pool := pool s\<rparr> = host i c c' s"
  using host_frame(14) [of i c c' s] by (cases "host i c c' s") simp

lemma inv_host:
  assumes "server_inv dec pack s" and "i \<in> set (admitted s)" and "conns s i = Some c" and "conn_step dec pack c c'"
    and "flow_inv ((host i c c' s)\<lparr>pool := p\<rparr>)"
  shows "server_inv dec pack ((host i c c' s)\<lparr>pool := p\<rparr>)"
proof -
  have "hosts_inv dec pack s" using assms(1) by (simp add: server_inv_def)
  then have "hosts_inv dec pack ((host i c c' s)\<lparr>pool := p\<rparr>)" by (rule hosts_update [OF _ assms(2-4)]) simp_all
  with assms show ?thesis
    unfolding server_inv_def
    using accept_host [OF assms(3)] table_host [OF _ assms(2-4)] gauge_host [OF _ assms(2-4)] phase_host [of s] drain_host [OF assms(3,4)] by blast
qed

lemma inv_hosted:
  assumes "server_inv dec pack s" and "hosted_step dec pack s s'"
  shows "server_inv dec pack s'"
proof -
  have inv: "hosts_inv dec pack s" "flow_inv s" using assms(1) by (simp_all add: server_inv_def)
  have "set (launched s) \<subseteq> set (admitted s)" using inv(1) by (simp add: hosts_inv_def)
  with assms(2) show ?thesis
  proof (cases rule: hostedE)
    case (step i c c')
    have "rd c = NoReader" if "spc c = GoReader"
      using hosts_conn [OF inv(1) step(2)] that by (simp add: conn_inv_def life_inv_def)
    moreover have "\<exists>ms. rd c = Dispatching ms" if "submitting i s"
      using feedingD(3) [of "conns s" "set (admitted s)" "pool s" i] inv(2) that step(2) by (auto simp: flow_inv_def submitting_def)
    ultimately have "rd c' = rd c \<or> \<not> submitting i s" using step(6) by fastforce
    then have "flow_inv (host i c c' s)" using inv(2) step by (intro flow_other) auto
    with inv_host [OF assms(1) step(1-3), of "pool s"] step(4) show ?thesis by simp
  next
    case (submit i c m ms)
    have "flow_inv s'" using inv(2) submit flow_submit [of s i c m ms] by simp
    with inv_host [OF assms(1) submit(1-3)] show ?thesis unfolding submit(4) by blast
  qed
qed

lemma host_stop_call: "host i c (stop_call c) s = s\<lparr>conns := (conns s)(i \<mapsto> stop_call c)\<rparr>"
  by (simp add: host_def stop_call_def gauge_of_def closed_of_def)

lemma set_drain:
  assumes "server_inv dec pack s" and "drain s \<noteq> NoDrain" and "d \<noteq> NoDrain" and "\<not> holding d" and "drain_inv (s\<lparr>drain := d\<rparr>)"
  shows "server_inv dec pack (s\<lparr>drain := d\<rparr>)"
  using assms
  by (simp add: server_inv_def hosts_inv_def accept_inv_def table_inv_def gauge_inv_def phase_inv_def flow_inv_def)

lemma inv_drain:
  assumes "server_inv dec pack s" and "drain_action js (drain s) s = Some s'"
  shows "server_inv dec pack s'"
  using assms(2)
proof (cases rule: drainE)
  case clear
  have "set js = ids (connMgr s)"
    using mset_eq_setD [OF clear(2)] assms(1) snapshot_ids [of "connMgr s"] by (simp add: server_inv_def table_inv_def)
  with assms(1) clear show ?thesis
    by (simp add: server_inv_def hosts_inv_def accept_inv_def table_inv_def gauge_inv_def phase_inv_def flow_inv_def
        drain_inv_def cm_inv_def Len_def past_def)
next
  case finish
  with set_drain [OF assms(1)] show ?thesis by (simp add: drain_inv_def)
next
  case (stop i is' c)
  let ?s = "host i c (stop_call c) s"
  have i: "i \<in> set (admitted s)" and rest: "set is' \<subseteq> set (admitted s)"
    using assms(1) stop(1) by (auto simp: server_inv_def drain_inv_def)
  have "flow_inv ?s"
    using assms(1) by (intro flow_other [OF _ stop(2)]) (simp_all add: server_inv_def stop_call_def)
  with inv_host [OF assms(1) i stop(2) conn_step.call_stop, of "pool s"] have "server_inv dec pack ?s" by simp
  then have "server_inv dec pack (?s\<lparr>drain := DrainWait i (length (stops c)) is'\<rparr>)"
    using i rest stop by (intro set_drain) (simp_all add: drain_inv_def stop_call_def)
  with stop(3) show ?thesis by (simp add: host_stop_call)
next
  case (wait i k is' c b w)
  with assms(1) have "set is' \<subseteq> set (admitted s)" by (simp add: server_inv_def drain_inv_def)
  with set_drain [OF assms(1), of "DrainStop is'"] wait show ?thesis by (simp add: drain_inv_def)
qed

lemma inv_same:
  assumes "server_inv dec pack s" and "same_world s s'" and "accepting s' = accepting s \<or> accepting s = NoAccept \<and> accepting s' = Accepting"
    and "drain s' = drain s \<or> drain s = NoDrain \<and> drain s' = DrainClear" and "phase_inv s'" and "flow_inv s'"
  shows "server_inv dec pack s'"
proof -
  have "accept_inv s'" using assms(1-3) accept_same [of s s'] by (auto simp: server_inv_def accept_inv_def)
  moreover have "table_inv s'" using assms(1,4) by (intro table_same [OF assms(2)]) (auto simp: server_inv_def)
  ultimately show ?thesis
    using assms hosts_same [OF assms(2)] gauge_same [OF assms(2,3)] drain_same [OF assms(2)] unfolding server_inv_def by blast
qed

lemma inv_accept:
  assumes "server_inv dec pack s" and "connID s \<noteq> - 1" and "accept_action pack cln now wrote (accepting s) s = Some (Ret s')"
  shows "server_inv dec pack s'"
proof -
  have inv: "hosts_inv dec pack s" "accept_inv s" "table_inv s" "gauge_inv s" "phase_inv s" "flow_inv s" "drain_inv s"
    using assms(1) by (simp_all add: server_inv_def)
  have "phase_inv s'" using phase_accept [OF inv(5), of pack cln now wrote] assms(3) by simp
  moreover have "drain_inv s'"
  proof (cases "accepting s")
    case Handling
    then have "make_conn cln now s = Ret s'" using assms(3) by simp
    moreover have "connID s + 1 \<notin> set (admitted s)"
      using admitted_conn [OF inv(1)] hosts_conn [OF inv(1)] word_below [OF assms(2)] by blast
    ultimately show ?thesis
      using inv(7) by (elim make_connE) (cases "drain s"; auto simp: drain_inv_def)
  next
    case (Adding i)
    then have "s' = add_conn i s" using assms(3) by simp
    with inv(7) show ?thesis by (cases rule: add_connE [of i s]; cases "drain s") (auto simp: drain_inv_def)
  qed (use inv(7) accept_frame [OF assms(3)] in \<open>simp_all add: drain_inv_def\<close>)
  ultimately show ?thesis
    unfolding server_inv_def
    using hosts_accept [OF inv(1,2) assms(2,3)] table_accept [OF inv(1,2) assms(2,3) inv(3)] gauge_accept [OF inv(1,2) assms(2,3) inv(4)]
      flow_accept [OF inv(1,2) assms(2) inv(6) assms(3)] by blast
qed

lemma server_inv_step:
  assumes "server_step dec pack cln s s'" and "server_inv dec pack s"
  shows "server_inv dec pack s'"
  using assms(1)
proof (cases rule: server_step.cases)
  case call
  from assms(2) call_frame [OF call] phase_call [OF call] flow_call [OF call] show ?thesis
    by (intro inv_same [OF assms(2)]) (simp_all add: server_inv_def)
next
  case (run bound)
  have "phase_inv s'" using phase_run [of s bound] run assms(2) by (simp add: server_inv_def)
  moreover have "flow_inv s'" using flow_run [of s dec pack bound] run assms(2) by (simp add: server_inv_def)
  moreover have "accepting s = NoAccept" if "rpc s = RunGo" using that assms(2) by (simp add: server_inv_def phase_inv_def)
  ultimately show ?thesis
    using run_frame [OF run] by (intro inv_same [OF assms(2)]) simp_all
next
  case (accept now wrote)
  from inv_accept [OF assms(2) this] show ?thesis .
next
  case (shutdown late)
  have "phase_inv s'" using phase_shutdown [of s late] shutdown assms(2) by (simp add: server_inv_def)
  moreover have "flow_inv s'" using flow_shutdown [of s late] shutdown assms(2) by (simp add: server_inv_def)
  moreover have "drain s = NoDrain" if "shut s = ShutMetrics m" for m using that assms(2) by (simp add: server_inv_def phase_inv_def)
  ultimately show ?thesis
    using shutdown_frame [OF shutdown] by (intro inv_same [OF assms(2)]) (auto split: shutdown_pc.splits)
next
  case (drain js)
  with assms(2) show ?thesis by (rule inv_drain)
next
  case hosted
  with assms(2) show ?thesis by (rule inv_hosted)
next
  case (serve p)
  from assms(2) serve_frame [of s p] flow_serve [OF serve(2)] show ?thesis
    unfolding serve(1) by (intro inv_same [OF assms(2)]) (simp_all add: server_inv_def phase_serve)
qed

lemma server_inv_new: "server_inv dec pack (new_server tlv c tls)"
proof -
  let ?p = "init_pool (SetMetrics (Some \<lparr>panics = 0, duration = 0, queueFull = 0\<rparr>) (NewMsgHandler (WorkerPoolSize c) (MaxWorkerTaskLen c)))"
  have "feeding (\<lambda>_. None) {} ?p"
    by (intro feeding_none pool_ok_New) (simp_all add: busy_def init_pool_def NewMsgHandler_def SetMetrics_def)
  then show ?thesis
    by (simp add: server_inv_def new_server_def hosts_inv_def accept_inv_def table_inv_def gauge_inv_def phase_inv_def flow_inv_def
        drain_inv_def NewConnManager_def cm_inv_def Len_def ids_def)
qed

lemma server_reachable_inv: "server_reachable dec pack cln tlv s \<Longrightarrow> server_inv dec pack s"
  by (induction rule: server_reachable.induct) (auto simp: NewServer_def Let_def server_inv_new intro: server_inv_step)

section \<open>The server as a host\<close>

interpretation server_host: conn_host "server_reachable dec pack cln tlv" dec pack conns "\<lambda>s. set (admitted s)" cloned pool
  for dec pack cln tlv
proof
  fix s i c
  assume r: "server_reachable dec pack cln tlv s"
  then have inv: "server_inv dec pack s" by (rule server_reachable_inv)
  then show "feeding (conns s) (set (admitted s)) (pool s)" by (simp add: server_inv_def flow_inv_def)
  show "\<exists>cod. cloned s i = Some cod \<and> conn_reachable dec pack cod c" if "conns s i = Some c"
    using hosts_conn [OF _ that] inv by (simp add: server_inv_def)
qed

interpretation tlv_server: tlv_host "server_reachable Decode Pack Clone tlv" conns "\<lambda>s. set (admitted s)" cloned pool
  for tlv
  by unfold_locales

end
