(* ===== verification/Kinz_Scenario.thy ===== *)
theory Kinz_Scenario
  imports Kinz_Server
begin

text \<open>
  Concrete runs of the server of \<^verbatim>\<open>Kinz_Server\<close>: a scheduler that performs a given list of moves, the proof that every such
  run is one of \<open>server_step\<close>, and the runs the properties are tried on.
\<close>

section \<open>A scheduler\<close>

type_synonym tlv_server = "(TLVPack, nat, nat, nat, nat) Server"

datatype move =
    CallRun | CallShutdown | RunMove bool | AcceptMove | ShutMove bool | DrainMove "u64 list"
  | StartMove u64 | ConnMove u64 act | HandMove u64 | CommitMove | WorkMove nat | ObserveMove nat | ExitMove nat

fun run_move :: "move \<Rightarrow> tlv_server \<Rightarrow> tlv_server option" where
  "run_move CallRun s = Some (snd (Run s))"
| "run_move CallShutdown s = Some (Shutdown s)"
| "run_move (RunMove bound) s = run_action bound (rpc s) s"
| "run_move AcceptMove s = (if connID s = - 1 then None else ret_option (accept_action Pack Clone 5 100 (accepting s) s))"
| "run_move (ShutMove late) s = shutdown_action late (shut s) s"
| "run_move (DrainMove js) s = drain_action js (drain s) s"
| "run_move (StartMove i) s =
     (if i \<in> set (launched s)
      then (case conns s i of None \<Rightarrow> None | Some c \<Rightarrow> map_option (\<lambda>c'. host i c c' s) (start_action (GetHeartBeat s) (spc c) c)) else None)"
| "run_move (ConnMove i a) s =
     (if i \<in> set (admitted s)
      then (case conns s i of
              None \<Rightarrow> None
            | Some c \<Rightarrow> (case run_act a c of
                None \<Rightarrow> None
              | Some c' \<Rightarrow> if spc c' = spc c \<and> dispatched c' = dispatched c \<and> (rd c' = rd c \<or> \<not> submitting i s) then Some (host i c c' s) else None))
      else None)"
| "run_move (HandMove i) s =
     (if i \<in> set (admitted s) \<and> \<not> submitting i s
      then (case conns s i of
              None \<Rightarrow> None
            | Some c \<Rightarrow> (case rd c of
                Dispatching (m # ms) \<Rightarrow> Some ((host i c (dispatch_action (m # ms) c) s)\<lparr>pool := check_send (NewRequest i (Some m)) (pool s)\<rparr>)
              | _ \<Rightarrow> None))
      else None)"
| "run_move CommitMove s = map_option (\<lambda>p. s\<lparr>pool := p\<rparr>) (commit_move (pool s))"
| "run_move (WorkMove i) s = map_option (\<lambda>p. s\<lparr>pool := p\<rparr>) (work_move i (pool s))"
| "run_move (ObserveMove i) s = map_option (\<lambda>p. s\<lparr>pool := p\<rparr>) (observe_move i (pool s))"
| "run_move (ExitMove i) s = map_option (\<lambda>p. s\<lparr>pool := p\<rparr>) (exit_move i (pool s))"

fun run_moves :: "move list \<Rightarrow> tlv_server \<Rightarrow> tlv_server option" where
  "run_moves [] s = Some s"
| "run_moves (a # as) s = (case run_move a s of Some s' \<Rightarrow> run_moves as s' | None \<Rightarrow> None)"

abbreviation tlv_step :: "tlv_server \<Rightarrow> tlv_server \<Rightarrow> bool" where
  "tlv_step \<equiv> server_step Decode Pack Clone"

lemma run_move_step: "run_move a s = Some s' \<Longrightarrow> tlv_step s s'"
proof (cases a)
  case (StartMove i)
  moreover assume "run_move a s = Some s'"
  ultimately show ?thesis
    by (auto intro!: server_step.hosted hosted_step.start split: if_splits option.splits)
next
  case (ConnMove i b)
  moreover assume "run_move a s = Some s'"
  ultimately show ?thesis
    by (auto intro!: server_step.hosted hosted_step.other dest: run_act_step simp del: run_act.simps split: if_splits option.splits)
next
  case (HandMove i)
  moreover assume "run_move a s = Some s'"
  ultimately show ?thesis
    by (auto intro!: server_step.hosted hosted_step.handoff simp del: dispatch_action.simps
        split: if_splits option.splits reader.splits list.splits)
qed (auto intro: server_step.intros call_step.intros pool_moves split: if_splits)

lemma run_moves_steps: "run_moves as s = Some s' \<Longrightarrow> tlv_step\<^sup>*\<^sup>* s s'"
proof (induction as arbitrary: s)
  case (Cons a as)
  then obtain t where "run_move a s = Some t" "run_moves as t = Some s'" by (auto split: option.splits)
  with Cons.IH run_move_step show ?case by (meson converse_rtranclp_into_rtranclp)
qed simp

lemma steps_reachable: "(server_step dec pack cln)\<^sup>*\<^sup>* s t \<Longrightarrow> server_reachable dec pack cln tlv s \<Longrightarrow> server_reachable dec pack cln tlv t"
  by (induction rule: rtranclp_induct) (auto intro: server_reachable.step)

lemma run_moves_append: "run_moves (as @ bs) s = (case run_moves as s of Some t \<Rightarrow> run_moves bs t | None \<Rightarrow> None)"
  by (induction as arbitrary: s) (auto split: option.splits)

section \<open>Runs\<close>

text \<open>A server for one connection and with one worker.\<close>

definition demo_config :: Config where
  "demo_config = Default\<lparr>MaxConn := 1, WorkerPoolSize := 1, MaxWorkerTaskLen := 4, WriteQueueSize := 4\<rparr>"

definition demo_server :: tlv_server where
  "demo_server = NewServer id (\<lambda>_. demo_config) [WithConfig 0]"

lemma demo_server_reachable: "run_moves as demo_server = Some s \<Longrightarrow> server_reachable Decode Pack Clone id s"
  unfolding demo_server_def by (drule run_moves_steps, erule steps_reachable, rule server_reachable.new)

abbreviation boot :: "move list" where
  "boot \<equiv> [CallRun, RunMove True, RunMove True, RunMove True, RunMove True]"

abbreviation take_conn :: "move list" where
  "take_conn \<equiv> [AcceptMove, AcceptMove, AcceptMove, AcceptMove, AcceptMove, AcceptMove]"

abbreviation refuse_conn :: "move list" where
  "refuse_conn \<equiv> [AcceptMove, AcceptMove, AcceptMove, AcceptMove, AcceptMove]"

abbreviation start_conn :: "move list" where
  "start_conn \<equiv> [StartMove 1, StartMove 1, StartMove 1, StartMove 1, StartMove 1, StartMove 1]"

text \<open>The peer sends one message, which a worker executes; a second connection is refused.\<close>

abbreviation serve_one :: "move list" where
  "serve_one \<equiv> boot @ take_conn @ start_conn @ [ConnMove 1 (ReadData [0, 0, 0, 0, 7, 0, 0, 0]), HandMove 1, CommitMove, WorkMove 0, ConnMove 1 HandOff] @ refuse_conn"

text \<open>\<^verbatim>\<open>Shutdown\<close> up to the drain, the drain, and the stop of the pool.\<close>

abbreviation shut_up_to_drain :: "move list" where
  "shut_up_to_drain \<equiv> [CallShutdown, ShutMove False, AcceptMove, ShutMove False]"

abbreviation drain_one :: "move list" where
  "drain_one \<equiv> [DrainMove [1], DrainMove []] @ map (ConnMove 1) (full_once @ [DoStop 0, ReadErr, ReadExit, SeeDone, DoStop 0]) @ [DrainMove [], DrainMove []]"

abbreviation stop_workers :: "move list" where
  "stop_workers \<equiv> [ShutMove False, ShutMove False, ObserveMove 0, ExitMove 0, ShutMove False]"

lemmas server_defs = demo_server_def demo_config_def Default_def NewServer_def setup_options_def new_server_def init_pool_def SetMetrics_def
  NewMsgHandler_def NewConnManager_def Run_def start_pool_def StartWorkerPool_def make_conn_def NewConnection_def add_conn_def Add_def
  Shutdown_def StopWorkerPool_def set_handler_def stop_returns_def

lemmas conn_run_defs = new_conn_def touch_def stop_call_def host_def gauge_of_def closed_of_def CallOnConnStart_def CallOnConnStop_def
  no_counts_def count_down_def count_closed_def Remove_def submitting_def busy_def Clone_def NewTLVPackWithOrder_def

lemmas read_run_defs = read_chunk_def readChunkSize_def Decode_def decode_loop.simps count_in_def count_recv_def

lemmas work_run_defs = pool_move_defs check_send_def commit_send_def pick_worker_def enqueue_def home_def make_chan_def chan_send_def
  chan_ready_def chan_recv_def contents_def Execute_def GetMsgID_def NewRequest_def registered_def observe_duration_def

lemmas reject_run_defs = reject_write_def Pack_def NewMessage_def

lemmas move_defs = server_defs conn_run_defs read_run_defs work_run_defs reject_run_defs Let_def

abbreviation seven :: "(nat, nat) Request" where
  "seven \<equiv> NewRequest 1 (Some \<lparr>Id = 7, DataLen = 0, Data = [], Raw = [0, 0, 0, 0, 7, 0, 0, 0]\<rparr>)"

lemma serve_one_run:
  "\<exists>s. run_moves serve_one demo_server = Some s \<and> accepting s = Accepting \<and> drain s = NoDrain \<and> connsActive s = 1 \<and> connsRejected s = 1 \<and>
     admitted s = [1] \<and> executed (pool s) = [[seven]] \<and> MaxConn (cfg s) = 1"
  by (simp add: move_defs)

lemma drain_ready:
  "\<exists>s. run_moves (serve_one @ shut_up_to_drain) demo_server = Some s \<and> accepting s = AcceptDone \<and> drain s = DrainClear \<and>
     workerCtx (mh (pool s)) = Some False \<and> (\<forall>i c. conns s i = Some c \<longrightarrow> opc c = OnceIdle)"
  by (simp add: move_defs)

lemma drain_all:
  "\<exists>s t. run_moves (serve_one @ shut_up_to_drain) demo_server = Some s \<and> run_moves drain_one s = Some t \<and> drain t = Drained \<and> admitted t = [1]"
  by (simp add: move_defs)

text \<open>
  A connection that is accepted before the listener is closed and handled after the snapshot of \<^verbatim>\<open>ClearConn\<close> is admitted,
  started and read from after \<^verbatim>\<open>Shutdown\<close> has returned without an error.
\<close>

lemma late_connection_survives:
  "\<exists>s c. server_reachable Decode Pack Clone id (s :: tlv_server) \<and> shut s = ShutRet True \<and> accepting s = Accepting \<and>
     conns s 1 = Some c \<and> rd c = Reading \<and> \<not> sockClosed c \<and> connsActive s = 1"
proof -
  have "\<exists>s c. run_moves (boot @ [AcceptMove, CallShutdown, ShutMove False, ShutMove False, DrainMove [], DrainMove []] @ stop_workers @
      [AcceptMove, AcceptMove, AcceptMove, AcceptMove, AcceptMove] @ start_conn) demo_server = Some s \<and> shut s = ShutRet True \<and> accepting s = Accepting \<and>
      conns s 1 = Some c \<and> rd c = Reading \<and> \<not> sockClosed c \<and> connsActive s = 1"
    by (simp add: move_defs)
  then show ?thesis using demo_server_reachable by blast
qed

text \<open>
  A request of a connection that was closed before the snapshot can be lost: its reader has picked a worker, the shutdown does
  not wait for that reader, the pool is stopped and its worker leaves, and then the request is put into the queue.
\<close>

lemma request_lost:
  "\<exists>s. server_reachable Decode Pack Clone id (s :: tlv_server) \<and>
     (shut s, workers (pool s), sent (pool s), executed (pool s)) = (ShutRet True, [Exited], [[seven]], [[]])"
proof -
  have "\<exists>s. run_moves (boot @ take_conn @ start_conn @ [ConnMove 1 (ReadData [0, 0, 0, 0, 7, 0, 0, 0]), HandMove 1] @
      map (ConnMove 1) ([CallStopAct] @ full_once) @
      [CallShutdown, ShutMove False, AcceptMove, ShutMove False, DrainMove [], DrainMove []] @ stop_workers @ [CommitMove]) demo_server = Some s \<and>
      (shut s, workers (pool s), sent (pool s), executed (pool s)) = (ShutRet True, [Exited], [[seven]], [[]])"
    by (simp add: move_defs)
  then show ?thesis using demo_server_reachable by blast
qed

text \<open>An option that changes a field changes the caller's configuration object when \<^verbatim>\<open>WithConfig\<close> came before it, and is lost when it comes after.\<close>

lemma options_share_config:
  "heap (setup_options user [WithConfig p, WithMaxConn n]) (Some p) = (user p)\<lparr>MaxConn := n\<rparr>"
  "MaxConn (cfg (NewServer tlv user [WithMaxConn n, WithConfig p])) = MaxConn (user p)"
  by (simp_all add: setup_options_def NewServer_def new_server_def Let_def)

end
