(* ===== verification/Kinz_Draining.thy ===== *)
theory Kinz_Draining
  imports Kinz_Serving Kinz_Scenario
begin

text \<open>
  Shutdown of the whole server: what the draining goroutine leaves behind when \<^verbatim>\<open>ClearConn\<close> has returned, and what the
  worker pool has executed when \<^verbatim>\<open>Shutdown\<close> has returned. Both rest on one argument about properties of connections that
  last and that a returned \<^verbatim>\<open>Stop\<close> establishes, the locale \<open>stop_goal\<close>.
\<close>

section \<open>Draining\<close>

text \<open>The connections that the draining goroutine has taken out of the manager and not stopped yet.\<close>

fun left :: "drain_pc \<Rightarrow> u64 set" where
  "left (DrainStop js) = set js"
| "left (DrainWait i k js) = insert i (set js)"
| "left _ = {}"

definition listed :: "(('c, 'v, 'e, 'f) Connection \<Rightarrow> bool) \<Rightarrow> ('c, 'v, 'e, 'f, 'h) Server \<Rightarrow> bool" where
  "listed Q s \<longleftrightarrow> accepting s = AcceptDone \<and> \<not> holding (drain s) \<and> connections (connMgr s) = [] \<and>
     (\<forall>i \<in> set (admitted s). i \<in> left (drain s) \<or> (\<exists>c. conns s i = Some c \<and> Q c))"

text \<open>A property of connections that lasts and that a returned \<^verbatim>\<open>Stop\<close> establishes.\<close>

locale stop_goal =
  fixes Q :: "('c, 'v, 'e, 'f) Connection \<Rightarrow> bool"
  assumes lasts: "conn_step dec pack c c' \<Longrightarrow> conn_inv c \<Longrightarrow> Q c \<Longrightarrow> Q c'"
    and reached: "conn_reachable dec pack cod c \<Longrightarrow> returned c \<Longrightarrow> Q c"
begin

lemma listed_update:
  assumes "listed Q s" and "conns s i = Some c" and "conn_inv c" and "conn_step dec pack c c'"
    and "accepting s' = accepting s" and "admitted s' = admitted s" and "conns s' = (conns s)(i \<mapsto> c')"
    and "\<not> holding (drain s')" and "left (drain s') = left (drain s)" and "connections (connMgr s) = [] \<Longrightarrow> connections (connMgr s') = []"
  shows "listed Q s'"
  using assms lasts [OF assms(4,3)] unfolding listed_def by auto

lemma listed_same: "listed Q s \<Longrightarrow> same_world s s' \<Longrightarrow> accepting s' = accepting s \<Longrightarrow> drain s' = drain s \<Longrightarrow> listed Q s'"
  by (simp add: listed_def same_world_def)

lemma listed_drain:
  assumes "server_inv dec pack s" and "drain_action js (drain s) s = Some s'" and "listed Q s"
  shows "listed Q s'"
  using assms(2)
proof (cases rule: drainE)
  case clear
  with assms(3) show ?thesis by (simp add: listed_def)
next
  case finish
  with assms(3) show ?thesis by (simp add: listed_def)
next
  case (stop i is' c)
  have "conn_inv c" using assms(1) hosts_conn [of dec pack s, OF _ stop(2)] by (simp add: server_inv_def)
  from assms(3) stop(2) this conn_step.call_stop show ?thesis by (rule listed_update) (simp_all add: stop)
next
  case (wait i k is' c b w)
  have "k < length (stops c)" using assms(1) wait by (simp add: server_inv_def drain_inv_def)
  then have "returned c" using wait(3) nth_mem [of k "stops c"] unfolding returned_def by metis
  moreover obtain cod where "conn_reachable dec pack cod c"
    using assms(1) hosts_conn [of dec pack s, OF _ wait(2)] by (auto simp: server_inv_def)
  ultimately have "Q c" using reached by blast
  with assms(3) wait(1,2,4) show ?thesis by (auto simp: listed_def)
qed

lemma listed_step:
  assumes "server_step dec pack cln s s'" and "server_inv dec pack s" and "listed Q s"
  shows "listed Q s'"
  using assms(1)
proof (cases rule: server_step.cases)
  case call
  with listed_same [OF assms(3)] call_frame [OF call] show ?thesis by blast
next
  case (run bound)
  have "rpc s \<noteq> RunGo" using assms(2,3) by (auto simp: listed_def server_inv_def phase_inv_def)
  with listed_same [OF assms(3)] run_frame [OF run] show ?thesis by simp
next
  case (accept now wrote)
  with assms(3) show ?thesis by (simp add: listed_def)
next
  case (shutdown late)
  have "drain s = NoDrain" if "shut s = ShutMetrics m" for m using that assms(2) by (simp add: server_inv_def phase_inv_def)
  then have "drain s' = drain s" using assms(3) shutdown_frame [OF shutdown] by (cases "shut s") (auto simp: listed_def holding_def)
  with listed_same [OF assms(3)] shutdown_frame [OF shutdown] show ?thesis by blast
next
  case (drain js)
  from assms(2) drain assms(3) show ?thesis by (rule listed_drain)
next
  case hosted
  have h: "hosts_inv dec pack s" and l: "set (launched s) \<subseteq> set (admitted s)" "\<not> holding (drain s)"
    using assms(2,3) by (simp_all add: server_inv_def hosts_inv_def listed_def)
  from hosted l(1) show ?thesis
  proof (cases rule: hostedE)
    case (step i c c')
    have "conn_inv c" using hosts_conn [OF h step(2)] by blast
    from assms(3) step(2) this step(3) show ?thesis by (rule listed_update) (simp_all add: step(4) l Remove_def)
  next
    case (submit i c m ms)
    have "conn_inv c" using hosts_conn [OF h submit(2)] by blast
    from assms(3) submit(2) this submit(3) show ?thesis by (rule listed_update) (simp_all add: submit(4) l Remove_def)
  qed
next
  case (serve p)
  with listed_same [OF assms(3) serve_frame [of s p]] show ?thesis by simp
qed

lemma listed_steps:
  assumes "(server_step dec pack cln)\<^sup>*\<^sup>* s t" and "server_inv dec pack s" and "listed Q s"
  shows "server_inv dec pack t \<and> listed Q t"
  using assms
proof (induction rule: rtranclp_induct)
  case (step t u)
  then show ?case using listed_step [of dec pack cln t u] server_inv_step [OF step.hyps(2)] by blast
qed simp

end

definition gone :: "('c, 'v, 'e, 'f) Connection \<Rightarrow> bool" where
  "gone c \<longleftrightarrow> opc c = OnceDone"

interpretation gone: stop_goal gone
  by unfold_locales (auto simp: gone_def quiet_def intro: once_done_stays dest: returned_quiet)

interpretation quiet: stop_goal quiet
  by unfold_locales (auto intro: quiet_step returned_quiet)

text \<open>The snapshot of the draining goroutine has every connection whose cleanup has not removed it.\<close>

definition clearing :: "('c, 'v, 'e, 'f, 'h) Server \<Rightarrow> bool" where
  "clearing s \<longleftrightarrow> accepting s = AcceptDone \<and> drain s = DrainClear"

lemma cleared_listed:
  assumes "server_inv dec pack s" and "clearing s" and "drain_action js (drain s) s = Some s'"
    and "\<And>i c. i \<in> set (admitted s) \<Longrightarrow> conns s i = Some c \<Longrightarrow> gone c \<Longrightarrow> Q c"
  shows "listed Q s'"
proof -
  have inv: "hosts_inv dec pack s" "table_inv s" using assms(1) by (simp_all add: server_inv_def)
  have s': "s' = s\<lparr>connMgr := (connMgr s)\<lparr>connections := []\<rparr>, drain := DrainStop js\<rparr>" and js: "mset js = mset (map snd (connections (connMgr s)))"
    using assms(2,3) by (simp_all add: clearing_def split: if_splits)
  have "set js = {i \<in> set (admitted s). \<exists>c. conns s i = Some c \<and> removals c = 0}"
    using mset_eq_setD [OF js] snapshot_ids [of "connMgr s"] inv(2) assms(2) by (simp add: table_inv_def clearing_def)
  moreover have "\<exists>c. conns s i = Some c \<and> (removals c = 0 \<or> Q c)" if "i \<in> set (admitted s)" for i
    using admitted_conn [OF inv(1) that] hosts_conn [OF inv(1)] removals_done assms(4) [OF that] by (fastforce simp: gone_def)
  ultimately show ?thesis using assms(2) by (fastforce simp: listed_def clearing_def s')
qed

lemma clearing_step:
  assumes "server_step dec pack cln s s'" and "server_inv dec pack s" and "clearing s"
  shows "clearing s' \<or> listed gone s'"
  using assms(1)
proof (cases rule: server_step.cases)
  case call
  with assms(3) call_frame [OF call] show ?thesis by (simp add: clearing_def)
next
  case (run bound)
  have "rpc s \<noteq> RunGo" using assms(2,3) by (auto simp: clearing_def server_inv_def phase_inv_def)
  with assms(3) run_frame [OF run] show ?thesis by (simp add: clearing_def)
next
  case (accept now wrote)
  with assms(3) show ?thesis by (simp add: clearing_def)
next
  case (shutdown late)
  have "shut s \<noteq> ShutMetrics m" for m using assms(2,3) by (auto simp: clearing_def server_inv_def phase_inv_def)
  with assms(3) shutdown_frame [OF shutdown] show ?thesis by (cases "shut s") (simp_all add: clearing_def)
next
  case (drain js)
  with cleared_listed [OF assms(2,3)] show ?thesis by blast
next
  case hosted
  have "set (launched s) \<subseteq> set (admitted s)" using assms(2) by (simp add: server_inv_def hosts_inv_def)
  with hosted assms(3) show ?thesis by (auto elim!: hostedE simp: clearing_def simp del: dispatch_action.simps)
next
  case (serve p)
  with assms(3) show ?thesis by (simp add: clearing_def)
qed

lemma clearing_steps:
  assumes "(server_step dec pack cln)\<^sup>*\<^sup>* s t" and "server_inv dec pack s" and "clearing s"
  shows "server_inv dec pack t \<and> (clearing t \<or> listed gone t)"
  using assms
proof (induction rule: rtranclp_induct)
  case (step t u)
  then show ?case
    using clearing_step [OF step.hyps(2)] gone.listed_step [OF step.hyps(2)] server_inv_step [OF step.hyps(2)] by blast
qed simp

section \<open>The pool under shutdown\<close>

text \<open>The worker pool is stopped only after the drain.\<close>

fun pool_phase :: "shutdown_pc \<Rightarrow> bool" where
  "pool_phase ShutPool \<longleftrightarrow> True"
| "pool_phase ShutJoin \<longleftrightarrow> True"
| "pool_phase (ShutRet ok) \<longleftrightarrow> ok"
| "pool_phase _ \<longleftrightarrow> False"

definition stop_inv :: "('c, 'v, 'e, 'f, 'h) Server \<Rightarrow> bool" where
  "stop_inv s \<longleftrightarrow> (pool_phase (shut s) \<longrightarrow> drain s = Drained)"

lemma stop_inv_call: "call_step s s' \<Longrightarrow> stop_inv s \<Longrightarrow> stop_inv s'"
  by (induction rule: call_step.induct) (auto simp: stop_inv_def call_defs)

lemma stop_inv_serve: "stop_inv (s\<lparr>pool := p\<rparr>) = stop_inv s"
  by (simp add: stop_inv_def)

lemma stop_inv_run: "stop_inv s \<Longrightarrow> pred_option stop_inv (run_action bound (rpc s) s)"
  by (cases "rpc s") (simp_all add: stop_inv_def Shutdown_def split: shutdown_pc.split)

lemma stop_inv_shutdown: "stop_inv s \<Longrightarrow> pred_option stop_inv (shutdown_action late (shut s) s)"
  by (cases "shut s") (simp_all add: stop_inv_def set_handler_def)

lemma stop_inv_drain: "drain_action js (drain s) s = Some s' \<Longrightarrow> stop_inv s \<Longrightarrow> stop_inv s'"
  by (erule drainE) (auto simp: stop_inv_def)

lemma accept_shut:
  "pred_option (pred_outcome (\<lambda>s'. shut s' = shut s \<and> drain s' = drain s \<and> pool s' = pool s)) (accept_action pack cln now wrote (accepting s) s)"
proof (cases "accepting s")
  case (Adding i)
  then show ?thesis by (cases rule: add_connE [of i s]) simp_all
qed (simp_all add: reject_write_def make_conn_def Let_def split: option.split outcome.split sum.split)

lemma stop_inv_hosted: "hosted_step dec pack s s' \<Longrightarrow> stop_inv s \<Longrightarrow> stop_inv s'"
  by (induction rule: hosted_step.induct) (simp_all add: stop_inv_def)

lemma stop_inv_step: "server_step dec pack cln s s' \<Longrightarrow> stop_inv s \<Longrightarrow> stop_inv s'"
proof (induction rule: server_step.induct)
  case (run bound s s')
  then show ?case using stop_inv_run [of s bound] by simp
next
  case (accept s now wrote s')
  then show ?case using accept_shut [of s pack cln now wrote] by (simp add: stop_inv_def)
next
  case (shutdown late s s')
  then show ?case using stop_inv_shutdown [of s late] by simp
qed (auto simp: stop_inv_serve intro: stop_inv_call stop_inv_drain stop_inv_hosted)

lemma reachable_stop_inv: "server_reachable dec pack cln tlv s \<Longrightarrow> stop_inv s"
  by (induction rule: server_reachable.induct) (auto simp: NewServer_def Let_def new_server_def stop_inv_def intro: stop_inv_step [unfolded stop_inv_def, rule_format])

text \<open>A step keeps the pool running or stopped, except that a running pool is stopped when no reader is between its check and its send.\<close>

definition tended :: "('v, 'e) pool \<Rightarrow> ('v, 'e) pool \<Rightarrow> bool" where
  "tended p q \<longleftrightarrow> workerCtx (mh q) = workerCtx (mh p) \<and> (stopped_clean p \<longrightarrow> stopped_clean q)"

lemma tended_refl [simp]: "tended p p"
  by (simp add: tended_def)

lemma tended_step: "pool_step p q \<Longrightarrow> workerCtx (mh q) = workerCtx (mh p) \<Longrightarrow> tended p q"
  using stopped_clean_step [of p q] by (simp add: tended_def)

lemma tended_routes: "same_routes (mh p) m \<Longrightarrow> tended p (p\<lparr>mh := m\<rparr>)"
  by (auto simp: tended_def stopped_clean_def same_routes_def)

lemma tended_call: "call_step s s' \<Longrightarrow> tended (pool s) (pool s')"
proof (induction rule: call_step.induct)
  case (add_router s i hs)
  show ?case by (simp add: Server_AddRouterSlices_def set_handler_def case_prod_beta Let_def tended_routes registration_routes)
next
  case (group s a b hs)
  show ?case by (simp add: Server_Group_def set_handler_def case_prod_beta Let_def tended_routes registration_routes)
next
  case (use s hs)
  show ?case by (simp add: Server_Use_def set_handler_def tended_routes registration_routes)
qed (simp_all add: call_defs)

lemma check_send_ctx: "workerCtx (mh (check_send r p)) = workerCtx (mh p)"
  by (simp add: check_send_def split: dispatch.split)

lemma listed_idle:
  assumes "server_inv dec pack s" and "listed quiet s" and "drain s = Drained"
  shows "pending (pool s) = []"
proof (rule ccontr)
  assume "pending (pool s) \<noteq> []"
  then obtain i where "i \<in> busy (pool s)" unfolding busy_def by (cases "pending (pool s)") auto
  then obtain c ms where "i \<in> set (admitted s)" "conns s i = Some c" "rd c = Dispatching ms"
    using assms(1) feedingD(3) unfolding server_inv_def flow_inv_def by blast
  with assms(2,3) show False by (auto simp: listed_def quiet_def)
qed

lemma tended_shutdown:
  assumes "server_inv dec pack s" and "listed quiet s" and "stop_inv s" and "workerCtx (mh (pool s)) = Some False \<or> stopped_clean (pool s)"
  shows "pred_option (\<lambda>s'. tended (pool s) (pool s') \<or> drain s = Drained \<and> stopped_clean (pool s')) (shutdown_action late (shut s) s)"
proof (cases "shut s")
  case ShutPool
  have "pending (pool s) = []" "drain s = Drained" using assms(1-3) ShutPool listed_idle [of dec pack s] by (simp_all add: stop_inv_def)
  moreover have "pool_inv (pool s)" "serving_inv (pool s)" using assms(1) by (simp_all add: server_inv_def flow_inv_def feeding_def pool_ok_def)
  ultimately have "stopped_clean ((pool s)\<lparr>mh := StopWorkerPool (mh (pool s))\<rparr>)"
    using assms(4) cancel_clean [of "pool s"] stopped_clean_step [OF pool_step.cancel, of "pool s"] by auto
  with \<open>drain s = Drained\<close> show ?thesis by (simp add: ShutPool set_handler_def)
qed simp_all

lemma tended_server:
  assumes "server_step dec pack cln s s'" and "server_inv dec pack s" and "listed quiet s" and "stop_inv s"
    and "workerCtx (mh (pool s)) = Some False \<or> stopped_clean (pool s)"
  shows "tended (pool s) (pool s') \<or> drain s = Drained \<and> stopped_clean (pool s')"
  using assms(1)
proof (cases rule: server_step.cases)
  case call
  then show ?thesis using tended_call by blast
next
  case (run bound)
  have "rpc s \<noteq> RunPool" using assms(2,3) by (auto simp: listed_def server_inv_def phase_inv_def)
  then have "pool s' = pool s"
    using run by (cases "rpc s") (auto simp: Shutdown_def split: if_splits shutdown_pc.splits)
  then show ?thesis by simp
next
  case (accept now wrote)
  with assms(3) show ?thesis by (simp add: listed_def)
next
  case (shutdown late)
  with tended_shutdown [OF assms(2-5), of late] show ?thesis by simp
next
  case (drain js)
  then show ?thesis by (auto elim!: drainE)
next
  case hosted
  then show ?thesis
  proof (cases rule: hosted_step.cases)
    case (handoff i c m ms)
    have "pool_step (pool s) (check_send (NewRequest i (Some m)) (pool s))"
      using handoff(5) by (intro pool_step.check) (auto simp: submitting_def busy_def)
    then have "tended (pool s) (check_send (NewRequest i (Some m)) (pool s))" by (rule tended_step) (rule check_send_ctx)
    then show ?thesis unfolding handoff(1) by simp
  qed simp_all
next
  case (serve p)
  have "pool_ok (pool s)" using assms(2) by (simp add: server_inv_def flow_inv_def feeding_def)
  from serve_pool [OF serve(2) this] show ?thesis by (simp add: serve(1) tended_step)
qed

text \<open>After the drain nothing is handed on any more.\<close>

definition same_flow :: "('c, 'v, 'e, 'f, 'h) Server \<Rightarrow> ('c, 'v, 'e, 'f, 'h) Server \<Rightarrow> bool" where
  "same_flow s s' \<longleftrightarrow> drain s' = drain s \<and> submitted (pool s') = submitted (pool s) \<and>
     (\<forall>i. map_option dispatched (conns s' i) = map_option dispatched (conns s i))"

lemma call_submitted: "call_step s s' \<Longrightarrow> submitted (pool s') = submitted (pool s)"
  by (induction rule: call_step.induct) (simp_all add: call_defs)

lemma drained_flow:
  assumes "server_step dec pack cln s s'" and "server_inv dec pack s" and "listed quiet s" and "drain s = Drained"
  shows "same_flow s s'"
  using assms(1)
proof (cases rule: server_step.cases)
  case call
  then show ?thesis using call_frame [OF call] call_submitted [OF call] by (simp add: same_flow_def same_world_def)
next
  case (run bound)
  then have "submitted (pool s') = submitted (pool s)"
    by (cases "rpc s") (auto simp: Shutdown_def start_pool_frame split: if_splits shutdown_pc.splits)
  then show ?thesis using run_frame [OF run] by (simp add: same_flow_def same_world_def)
next
  case (accept now wrote)
  with assms(3) show ?thesis by (simp add: listed_def)
next
  case (shutdown late)
  have "shut s = ShutMetrics m \<Longrightarrow> drain s = NoDrain" for m using assms(2) by (simp add: server_inv_def phase_inv_def)
  then have "drain s' = drain s" "submitted (pool s') = submitted (pool s)"
    using shutdown assms(4) by (cases "shut s"; auto simp: set_handler_def split: if_splits)+
  then show ?thesis using shutdown_frame [OF shutdown] by (simp add: same_flow_def same_world_def)
next
  case (drain js)
  with assms(4) show ?thesis by simp
next
  case hosted
  have "set (launched s) \<subseteq> set (admitted s)" using assms(2) by (simp add: server_inv_def hosts_inv_def)
  with hosted show ?thesis
  proof (cases rule: hostedE)
    case (submit i c m ms)
    with assms(3,4) have "quiet c" by (auto simp: listed_def)
    with submit show ?thesis by (simp add: quiet_def)
  qed (simp add: same_flow_def)
next
  case (serve p)
  have "pool_ok (pool s)" using assms(2) by (simp add: server_inv_def flow_inv_def feeding_def)
  from serve_pool [OF serve(2) this] show ?thesis by (simp add: serve(1) same_flow_def)
qed

text \<open>What holds from the moment of the snapshot on.\<close>

definition handed_on :: "('c, 'v, 'e, 'f, 'h) Server \<Rightarrow> bool" where
  "handed_on s \<longleftrightarrow> (\<forall>i ms. map_option dispatched (conns s i) = Some ms \<longrightarrow> of_conn i (submitted (pool s)) = reqs i ms)"

definition closing_inv ::
  "('c \<Rightarrow> bytes \<Rightarrow> Message list \<times> go_error option \<times> 'c) \<Rightarrow> ('c \<Rightarrow> Message \<Rightarrow> go_error + bytes) \<Rightarrow> ('c, 'v, 'e, 'f, 'h) Server \<Rightarrow> bool" where
  "closing_inv dec pack s \<longleftrightarrow> server_inv dec pack s \<and> listed quiet s \<and> stop_inv s \<and> handed_on s \<and>
     (workerCtx (mh (pool s)) = Some False \<or> stopped_clean (pool s) \<and> drain s = Drained)"

lemma running_handed_on: "server_inv dec pack s \<Longrightarrow> workerCtx (mh (pool s)) = Some False \<Longrightarrow> handed_on s"
  by (auto simp: server_inv_def flow_inv_def feeding_def handed_on_def)

lemma closing_step:
  assumes "server_step dec pack cln s s'" and "closing_inv dec pack s"
  shows "closing_inv dec pack s'"
proof -
  have s: "server_inv dec pack s" "listed quiet s" "stop_inv s" "handed_on s"
      "workerCtx (mh (pool s)) = Some False \<or> stopped_clean (pool s)" "workerCtx (mh (pool s)) = Some False \<or> drain s = Drained"
    using assms(2) by (auto simp: closing_inv_def)
  have s': "server_inv dec pack s'" "listed quiet s'" "stop_inv s'"
    using server_inv_step [OF assms(1) s(1)] quiet.listed_step [OF assms(1) s(1,2)] stop_inv_step [OF assms(1) s(3)] .
  have flow: "same_flow s s'" if "drain s = Drained" using drained_flow [OF assms(1) s(1,2) that] .
  have "workerCtx (mh (pool s')) = Some False \<or> stopped_clean (pool s') \<and> drain s = Drained"
    using tended_server [OF assms(1) s(1,2,3,5)] s(5,6) by (auto simp: tended_def)
  moreover have "handed_on s' \<and> drain s' = Drained" if "drain s = Drained"
    using s(4) flow [OF that] that unfolding handed_on_def same_flow_def by metis
  ultimately show ?thesis
    using s' running_handed_on [OF s'(1)] unfolding closing_inv_def by blast
qed

lemma closing_steps: "(server_step dec pack cln)\<^sup>*\<^sup>* s t \<Longrightarrow> closing_inv dec pack s \<Longrightarrow> closing_inv dec pack t"
  by (induction rule: rtranclp_induct) (auto intro: closing_step)

lemma closing_begins:
  assumes "server_reachable dec pack cln tlv s" and "clearing s" and "workerCtx (mh (pool s)) = Some False"
    and "\<And>i c ms. conns s i = Some c \<Longrightarrow> opc c = OnceDone \<Longrightarrow> rd c \<noteq> Dispatching ms" and "drain_action js (drain s) s = Some s'"
  shows "closing_inv dec pack s'"
proof -
  have s: "server_inv dec pack s" "stop_inv s" using server_reachable_inv [OF assms(1)] reachable_stop_inv [OF assms(1)] by simp_all
  have step: "server_step dec pack undefined s s'" using assms(5) by (rule server_step.drain)
  have "listed quiet s'" using s(1) assms(2,5) by (rule cleared_listed) (use assms(4) in \<open>auto simp: gone_def quiet_def\<close>)
  moreover have "pool s' = pool s" using assms(5) by (auto elim!: drainE)
  ultimately show ?thesis
    using server_inv_step [OF step s(1)] stop_inv_step [OF step s(2)] assms(3) running_handed_on [of dec pack s'] by (simp add: closing_inv_def)
qed

section \<open>Properties\<close>

definition between :: "accept_pc \<Rightarrow> bool" where
  "between a \<longleftrightarrow> a = NoAccept \<or> a = Accepting \<or> a = Handling \<or> a = AcceptDone"

lemma table_limit:
  assumes "hosts_inv dec pack s" and "table_inv s" and "0 < MaxConn (cfg s)" and "holding (drain s)"
  shows "int (length (filter (\<lambda>i. \<exists>c. conns s i = Some c \<and> removals c = 0) (admitted s))) \<le> MaxConn (cfg s)"
proof -
  let ?live = "filter (\<lambda>i. \<exists>c. conns s i = Some c \<and> removals c = 0) (admitted s)"
  have "distinct ?live" using assms(1) by (simp add: hosts_inv_def)
  then have "length ?live = card (ids (connMgr s))" using assms(2,4) by (simp add: table_inv_def flip: distinct_card)
  also have "\<dots> \<le> length (connections (connMgr s))" unfolding ids_def by (metis card_length length_map set_map)
  finally show ?thesis using assms(2,3) by (auto simp: table_inv_def cm_inv_def Len_def)
qed

text \<open>
  C3: exact admission. Whenever the accept loop is between two connections, however connections, workers, setters and a
  shutdown are interleaved: the ids handed out are those admitted and those rejected, the total counts the admitted
  connections, the gauge those whose cleanup has not yet decremented it, and the closed counter those whose cleanup has
  incremented it. As long as no shutdown has emptied the manager, a positive limit is never exceeded.
\<close>

theorem server_admission:
  assumes "server_reachable dec pack cln tlv s" and "between (accepting s)"
  shows "connsTotal s = length (admitted s) \<and> connsActive s = int (length (filter (\<lambda>i. \<not> left_gauge s i) (admitted s))) \<and>
         connsClosed s = length (filter (counted_closed s) (admitted s)) \<and>
         unat (connID s) = connsTotal s + connsRejected s \<and>
         (0 < MaxConn (cfg s) \<and> holding (drain s) \<longrightarrow> int (length (filter (\<lambda>i. \<exists>c. conns s i = Some c \<and> removals c = 0) (admitted s))) \<le> MaxConn (cfg s))"
proof -
  have inv: "hosts_inv dec pack s" "table_inv s" "gauge_inv s"
    using server_reachable_inv [OF assms(1)] by (simp_all add: server_inv_def)
  have "length (filter (left_gauge s) (admitted s)) + length (filter (\<lambda>i. \<not> left_gauge s i) (admitted s)) = length (admitted s)"
    by (rule sum_length_filter_compl)
  with inv assms(2) table_limit [OF inv(1,2)] show ?thesis by (auto simp: gauge_inv_def between_def)
qed

theorem server_admission_witness:
  "\<exists>s. run_moves serve_one demo_server = Some s \<and> connsRejected s = 1 \<and> unat (connID s) = 2 \<and> connsTotal s = 1 \<and>
     connsActive s = int (length (filter (\<lambda>i. \<not> left_gauge s i) [1]))"
proof -
  obtain s where s: "run_moves serve_one demo_server = Some s" "accepting s = Accepting" "connsRejected s = 1" "admitted s = [1]"
    using serve_one_run by blast
  with server_admission [OF demo_server_reachable [OF s(1)]] show ?thesis by (simp add: between_def)
qed

text \<open>
  C4: a shutdown stops every connection. If the accept loop has returned when the draining goroutine starts, then however
  everything is interleaved, when \<^verbatim>\<open>ClearConn\<close> has returned the cleanup of every connection that was ever admitted is
  complete, the manager is empty and the gauge is zero.
\<close>

theorem shutdown_drains:
  assumes "server_reachable dec pack cln tlv s" and "clearing s" and "(server_step dec pack cln)\<^sup>*\<^sup>* s t" and "drain t = Drained"
  shows "(\<forall>i \<in> set (admitted t). \<exists>c. conns t i = Some c \<and> opc c = OnceDone \<and> sockClosed c) \<and>
         connections (connMgr t) = [] \<and> connsActive t = 0"
proof -
  have t: "server_inv dec pack t" "listed gone t"
    using clearing_steps [OF assms(3) server_reachable_inv [OF assms(1)] assms(2)] assms(4) by (auto simp: clearing_def)
  then have gone: "\<exists>c. conns t i = Some c \<and> opc c = OnceDone" if "i \<in> set (admitted t)" for i
    using that assms(4) by (auto simp: listed_def gone_def)
  then have "filter (left_gauge t) (admitted t) = admitted t" by (fastforce simp: past_def filter_id_conv)
  moreover have "sockClosed c" if "conns t i = Some c" "opc c = OnceDone" for i c
    using that t(1) hosts_conn [of dec pack t i c] by (auto simp: server_inv_def conn_inv_def once_inv_def)
  ultimately show ?thesis
    using t gone by (fastforce simp: listed_def server_inv_def gauge_inv_def)
qed

theorem shutdown_drains_witness:
  "\<exists>t c. run_moves (serve_one @ shut_up_to_drain @ drain_one) demo_server = Some t \<and> conns t 1 = Some c \<and> opc c = OnceDone \<and> sockClosed c \<and>
     connsActive t = 0"
proof -
  obtain s t where s: "run_moves (serve_one @ shut_up_to_drain) demo_server = Some s" and t: "run_moves drain_one s = Some t" "drain t = Drained" "admitted t = [1]"
    using drain_all by blast
  have "clearing s" using drain_ready s unfolding clearing_def by (metis option.inject)
  from shutdown_drains [OF demo_server_reachable [OF s] this run_moves_steps [OF t(1)] t(2)] t(3)
  obtain c where "conns t 1 = Some c" "opc c = OnceDone" "sockClosed c" "connsActive t = 0" by auto
  moreover have "run_moves (serve_one @ shut_up_to_drain @ drain_one) demo_server = Some t"
    using s t(1) run_moves_append [of "serve_one @ shut_up_to_drain" drain_one demo_server] by simp
  ultimately show ?thesis by blast
qed

text \<open>
  C2: a shutdown loses no request. If the accept loop has returned and the pool runs when \<^verbatim>\<open>ClearConn\<close> takes its snapshot,
  and no connection that was closed before is still handing requests on, then whatever happens afterwards, once the
  workers are gone every worker has executed all it was sent, and per connection that is exactly what its reader has
  handed on, in order.
\<close>

theorem shutdown_loses_nothing:
  assumes "server_reachable dec pack cln tlv s" and "clearing s" and "workerCtx (mh (pool s)) = Some False"
    and "\<forall>i c ms. conns s i = Some c \<and> opc c = OnceDone \<longrightarrow> rd c \<noteq> Dispatching ms"
    and "drain_action js (drain s) s = Some s'" and "(server_step dec pack cln)\<^sup>*\<^sup>* s' t"
    and "workerCtx (mh (pool t)) = Some True" and "workerWG (mh (pool t)) = 0" and "conns t i = Some c"
  shows "executed (pool t) = sent (pool t) \<and> pending (pool t) = [] \<and>
         of_conn i (executed (pool t) ! home (workerPoolSize (mh (pool t))) i) = reqs i (dispatched c)"
proof -
  have "closing_inv dec pack t"
    using closing_steps [OF assms(6)] closing_begins [OF assms(1-3) _ assms(5)] assms(4) by blast
  then have t: "stopped_clean (pool t)" "pool_inv (pool t)" "handed_on t"
    using assms(7) by (auto simp: closing_inv_def server_inv_def flow_inv_def feeding_def pool_ok_def)
  with stopped_all_executed [of "pool t" i] assms(8,9) show ?thesis
    by (auto simp: stopped_clean_def handed_on_def)
qed

lemma stop_all:
  "\<exists>s s' t c. run_moves (serve_one @ shut_up_to_drain) demo_server = Some s \<and> run_move (DrainMove [1]) s = Some s' \<and>
     run_moves (tl drain_one @ stop_workers) s' = Some t \<and> workerCtx (mh (pool t)) = Some True \<and> workerWG (mh (pool t)) = 0 \<and>
     conns t 1 = Some c \<and> shut t = ShutRet True \<and> executed (pool t) = [[seven]] \<and> workerPoolSize (mh (pool t)) = 1"
  by (simp add: move_defs)

theorem shutdown_loses_nothing_witness:
  "\<exists>s s' t c. run_moves (serve_one @ shut_up_to_drain) demo_server = Some s \<and> run_move (DrainMove [1]) s = Some s' \<and>
     run_moves (tl drain_one @ stop_workers) s' = Some t \<and> conns t 1 = Some c \<and> executed (pool t) = [[seven]] \<and>
     executed (pool t) = sent (pool t) \<and> reqs 1 (dispatched c) = [seven]"
proof -
  obtain s s' t c where s: "run_moves (serve_one @ shut_up_to_drain) demo_server = Some s" "run_move (DrainMove [1]) s = Some s'"
    and t: "run_moves (tl drain_one @ stop_workers) s' = Some t" "workerCtx (mh (pool t)) = Some True" "workerWG (mh (pool t)) = 0"
      "conns t 1 = Some c" "executed (pool t) = [[seven]]" "workerPoolSize (mh (pool t)) = 1"
    using stop_all by blast
  have ready: "clearing s" "workerCtx (mh (pool s)) = Some False" "\<forall>i c ms. conns s i = Some c \<and> opc c = OnceDone \<longrightarrow> rd c \<noteq> Dispatching ms"
    using drain_ready s(1) by (auto simp: clearing_def simp del: run_moves.simps run_move.simps append.simps)
  have "drain_action [1] (drain s) s = Some s'" using s(2) by simp
  from shutdown_loses_nothing [OF demo_server_reachable [OF s(1)] ready this run_moves_steps [OF t(1)] t(2-4)] t(5,6)
  have "executed (pool t) = sent (pool t)" "of_conn 1 [seven] = reqs 1 (dispatched c)" by (simp_all add: home_def del: of_conn_simps)
  moreover have "of_conn 1 [seven] = [seven]" by (simp add: of_conn_def NewRequest_def)
  ultimately show ?thesis using s t by metis
qed

text \<open>
  C37: the rejected peer is told why. When the manager refuses a connection, the server passes to \<^verbatim>\<open>Write\<close>, under a deadline one
  write timeout ahead, a frame that decodes, with any clone of the server's codec that admits 36 bytes, to exactly one message
  with the reserved id and the text of \<^verbatim>\<open>ErrServerFull\<close>. If the write fails half way, what has gone out decodes to nothing but
  that message or a part of it that is not yet a message, without an error.
\<close>

theorem rejection_frame:
  assumes "accepting (add_conn i s) = Rejecting e" and "maxPacketSize (codec s) = 0 \<or> 36 \<le> maxPacketSize (codec s)"
  shows "\<exists>w m c'. refused (reject_write Pack now wrote e s) = refused s @ [(now + WriteTimeout (cfg s), w, take wrote w)] \<and>
           Decode (Clone (codec s)) w = ([m], None, c') \<and> inbuf c' = [] \<and>
           Id m = ServerFullMsgID \<and> Data m = str ''kinz: server reached max connections'' \<and>
           (\<exists>ms c''. Decode (Clone (codec s)) (take wrote w) = (ms, None, c'') \<and> prefix ms [m])"
proof -
  let ?t = "str ''kinz: server reached max connections''"
  let ?m = "NewMessage ServerFullMsgID ?t"
  have e: "error_text e = ?t" using assms(1) by (auto simp: add_conn_def Add_def split: if_splits)
  have len: "length ?t = 36" by (simp add: str_def)
  have "tlv_sendable (tlv_conf (codec s)) ?m" using assms(2) by (auto simp: tlv_conf_def NewMessage_def len)
  then obtain w c' where w: "Pack (Clone (codec s)) ?m = Inr w"
    "Decode (Clone (codec s)) w = ([tlv_received (tlv_conf (codec s)) ?m], None, c')" "tlv_fresh c'"
    using tlv.dec_pack [OF tlv.fresh_clone, of "codec s" ?m] by (auto simp: tlv.conf_clone)
  have "Pack (codec s) ?m = Inr w" using w(1) by (simp add: Pack_def Clone_def)
  then have "refused (reject_write Pack now wrote e s) = refused s @ [(now + WriteTimeout (cfg s), w, take wrote w)]"
    by (simp add: reject_write_def e)
  moreover have "\<exists>ms c''. Decode (Clone (codec s)) (take wrote w) = (ms, None, c'') \<and> prefix ms [tlv_received (tlv_conf (codec s)) ?m]"
    using tlv.dec_prefix [of "Clone (codec s)" "take wrote w" "drop wrote w"] w(2) by (metis append_take_drop_id prefixI)
  ultimately show ?thesis using w
    by (intro exI [of _ w] exI [of _ "tlv_received (tlv_conf (codec s)) ?m"] exI [of _ c'])
      (simp add: tlv_conf_def tlv_fresh_def NewMessage_def)
qed

theorem rejection_frame_witness:
  "\<exists>s w m c'. run_moves serve_one demo_server = Some s \<and>
     refused (reject_write Pack 5 100 (Sentinel ErrServerFull) s) = refused s @ [(5 + WriteTimeout (cfg s), w, take 100 w)] \<and>
     Decode (Clone (codec s)) w = ([m], None, c') \<and> Id m = ServerFullMsgID"
proof -
  have "\<exists>s. run_moves serve_one demo_server = Some s \<and> accepting (add_conn 3 s) = Rejecting (Sentinel ErrServerFull) \<and>
      maxPacketSize (codec s) = 4096"
    by (simp add: move_defs)
  then obtain s where s: "run_moves serve_one demo_server = Some s" "accepting (add_conn 3 s) = Rejecting (Sentinel ErrServerFull)"
    "maxPacketSize (codec s) = 4096" by blast
  with rejection_frame [OF s(2), of 5 100] show ?thesis by fastforce
qed

section \<open>Calls at the wrong time\<close>

text \<open>Before the listener is stored there is nothing for \<^verbatim>\<open>Shutdown\<close> to close, and afterwards it does nothing.\<close>

definition unclosable :: "('c, 'v, 'e, 'f, 'h) Server \<Rightarrow> bool" where
  "unclosable s \<longleftrightarrow> closed s \<and> (\<forall>m. shut s \<noteq> ShutClose True m) \<and> sock s \<noteq> Some False \<and> accepting s \<noteq> AcceptDone \<and> (\<forall>ok. rpc s \<noteq> RunRet ok)"

lemma unclosable_call: "call_step s s' \<Longrightarrow> unclosable s \<Longrightarrow> unclosable s'"
  by (induction rule: call_step.induct) (auto simp: unclosable_def call_defs)

lemma unclosable_run: "unclosable s \<Longrightarrow> pred_option unclosable (run_action bound (rpc s) s)"
  by (cases "rpc s") (auto simp: unclosable_def split: shutdown_pc.split)

lemma unclosable_shutdown: "unclosable s \<Longrightarrow> pred_option unclosable (shutdown_action late (shut s) s)"
  by (cases "shut s") (auto simp: unclosable_def set_handler_def)

lemma unclosable_accept: "unclosable s \<Longrightarrow> pred_option (pred_outcome unclosable) (accept_action pack cln now wrote (accepting s) s)"
proof (cases "accepting s")
  case (Adding i)
  assume "unclosable s"
  then show ?thesis unfolding Adding by (cases rule: add_connE [of i s]) (simp_all add: unclosable_def)
qed (auto simp: unclosable_def reject_write_def make_conn_def Let_def split: option.split outcome.split sum.split)

lemma unclosable_step: "server_step dec pack cln s s' \<Longrightarrow> unclosable s \<Longrightarrow> unclosable s'"
proof (induction rule: server_step.induct)
  case (call s s')
  then show ?case by (rule unclosable_call)
next
  case (run bound s s')
  then show ?case using unclosable_run [of s bound] by simp
next
  case (accept s now wrote s')
  then show ?case using unclosable_accept [of s pack cln now wrote] by simp
next
  case (shutdown late s s')
  then show ?case using unclosable_shutdown [of s late] by simp
next
  case (drain js s s')
  then show ?case by (auto elim!: drainE simp: unclosable_def)
next
  case (hosted s s')
  then show ?case by (induction rule: hosted_step.induct) (simp_all add: unclosable_def)
next
  case (serve s p)
  then show ?case by (simp add: unclosable_def)
qed

text \<open>
  \<^verbatim>\<open>Run\<close> hangs when \<^verbatim>\<open>Shutdown\<close> came before it had stored its listener. \<^verbatim>\<open>Run\<close> does not look at \<^verbatim>\<open>closed\<close>, and its own shutdown
  then returns at once without closing anything: in no continuation does the accept loop end or \<^verbatim>\<open>Run\<close> return, whether it
  was called after \<^verbatim>\<open>Shutdown\<close> or before.
\<close>

theorem early_shutdown_hangs:
  assumes "\<not> closed s" and "\<not> listener s" and "sock s \<noteq> Some False" and "rpc s \<in> {RunIdle, RunListen, RunFailed, RunBound}"
    and "accepting s = NoAccept" and "(server_step dec pack cln)\<^sup>*\<^sup>* (Shutdown s) t"
  shows "(\<forall>ok. rpc t \<noteq> RunRet ok) \<and> accepting t \<noteq> AcceptDone \<and> sock t \<noteq> Some False"
proof -
  have "unclosable (Shutdown s)" using assms(1-5) by (auto simp: unclosable_def Shutdown_def)
  with assms(6) have "unclosable t" by (induction rule: rtranclp_induct) (auto intro: unclosable_step)
  then show ?thesis by (simp add: unclosable_def)
qed

theorem early_shutdown_hangs_witness:
  "\<exists>s. run_moves [ShutMove False, ShutMove False, CallRun, RunMove True, RunMove True, RunMove True, RunMove True, RunMove True] (Shutdown demo_server) = Some s \<and>
     rpc s = RunJoin True \<and> accepting s = Accepting \<and> (\<forall>t ok. tlv_step\<^sup>*\<^sup>* s t \<longrightarrow> rpc t \<noteq> RunRet ok)"
proof -
  let ?as = "[ShutMove False, ShutMove False, CallRun, RunMove True, RunMove True, RunMove True, RunMove True, RunMove True]"
  have "\<exists>s. run_moves ?as (Shutdown demo_server) = Some s \<and> rpc s = RunJoin True \<and> accepting s = Accepting" by (simp add: move_defs)
  then obtain s where s: "run_moves ?as (Shutdown demo_server) = Some s" "rpc s = RunJoin True" "accepting s = Accepting" by blast
  have d: "\<not> closed demo_server" "\<not> listener demo_server" "sock demo_server \<noteq> Some False" "accepting demo_server = NoAccept"
    "rpc demo_server \<in> {RunIdle, RunListen, RunFailed, RunBound}" by (simp_all add: move_defs)
  have "rpc t \<noteq> RunRet ok" if "tlv_step\<^sup>*\<^sup>* s t" for t ok
    using early_shutdown_hangs [OF d(1-3,5,4) rtranclp_trans [OF run_moves_steps [OF s(1)] that]] by blast
  with s show ?thesis by blast
qed

text \<open>A metrics endpoint that is attached after \<^verbatim>\<open>Shutdown\<close> has returned stays open.\<close>

definition leaked :: "nat \<Rightarrow> ('c, 'v, 'e, 'f, 'h) Server \<Rightarrow> bool" where
  "leaked n s \<longleftrightarrow> closed s \<and> (\<exists>ok. shut s = ShutRet ok) \<and> metricsListener s = Some n \<and> n \<notin> set (attaching s) \<and>
     n < length (endpoints s) \<and> endpoints s ! n"

lemma leaked_call: "call_step s s' \<Longrightarrow> leaked n s \<Longrightarrow> leaked n s'"
proof (induction rule: call_step.induct)
  case (attach_end k s)
  then have "k \<noteq> n" by (auto simp: leaked_def)
  with attach_end show ?case by (auto simp: leaked_def call_defs dest: notin_set_remove1)
qed (auto simp: leaked_def call_defs nth_append)

lemma leaked_run: "leaked n s \<Longrightarrow> pred_option (leaked n) (run_action bound (rpc s) s)"
  by (cases "rpc s") (auto simp: leaked_def split: shutdown_pc.split)

lemma leaked_accept: "leaked n s \<Longrightarrow> pred_option (pred_outcome (leaked n)) (accept_action pack cln now wrote (accepting s) s)"
proof (cases "accepting s")
  case (Adding i)
  assume "leaked n s"
  then show ?thesis unfolding Adding by (cases rule: add_connE [of i s]) (simp_all add: leaked_def)
qed (auto simp: leaked_def reject_write_def make_conn_def Let_def split: option.split outcome.split sum.split)

lemma host_endpoints [simp]:
  "metricsListener (host i c c' s) = metricsListener s" "attaching (host i c c' s) = attaching s" "endpoints (host i c c' s) = endpoints s"
  using call_hooks_frame [of i "drop (length (hooks c)) (hooks c')" s] by (auto simp: host_def)

lemma endpoint_leaks: "server_step dec pack cln s s' \<Longrightarrow> leaked n s \<Longrightarrow> leaked n s'"
proof (induction rule: server_step.induct)
  case (call s s')
  then show ?case by (rule leaked_call)
next
  case (run bound s s')
  then show ?case using leaked_run [of n s bound] by simp
next
  case (accept s now wrote s')
  then show ?case using leaked_accept [of n s pack cln now wrote] by simp
next
  case (shutdown late s s')
  then show ?case by (auto simp: leaked_def)
next
  case (drain js s s')
  then show ?case by (auto elim!: drainE simp: leaked_def)
next
  case (hosted s s')
  then show ?case by (induction rule: hosted_step.induct) (simp_all add: leaked_def)
next
  case (serve s p)
  then show ?case by (simp add: leaked_def)
qed

lemma attach_after_shutdown:
  assumes "closed s" and "shut s = ShutRet ok" and "metricsListener s = None" and "\<forall>k \<in> set (attaching s). k < length (endpoints s)"
  shows "leaked (length (endpoints s)) (snd (attach_store (length (endpoints s)) (attach_listen s)))"
  using assms by (auto simp: leaked_def attach_store_def attach_listen_def remove1_append)

text \<open>\<^verbatim>\<open>SetHeartBeatWithOption\<close> leaves a handler for the frames of its template.\<close>

lemma heartbeat_routed:
  "\<exists>t. hbTemplate (SetHeartBeatWithOption handle ival opt s) = Some t \<and>
     GetHandlers (msgID t) (mh (pool (SetHeartBeatWithOption handle ival opt s))) \<noteq> None"
  by (simp add: SetHeartBeatWithOption_def Server_AddRouterSlices_def store_template_def set_handler_def Let_def AddRouterSlices_def
      addSlices_def GetHandlers_def split: option.split)

end
