(* ===== verification/Kinz_Finishing.thy ===== *)
theory Kinz_Finishing
  imports Kinz_Draining
begin

text \<open>
  \<^verbatim>\<open>Shutdown\<close> can always finish: from every state of the server in which it is under way, the goroutines of the program alone,
  without a further call, without data from a peer and without the deadline of its context, can bring it to its return. The
  proof follows the draining goroutine, the connection it waits for, the pool that connection's reader may be waiting in, and
  the workers.
\<close>

section \<open>Steps of the program\<close>

text \<open>The steps of \<open>server_step\<close> that need nobody outside of the program.\<close>

inductive system_step ::
  "('c \<Rightarrow> bytes \<Rightarrow> Message list \<times> go_error option \<times> 'c) \<Rightarrow> ('c, 'v, 'e, 'f, 'h) Server \<Rightarrow> ('c, 'v, 'e, 'f, 'h) Server \<Rightarrow> bool" for dec where
  shutdown: "shutdown_action False (shut s) s = Some s' \<Longrightarrow> system_step dec s s'"
| drain: "drain_action js (drain s) s = Some s' \<Longrightarrow> system_step dec s s'"
| start: "i \<in> set (launched s) \<Longrightarrow> conns s i = Some c \<Longrightarrow> start_action (GetHeartBeat s) (spc c) c = Some c' \<Longrightarrow>
    system_step dec s (host i c c' s)"
| handoff: "i \<in> set (admitted s) \<Longrightarrow> conns s i = Some c \<Longrightarrow> rd c = Dispatching (m # ms) \<Longrightarrow> \<not> submitting i s \<Longrightarrow>
    system_step dec s ((host i c (dispatch_action (m # ms) c) s)\<lparr>pool := check_send (NewRequest i (Some m)) (pool s)\<rparr>)"
| conn: "i \<in> set (admitted s) \<Longrightarrow> conns s i = Some c \<Longrightarrow> conn_internal dec c c' \<Longrightarrow> rcvd c' = rcvd c \<Longrightarrow> spc c' = spc c \<Longrightarrow>
    dispatched c' = dispatched c \<Longrightarrow> rd c' = rd c \<or> \<not> submitting i s \<Longrightarrow> system_step dec s (host i c c' s)"
| serve: "pool_serve (pool s) p \<Longrightarrow> system_step dec s (s\<lparr>pool := p\<rparr>)"

lemma system_server: "system_step dec s s' \<Longrightarrow> server_step dec pack cln s s'"
proof (induction rule: system_step.induct)
  case (start i s c c')
  then show ?case by (intro server_step.hosted hosted_step.start)
next
  case (handoff i s c m ms)
  then show ?case by (intro server_step.hosted hosted_step.handoff)
next
  case (conn i s c c')
  then show ?case by (intro server_step.hosted hosted_step.other conn_step.internal)
qed (auto intro: server_step.intros)

lemma systems_reachable: "(system_step dec)\<^sup>*\<^sup>* s t \<Longrightarrow> server_reachable dec pack cln tlv s \<Longrightarrow> server_reachable dec pack cln tlv t"
  by (induction rule: rtranclp_induct) (auto intro: server_reachable.step system_server)

section \<open>Invariants\<close>

text \<open>Only launched connections start; only \<^verbatim>\<open>Shutdown\<close> cancels the workers, and it waits for them only then.\<close>

definition finish_inv :: "('c, 'v, 'e, 'f, 'h) Server \<Rightarrow> bool" where
  "finish_inv s \<longleftrightarrow> (\<forall>i c. conns s i = Some c \<longrightarrow> spc c \<noteq> StartCas \<longrightarrow> i \<in> set (launched s)) \<and>
     (workerCtx (mh (pool s)) = Some True \<longrightarrow> shut s = ShutJoin \<or> (\<exists>ok. shut s = ShutRet ok)) \<and>
     (shut s = ShutJoin \<longrightarrow> workerCtx (mh (pool s)) = Some True)"

lemma finish_call:
  assumes "call_step s s'" and "finish_inv s" and "phase_inv s"
  shows "finish_inv s'"
  using assms
proof (induction rule: call_step.induct)
  case (add_router s i hs)
  then show ?case using registration_routes(1) [of "mh (pool s)" i hs]
    by (auto simp: finish_inv_def Server_AddRouterSlices_def set_handler_def case_prod_beta Let_def same_routes_def)
next
  case (group s a b hs)
  then show ?case using registration_routes(2) [of "mh (pool s)" a b hs]
    by (auto simp: finish_inv_def Server_Group_def set_handler_def case_prod_beta Let_def same_routes_def)
next
  case (use s hs)
  then show ?case using registration_routes(3) [of "mh (pool s)" hs]
    by (auto simp: finish_inv_def Server_Use_def set_handler_def same_routes_def)
qed (auto simp: finish_inv_def call_defs phase_inv_def)

lemma start_pool_ctx: "workerCtx (mh (start_pool p)) = Some True \<longleftrightarrow> workerCtx (mh p) = Some True"
  by (auto simp: start_pool_def StartWorkerPool_def Let_def)

lemma finish_frame [simp]:
  "finish_inv (s\<lparr>rpc := r\<rparr>) = finish_inv s" "finish_inv (s\<lparr>sock := k\<rparr>) = finish_inv s" "finish_inv (s\<lparr>wrapped := w\<rparr>) = finish_inv s"
  "finish_inv (s\<lparr>listener := l\<rparr>) = finish_inv s" "finish_inv (s\<lparr>started := x\<rparr>) = finish_inv s" "finish_inv (s\<lparr>accepting := a\<rparr>) = finish_inv s"
  "finish_inv (s\<lparr>endpoints := es\<rparr>) = finish_inv s" "finish_inv (s\<lparr>drain := d\<rparr>) = finish_inv s"
  by (simp_all add: finish_inv_def)

lemma finish_Shutdown: "finish_inv s \<Longrightarrow> phase_inv s \<Longrightarrow> finish_inv (Shutdown s)"
  by (cases "closed s") (auto simp: finish_inv_def Shutdown_def phase_inv_def)

lemma finish_start_pool: "finish_inv s \<Longrightarrow> finish_inv (s\<lparr>pool := start_pool (pool s)\<rparr>)"
  by (simp add: finish_inv_def start_pool_ctx)

lemma finish_run:
  assumes "run_action bound (rpc s) s = Some s'" and "finish_inv s" and "phase_inv s"
  shows "finish_inv s'"
proof (cases "rpc s")
  case RunPool
  then have "s' = (s\<lparr>pool := start_pool (pool s)\<rparr>)\<lparr>rpc := RunGo\<rparr>" using assms(1) by simp
  then show ?thesis using finish_start_pool [OF assms(2)] by (simp only: finish_frame)
next
  case RunWait
  then have "s' = s\<lparr>rpc := RunJoin True\<rparr> \<or> s' = (Shutdown s)\<lparr>rpc := RunShut\<rparr>" using assms(1) by (simp split: if_splits)
  then show ?thesis using finish_Shutdown [OF assms(2,3)] assms(2) by (elim disjE) (simp_all only: finish_frame)
next
  case RunShut
  then have "\<exists>ok. s' = s\<lparr>rpc := RunJoin ok\<rparr>" using assms(1) by (cases "shut s") auto
  then show ?thesis using assms(2) by auto
qed (use assms(1,2) in \<open>auto split: if_splits\<close>)

lemma finish_shutdown:
  assumes "shutdown_action late (shut s) s = Some s'" and "finish_inv s" and "shape_inv (pool s)"
  shows "finish_inv s'"
proof (cases "shut s")
  case ShutPool
  have "workerCancel (mh (pool s)) \<longleftrightarrow> workerCtx (mh (pool s)) = Some False" using assms(3) by (simp add: shape_inv_def)
  moreover have "s' = (set_handler (StopWorkerPool (mh (pool s))) s)\<lparr>shut := if workerCancel (mh (pool s)) then ShutJoin else ShutRet True\<rparr>"
    using assms(1) ShutPool by simp
  ultimately show ?thesis using assms(2) by (auto simp: finish_inv_def set_handler_def StopWorkerPool_def)
qed (use assms(1,2) in \<open>auto simp: finish_inv_def split: if_splits\<close>)

lemma finish_accept:
  assumes "accept_action pack cln now wrote (accepting s) s = Some (Ret s')" and "finish_inv s"
  shows "finish_inv s'"
proof (cases "accepting s")
  case Handling
  then have "make_conn cln now s = Ret s'" using assms(1) by simp
  then obtain c where c: "NewConnection (connID s + 1) (cln (codec s)) (WriteQueueSize (cfg s)) (WriteTimeout (cfg s)) True now = Ret c"
    "s' = s\<lparr>connID := connID s + 1, conns := (conns s)(connID s + 1 \<mapsto> c), cloned := (cloned s)(connID s + 1 \<mapsto> cln (codec s)), accepting := Adding (connID s + 1)\<rparr>"
    by (elim make_connE)
  then have "spc c = StartCas" by (auto dest!: NewConnectionD simp: new_conn_def touch_def)
  then show ?thesis using assms(2) c(2) by (auto simp: finish_inv_def)
next
  case (Adding i)
  then have "s' = add_conn i s" using assms(1) by simp
  then show ?thesis using assms(2) by (cases rule: add_connE [of i s]) (simp_all add: finish_inv_def)
qed (use assms in \<open>auto simp: finish_inv_def reject_write_def split: option.splits sum.splits\<close>)

lemma finish_host:
  assumes "finish_inv s" and "conns s i = Some c" and "spc c \<noteq> StartCas \<or> spc c' = StartCas \<or> i \<in> set (launched s)"
    and "workerCtx (mh p) = workerCtx (mh (pool s))"
  shows "finish_inv ((host i c c' s)\<lparr>pool := p\<rparr>)"
  using assms by (auto simp: finish_inv_def)

lemma finish_step:
  assumes "server_step dec pack cln s s'" and "server_inv dec pack s" and "finish_inv s"
  shows "finish_inv s'"
  using assms
proof (induction rule: server_step.induct)
  case (call s s')
  then show ?case by (auto simp: server_inv_def intro: finish_call)
next
  case (run bound s s')
  then show ?case by (auto simp: server_inv_def intro: finish_run)
next
  case (accept s now wrote s')
  then show ?case by (auto intro: finish_accept)
next
  case (shutdown late s s')
  then show ?case by (auto simp: server_inv_def flow_inv_def feeding_def pool_ok_def pool_inv_def intro: finish_shutdown)
next
  case (drain js s s')
  from drain.hyps drain.prems(2) show ?case by (cases rule: drainE) (auto simp: finish_inv_def stop_call_def)
next
  case (hosted s s')
  then show ?case
  proof (induction rule: hosted_step.induct)
    case (start i s c c')
    then show ?case using finish_host [of s i c c' "pool s"] by simp
  next
    case (handoff i s c m ms)
    then show ?case by (intro finish_host) (auto simp: check_send_def split: dispatch.split)
  next
    case (other i s c c')
    then show ?case using finish_host [of s i c c' "pool s"] by simp
  qed
next
  case (serve s p)
  then have "workerCtx (mh p) = workerCtx (mh (pool s))"
    using serve_pool [OF serve.hyps] by (simp add: server_inv_def flow_inv_def feeding_def)
  then show ?case using serve.prems(2) by (simp add: finish_inv_def)
qed

lemma finish_reachable: "server_reachable dec pack cln tlv s \<Longrightarrow> finish_inv s"
proof (induction rule: server_reachable.induct)
  case (new user opts)
  show ?case by (simp add: finish_inv_def NewServer_def new_server_def Let_def init_pool_def SetMetrics_def NewMsgHandler_def)
next
  case (step s s')
  then show ?case using finish_step server_reachable_inv by blast
qed

section \<open>The pool\<close>

text \<open>Every chain returns: no handler binds another chain or clears the message, the condition under which \<open>Execute\<close> was shown to return.\<close>

definition handlers_end :: "('v, 'e) MsgHandler \<Rightarrow> bool" where
  "handlers_end m \<longleftrightarrow> (\<forall>i. \<forall>h \<in> set (chain_of i m). no_bind h \<and> keeps_msg h)"

lemma handlers_end_frame: "handlers_end (m\<lparr>MsgHandler.metrics := x\<rparr>) = handlers_end m" "handlers_end (m\<lparr>taskQueue := q\<rparr>) = handlers_end m"
  "handlers_end (m\<lparr>workerWG := n\<rparr>) = handlers_end m" "handlers_end (StopWorkerPool m) = handlers_end m"
  by (simp_all add: handlers_end_def chain_of_def StopWorkerPool_def)

lemma serve_routes: "pool_serve p q \<Longrightarrow> handlers_end (mh p) \<Longrightarrow> handlers_end (mh q)"
proof (induction rule: pool_serve.induct)
  case (commit i r p waiting)
  then show ?case by (simp add: commit_send_def enqueue_def Let_def handlers_end_def chain_of_def)
next
  case (go r p ans fuel m r' tr)
  then show ?case using Execute_frame [OF go.hyps(2)] by (auto simp: handlers_end_frame)
next
  case (worker i p q)
  then show ?case
  proof (induction rule: worker_step.induct)
    case (work i p r q ans fuel m r' tr)
    then show ?case using Execute_frame [OF work.hyps(4)] by (auto simp: handlers_end_frame)
  qed (simp_all add: handlers_end_frame)
qed

text \<open>What the readers hand on has a message, so what is queued can be executed.\<close>

lemma queued_submitted:
  assumes "pool_inv p" and "j < length (taskQueue (mh p))" and "r \<in> set (contents (taskQueue (mh p) ! j))"
  shows "r \<in> set (submitted p)"
proof -
  have "r \<in> set (sent p ! j)" using assms by (simp add: pool_inv_def queue_inv_def)
  moreover from this have "home (workerPoolSize (mh p)) (conn r) = j" using assms by (simp add: pool_inv_def route_inv_def)
  moreover have "of_conn (conn r) (submitted p) =
      of_conn (conn r) (sent p ! home (workerPoolSize (mh p)) (conn r)) @ of_conn (conn r) (map snd (pending p))"
    using assms(1,2) by (auto simp: pool_inv_def order_inv_def split: if_splits)
  ultimately have "r \<in> set (of_conn (conn r) (submitted p))" by (simp add: of_conn_def)
  then show ?thesis by (simp add: of_conn_def)
qed

lemma feeding_executable:
  assumes "feeding cs known p" and "known \<subseteq> dom cs" and "handlers_end (mh p)"
  shows "executable_queues p"
proof (unfold executable_queues_def, intro ballI)
  fix q r
  assume q: "q \<in> set (taskQueue (mh p))" and r: "r \<in> set (contents q)"
  then obtain j where "j < length (taskQueue (mh p))" "q = taskQueue (mh p) ! j" by (auto simp: in_set_conv_nth)
  with r have sub: "r \<in> set (submitted p)" using queued_submitted [OF feedingD(2) [OF assms(1)]] by simp
  then obtain c where c: "cs (conn r) = Some c" using assms(1,2) by (auto simp: feeding_def)
  have "r \<in> set (of_conn (conn r) (submitted p))" using sub by (simp add: of_conn_def)
  then have "r \<in> set (reqs (conn r) (dispatched c))" using feedingD(4) [OF assms(1) c] by (auto simp: prefix_def)
  then obtain m where m: "r = NewRequest (conn r) (Some m)" by (auto simp: reqs_def)
  then have "msg r = Some m" by (metis NewRequest_sel(1))
  then show "\<exists>m. msg r = Some m \<and> (\<forall>h \<in> set (chain_of (Id m) (mh p)). no_bind h \<and> keeps_msg h)"
    using assms(3) by (auto simp: handlers_end_def)
qed

text \<open>What the pool has to do before everybody who waits in it is let go.\<close>

definition pool_load :: "('v, 'e) pool \<Rightarrow> nat" where
  "pool_load p = 2 * length (pending p) + work_left p"

lemma work_enabled:
  assumes "shape_inv p" and "executable_queues p" and "j < length (workers p)" and "workers p ! j \<noteq> Exited"
    and "contents (taskQueue (mh p) ! j) \<noteq> []"
  shows "\<exists>q. worker_step j p q"
proof -
  obtain r q where rq: "chan_recv (taskQueue (mh p) ! j) = Some (r, q)" "r \<in> set (contents (taskQueue (mh p) ! j))"
    using assms(5) by (cases "contents (taskQueue (mh p) ! j)") (auto simp: chan_recv_def)
  have "taskQueue (mh p) ! j \<in> set (taskQueue (mh p))" using assms(1,3) by (simp add: shape_inv_def)
  with rq(2) obtain m where "msg r = Some m" "\<forall>h \<in> set (chain_of (Id m) (mh p)). no_bind h \<and> keeps_msg h"
    using assms(2) unfolding executable_queues_def by blast
  then obtain fuel m' r' tr' where
      "Execute (\<lambda>_ _. undefined) fuel ((mh p)\<lparr>taskQueue := (taskQueue (mh p))[j := q]\<rparr>) r = Some (Ret (m', r', tr'))"
    using Execute_returns [of r m "(mh p)\<lparr>taskQueue := (taskQueue (mh p))[j := q]\<rparr>" "\<lambda>_ _. undefined"] by auto
  with rq(1) assms(3,4) show ?thesis by (blast intro: worker_step.work)
qed

lemma worker_pending: "worker_step j p q \<Longrightarrow> pending q = pending p"
  by (induction rule: worker_step.induct) simp_all

lemma busy_progress:
  assumes "pool_ok p" and "executable_queues p" and "workerCtx (mh p) \<noteq> Some True" and "i \<in> busy p"
  shows "\<exists>q. pool_serve p q \<and> pool_load q < pool_load p"
proof (cases "pending p")
  case (Cons x xs)
  obtain j r where jr: "(j, r) \<in> set (pending p)" using Cons by (cases x) auto
  then have j: "j < length (taskQueue (mh p))" using assms(1) by (auto simp: pool_ok_def pool_inv_def route_inv_def)
  then have ci: "chan_inv (taskQueue (mh p) ! j)" using assms(1) by (simp add: pool_ok_def pool_inv_def queue_inv_def)
  let ?q = "commit_send False j r p"
  have "length (pending ?q) = length (pending p) - 1" "0 < length (pending p)"
    using jr by (auto simp: commit_send_def length_remove1 length_pos_if_in_set)
  moreover have "work_left ?q = Suc (work_left p)"
    using j sum_list_map_update [OF j, of "\<lambda>q. length (contents q)" "chan_send r (taskQueue (mh p) ! j)"]
    by (simp add: work_left_def commit_send_def enqueue_def Let_def chan.send_content [OF ci])
  ultimately have "pool_load ?q < pool_load p" unfolding pool_load_def by linarith
  then show ?thesis using pool_serve.commit [OF jr] by blast
next
  case Nil
  then obtain q where q: "q \<in> set (taskQueue (mh p))" "cwait q \<noteq> []" using assms(4) by (force simp: busy_def)
  then obtain j where j: "j < length (taskQueue (mh p))" "q = taskQueue (mh p) ! j" by (auto simp: in_set_conv_nth)
  have shape: "shape_inv p" using assms(1) by (simp add: pool_ok_def pool_inv_def)
  then have "j < length (workers p)" using j(1) by (simp add: shape_inv_def)
  moreover from this have "workers p ! j \<noteq> Exited" using assms(1,3) by (simp add: pool_ok_def serving_inv_def)
  moreover have "contents (taskQueue (mh p) ! j) \<noteq> []" using q(2) j(2) by (simp add: contents_def)
  ultimately obtain t where t: "worker_step j p t" using work_enabled [OF shape assms(2)] by blast
  have "pool_load t < pool_load p" using worker_step_decreases [OF t shape] worker_pending [OF t] by (simp add: pool_load_def)
  then show ?thesis using pool_serve.worker [OF t] by blast
qed

section \<open>The connection that is waited for\<close>

text \<open>What a connection has to do before a call of \<^verbatim>\<open>Stop\<close> on it returns.\<close>

definition stop_load :: "('c, 'v, 'e, 'f) Connection \<Rightarrow> nat" where
  "stop_load c = (10 - opos (opc c)) + conn_rank c"

lemma once_moves:
  assumes "once_action (opc c) c = Ret c'" and "opc c \<noteq> OnceDone"
  shows "stop_load c' < stop_load c" "spc c' = spc c" "dispatched c' = dispatched c" "rd c' = rd c" "rcvd c' = rcvd c" "stops c' = stops c"
  using assms by (elim once_actionE; simp add: stop_load_def conn_rank_def)+

lemma closed_load:
  assumes "conn_internal dec c c'" and "conn_inv c" and "opc c = OnceDone"
  shows "stop_load c' < stop_load c"
  using closed_rank [OF assms] once_done_stays [OF conn_step.internal [OF assms(1)] assms(3)] assms(3) by (simp add: stop_load_def)

lemma stop_action_frame:
  "stop_action n (stops c ! n) c = Some c' \<Longrightarrow> spc c' = spc c \<and> dispatched c' = dispatched c \<and> rd c' = rd c \<and> rcvd c' = rcvd c"
  by (elim stop_actionE) simp_all

text \<open>
  A connection that can move towards the return of that call: by a step that leaves its reader alone, by its \<^verbatim>\<open>Start\<close>, by a
  step of a reader that has nothing to hand on, or by handing on a message.
\<close>

definition eases :: "('c \<Rightarrow> bytes \<Rightarrow> Message list \<times> go_error option \<times> 'c) \<Rightarrow> ('c, 'v, 'e, 'f) Connection \<Rightarrow> ('c, 'v, 'e, 'f) Connection \<Rightarrow> bool" where
  "eases dec c c' \<longleftrightarrow> conn_internal dec c c' \<and> stop_load c' < stop_load c \<and> spc c' = spc c \<and> dispatched c' = dispatched c \<and> rcvd c' = rcvd c"

definition moves :: "('c \<Rightarrow> bytes \<Rightarrow> Message list \<times> go_error option \<times> 'c) \<Rightarrow> ('c, 'v, 'e, 'f) Connection \<Rightarrow> bool" where
  "moves dec c \<longleftrightarrow>
     (\<exists>c'. eases dec c c' \<and> rd c' = rd c) \<or>
     (spc c \<noteq> StartCas \<and> (\<forall>tpl. \<exists>c'. start_action tpl (spc c) c = Some c' \<and> stop_load c' < stop_load c)) \<or>
     (\<exists>c'. eases dec c c' \<and> (\<forall>m ms. rd c \<noteq> Dispatching (m # ms))) \<or>
     (\<exists>m ms. rd c = Dispatching (m # ms) \<and> stop_load (dispatch_action (m # ms) c) < stop_load c)"

lemma movesE:
  assumes "moves dec c"
  obtains (conn) c' where "eases dec c c'" "rd c' = rd c"
  | (start) "spc c \<noteq> StartCas" "\<And>tpl. \<exists>c'. start_action tpl (spc c) c = Some c' \<and> stop_load c' < stop_load c"
  | (read) c' where "eases dec c c'"
  | (submit) m ms where "rd c = Dispatching (m # ms)" "stop_load (dispatch_action (m # ms) c) < stop_load c"
  using assms unfolding moves_def by blast

lemma once_phase:
  assumes inv: "conn_inv c" and n: "n < length (stops c)" and "\<And>b w. stops c ! n \<noteq> StopRet b w" and idle: "opc c \<noteq> OnceDone"
  shows "moves dec c"
proof -
  have "stopper_inv c (stops c ! n)" using inv n by (simp add: conn_inv_def list_all_length)
  then obtain b where "stops c ! n = StopIn b" using assms(3,4) by (cases "stops c ! n") auto
  then have "stop_wanted c" using nth_mem [OF n] unfolding stop_wanted_def by metis
  moreover obtain c' where c': "once_action (opc c) c = Ret c'" using once_never_panics [OF inv] by (cases "once_action (opc c) c") auto
  ultimately have "conn_internal dec c c'" using idle by (intro conn_internal.once) auto
  then have "eases dec c c' \<and> rd c' = rd c" using once_moves [OF c' idle] by (simp add: eases_def)
  then show ?thesis unfolding moves_def by blast
qed

text \<open>From here on the cleanup is complete.\<close>

lemma eased:
  assumes "conn_inv c" and "opc c = OnceDone" and "conn_internal dec c c'" and "spc c' = spc c" and "dispatched c' = dispatched c" and "rcvd c' = rcvd c"
  shows "eases dec c c'"
  using closed_load [OF assms(3,1,2)] assms by (simp add: eases_def)

lemma start_phase:
  assumes "conn_inv c" and "opc c = OnceDone" and "Connection.started c" and "spc c \<noteq> StartReturned"
  shows "moves dec c"
proof -
  have pos: "4 \<le> spos (spc c)" using assms(1,3) by (simp add: conn_inv_def life_inv_def)
  have "\<exists>c'. start_action tpl (spc c) c = Some c' \<and> stop_load c' < stop_load c" for tpl
  proof -
    have "start_action tpl (spc c) c \<noteq> None" using assms(4) pos by (cases "spc c") simp_all
    then obtain c' where "start_action tpl (spc c) c = Some c'" by blast
    with closed_load [OF conn_internal.start assms(1,2)] show ?thesis by blast
  qed
  moreover have "spc c \<noteq> StartCas" using pos by auto
  ultimately show ?thesis unfolding moves_def by blast
qed

lemma reader_phase:
  assumes "conn_inv c" and "opc c = OnceDone" and "rd c \<noteq> NoReader" and "rd c \<noteq> ReaderExited"
  shows "moves dec c"
proof (cases "\<exists>m ms. rd c = Dispatching (m # ms)")
  case True
  then obtain m ms where r: "rd c = Dispatching (m # ms)" by blast
  with closed_load [OF conn_internal.handoff [OF r] assms(1,2)] show ?thesis unfolding moves_def by blast
next
  case False
  note ease = eased [OF assms(1,2)]
  have "\<exists>c'. eases dec c c'"
  proof (cases "rd c")
    case Reading
    show ?thesis by (rule exI, rule ease [OF conn_internal.read_error [OF Reading]]) simp_all
  next
    case (Dispatching ms)
    then have r: "rd c = Dispatching []" using False by (cases ms) auto
    show ?thesis by (rule exI, rule ease [OF conn_internal.handoff [OF r]]) simp_all
  next
    case ReaderClosing
    show ?thesis by (rule exI, rule ease [OF conn_internal.read_exit [OF ReaderClosing assms(2)]]) simp_all
  qed (use assms(3,4) in simp_all)
  with False show ?thesis unfolding moves_def by blast
qed

lemma writer_phase:
  assumes inv: "conn_inv c" "opc c = OnceDone" and "wr c \<noteq> NoWriter" and "wr c \<noteq> WriterExited"
  shows "moves dec c"
proof -
  note ease = eased [OF inv]
  have "\<exists>c'. eases dec c c' \<and> rd c' = rd c"
  proof (cases "wr c")
    case Selecting
    have "cdone c" using inv by (simp add: conn_inv_def once_inv_def)
    with ease [OF conn_internal.see_done [OF Selecting]] show ?thesis by fastforce
  next
    case (Writing d)
    with ease [OF conn_internal.put_error [OF Writing]] show ?thesis by (fastforce simp: write_failed_def)
  next
    case (CountOut n)
    with ease [OF conn_internal.tally [OF CountOut]] show ?thesis by (fastforce simp: count_written_def)
  next
    case WriterClosing
    with ease [OF conn_internal.write_exit [OF WriterClosing inv(2)]] show ?thesis by fastforce
  qed (use assms(3,4) in simp_all)
  then show ?thesis unfolding moves_def by blast
qed

lemma return_phase:
  assumes "conn_inv c" and "opc c = OnceDone" and "n < length (stops c)" and "stop_action n (stops c ! n) c = Some c'"
  shows "moves dec c"
  using eased [OF assms(1,2) conn_internal.stop [OF assms(3,4)]] stop_action_frame [OF assms(4)] unfolding moves_def by blast

lemma stop_moves:
  assumes inv: "conn_inv c" and n: "n < length (stops c)" and pend: "\<And>b w. stops c ! n \<noteq> StopRet b w"
  shows "moves dec c"
proof (cases "opc c = OnceDone")
  case False
  with assms show ?thesis by (rule once_phase)
next
  case True
  note phases = start_phase [OF inv True] reader_phase [OF inv True] writer_phase [OF inv True]
  note ret = return_phase [OF inv True n]
  show ?thesis
  proof (cases "stops c ! n")
    case (StopIn b)
    then show ?thesis using True ret by (simp split: if_splits)
  next
    case (StopWait b)
    have st: "Connection.started c" using inv n StopWait by (auto simp: conn_inv_def list_all_length dest!: spec [of _ n])
    have life: "rd c = NoReader \<or> wr c = NoWriter \<Longrightarrow> spc c \<noteq> StartReturned" "rd c = ReaderExited \<Longrightarrow> wr c = WriterExited \<Longrightarrow> cwg c = 0"
      using inv by (auto simp: conn_inv_def life_inv_def)
    then consider "spc c \<noteq> StartReturned" | "rd c \<noteq> NoReader" "rd c \<noteq> ReaderExited" | "wr c \<noteq> NoWriter" "wr c \<noteq> WriterExited" | "cwg c = 0"
      by (cases "rd c = NoReader"; cases "rd c = ReaderExited"; cases "wr c = NoWriter"; cases "wr c = WriterExited") simp_all
    then show ?thesis
    proof cases
      case 4
      then show ?thesis using ret StopWait by simp
    qed (use st phases in blast)+
  qed (use pend in blast)
qed

section \<open>Finishing\<close>

text \<open>The server while \<^verbatim>\<open>Shutdown\<close> is under way, with handlers that return.\<close>

definition finishing :: "('c \<Rightarrow> bytes \<Rightarrow> Message list \<times> go_error option \<times> 'c) \<Rightarrow> ('c \<Rightarrow> Message \<Rightarrow> go_error + bytes) \<Rightarrow> ('c \<Rightarrow> 'c) \<Rightarrow> (TLVPack \<Rightarrow> 'c) \<Rightarrow>
    ('c, 'v, 'e, 'f, 'h) Server \<Rightarrow> bool" where
  "finishing dec pack cln tlv s \<longleftrightarrow> server_reachable dec pack cln tlv s \<and> handlers_end (mh (pool s))"

lemma finishingD:
  assumes "finishing dec pack cln tlv s"
  shows "server_inv dec pack s" "finish_inv s" "handlers_end (mh (pool s))" "pool_ok (pool s)" "executable_queues (pool s)"
    "feeding (conns s) (set (admitted s)) (pool s)"
proof -
  show inv: "server_inv dec pack s" "finish_inv s" "handlers_end (mh (pool s))"
    using assms server_reachable_inv finish_reachable by (auto simp: finishing_def)
  then show f: "feeding (conns s) (set (admitted s)) (pool s)" by (simp add: server_inv_def flow_inv_def)
  have "set (admitted s) \<subseteq> dom (conns s)" using inv(1) by (simp add: server_inv_def hosts_inv_def)
  then show "executable_queues (pool s)" using feeding_executable [OF f] inv(3) by blast
  show "pool_ok (pool s)" using f by (rule feedingD(1))
qed

lemma system_routes:
  assumes "system_step dec s t" and "handlers_end (mh (pool s))"
  shows "handlers_end (mh (pool t))"
  using assms
proof (induction rule: system_step.induct)
  case (shutdown s s')
  then show ?case by (cases "shut s") (auto simp: set_handler_def handlers_end_frame split: if_splits)
next
  case (drain js s s')
  from drain.hyps drain.prems show ?case by (cases rule: drainE) simp_all
next
  case (handoff i s c m ms)
  then show ?case by (simp add: check_send_def split: dispatch.split)
next
  case (serve s p)
  then show ?case by (simp add: serve_routes)
qed simp_all

lemma finishing_step:
  assumes "finishing dec pack cln tlv s" and "system_step dec s t"
  shows "finishing dec pack cln tlv t"
  using assms system_routes [OF assms(2)] server_reachable.step [OF _ system_server [OF assms(2)]] by (auto simp: finishing_def)

text \<open>One step towards the return of the \<^verbatim>\<open>Stop\<close> that the draining goroutine waits for.\<close>

definition nearer :: "u64 \<Rightarrow> ('c, 'v, 'e, 'f, 'h) Server \<Rightarrow> ('c, 'v, 'e, 'f, 'h) Server \<Rightarrow> bool" where
  "nearer i s t \<longleftrightarrow> drain t = drain s \<and> shut t = shut s \<and>
     (\<exists>c c'. conns s i = Some c \<and> conns t i = Some c' \<and> (stop_load c' < stop_load c \<or> c' = c \<and> pool_load (pool t) < pool_load (pool s)))"

lemma nearer_host: "conns s i = Some c \<Longrightarrow> stop_load c' < stop_load c \<Longrightarrow> nearer i s ((host i c c' s)\<lparr>pool := p\<rparr>)"
  by (simp add: nearer_def)

lemma nearer_serve: "conns s i = Some c \<Longrightarrow> pool_load p < pool_load (pool s) \<Longrightarrow> nearer i s (s\<lparr>pool := p\<rparr>)"
  by (simp add: nearer_def)

lemma wait_progress:
  assumes fin: "finishing dec pack cln tlv s" and d: "drain s = DrainWait i n js" and c: "conns s i = Some c"
    and ctx: "workerCtx (mh (pool s)) \<noteq> Some True" and pend: "\<And>b w. stops c ! n \<noteq> StopRet b w"
  shows "\<exists>t. system_step dec s t \<and> nearer i s t"
proof -
  note inv = finishingD [OF fin]
  have adm: "i \<in> set (admitted s)" and n: "n < length (stops c)" using inv(1) d c by (auto simp: server_inv_def drain_inv_def)
  have "conn_inv c" using hosts_conn [of dec pack s i c] inv(1) c by (simp add: server_inv_def)
  from stop_moves [OF this n pend] have m: "moves dec c" .
  have near: "nearer i s (host i c c' s)" if "stop_load c' < stop_load c" for c' using nearer_host [OF c that, of "pool s"] by simp
  have ease: ?thesis if "eases dec c c'" "rd c' = rd c \<or> \<not> submitting i s" for c'
    using that system_step.conn [OF adm c, of dec c'] near by (auto simp: eases_def)
  show ?thesis
  proof (cases "submitting i s")
    case True
    then obtain p where "pool_serve (pool s) p" "pool_load p < pool_load (pool s)"
      using busy_progress [OF inv(4,5) ctx] by (auto simp: submitting_def)
    then show ?thesis using system_step.serve nearer_serve [OF c] by blast
  next
    case False
    from m show ?thesis
    proof (cases rule: movesE)
      case start
      then obtain c' where c': "start_action (GetHeartBeat s) (spc c) c = Some c'" "stop_load c' < stop_load c" by blast
      have "i \<in> set (launched s)" using inv(2) c start(1) by (simp add: finish_inv_def)
      then show ?thesis using system_step.start [OF _ c c'(1)] near [OF c'(2)] by blast
    next
      case (submit m ms)
      show ?thesis using system_step.handoff [OF adm c submit(1) False] nearer_host [OF c submit(2)] by blast
    qed (use False ease in blast)+
  qed
qed

text \<open>Some state that the program can reach from here by itself.\<close>

definition can_reach :: "('c \<Rightarrow> bytes \<Rightarrow> Message list \<times> go_error option \<times> 'c) \<Rightarrow> (('c, 'v, 'e, 'f, 'h) Server \<Rightarrow> bool) \<Rightarrow> ('c, 'v, 'e, 'f, 'h) Server \<Rightarrow> bool" where
  "can_reach dec P s \<longleftrightarrow> (\<exists>t. (system_step dec)\<^sup>*\<^sup>* s t \<and> P t)"

lemma can_now: "P s \<Longrightarrow> can_reach dec P s"
  by (auto simp: can_reach_def)

lemma can_step: "system_step dec s t \<Longrightarrow> can_reach dec P t \<Longrightarrow> can_reach dec P s"
  by (auto simp: can_reach_def intro: converse_rtranclp_into_rtranclp)

lemma can_then:
  assumes "finishing dec pack cln tlv s" and "can_reach dec P s" and "\<And>t. finishing dec pack cln tlv t \<Longrightarrow> P t \<Longrightarrow> can_reach dec Q t"
  shows "can_reach dec Q s"
proof -
  obtain t where t: "(system_step dec)\<^sup>*\<^sup>* s t" "P t" using assms(2) by (auto simp: can_reach_def)
  from t(1) assms(1) have "finishing dec pack cln tlv t" by (induction rule: rtranclp_induct) (auto intro: finishing_step)
  then obtain u where "(system_step dec)\<^sup>*\<^sup>* t u" "Q u" using assms(3) t(2) by (auto simp: can_reach_def)
  with t(1) show ?thesis unfolding can_reach_def by (meson rtranclp_trans)
qed

lemma can_wait:
  assumes "finishing dec pack cln tlv s" and "drain s = DrainWait i n js" and "shut s = ShutWait"
  shows "can_reach dec (\<lambda>t. drain t = DrainStop js \<and> shut t = ShutWait) s"
  using assms
proof (induction "(stop_load (the (conns s i)), pool_load (pool s))" arbitrary: s rule: wf_induct_rule [OF wf_lex_prod [OF wf_less_than wf_less_than]])
  case 1
  obtain c where c: "conns s i = Some c" using finishingD(1) [OF "1.prems"(1)] "1.prems"(2) by (auto simp: server_inv_def drain_inv_def)
  show ?case
  proof (cases "\<exists>b w. stops c ! n = StopRet b w")
    case True
    then obtain b w where "stops c ! n = StopRet b w" by blast
    with c "1.prems"(2) have "drain_action [] (drain s) s = Some (s\<lparr>drain := DrainStop js\<rparr>)" by simp
    from can_step [OF system_step.drain [OF this] can_now] "1.prems"(3) show ?thesis by simp
  next
    case False
    have "workerCtx (mh (pool s)) \<noteq> Some True" using finishingD(2) [OF "1.prems"(1)] "1.prems"(3) by (auto simp: finish_inv_def)
    with False obtain t where t: "system_step dec s t" "nearer i s t" using wait_progress [OF "1.prems"(1,2) c] by blast
    have "can_reach dec (\<lambda>t. drain t = DrainStop js \<and> shut t = ShutWait) t"
      using t(2) c "1.prems" finishing_step [OF "1.prems"(1) t(1)] by (intro "1.hyps") (auto simp: nearer_def)
    with t(1) show ?thesis by (rule can_step)
  qed
qed

lemma can_stop:
  assumes "finishing dec pack cln tlv s" and "drain s = DrainStop js" and "shut s = ShutWait"
  shows "can_reach dec (\<lambda>t. drain t = Drained \<and> shut t = ShutWait) s"
  using assms
proof (induction js arbitrary: s)
  case Nil
  then have "drain_action [] (drain s) s = Some (s\<lparr>drain := Drained\<rparr>)" by simp
  from can_step [OF system_step.drain [OF this] can_now] Nil.prems(3) show ?case by simp
next
  case (Cons i js)
  have "i \<in> set (admitted s)" "set (admitted s) \<subseteq> dom (conns s)"
    using finishingD(1) [OF Cons.prems(1)] Cons.prems(2) by (auto simp: server_inv_def drain_inv_def hosts_inv_def)
  then obtain c where c: "conns s i = Some c" by blast
  let ?t = "s\<lparr>conns := (conns s)(i \<mapsto> stop_call c), drain := DrainWait i (length (stops c)) js\<rparr>"
  have st: "system_step dec s ?t" using c Cons.prems(2) by (intro system_step.drain [of "[]"]) simp
  have fin: "finishing dec pack cln tlv ?t" using Cons.prems(1) st by (rule finishing_step)
  then have "can_reach dec (\<lambda>t. drain t = DrainStop js \<and> shut t = ShutWait) ?t" by (rule can_wait) (simp_all add: Cons.prems(3))
  with fin have "can_reach dec (\<lambda>t. drain t = Drained \<and> shut t = ShutWait) ?t" by (rule can_then) (simp add: Cons.IH)
  with st show ?case by (rule can_step)
qed

lemma can_drain:
  assumes "finishing dec pack cln tlv s" and "shut s = ShutWait"
  shows "can_reach dec (\<lambda>t. drain t = Drained \<and> shut t = ShutWait) s"
proof (cases "drain s")
  case NoDrain
  with assms finishingD(1) [OF assms(1)] show ?thesis by (simp add: server_inv_def phase_inv_def)
next
  case DrainClear
  let ?js = "map snd (connections (connMgr s))"
  let ?t = "s\<lparr>connMgr := (connMgr s)\<lparr>connections := []\<rparr>, drain := DrainStop ?js\<rparr>"
  have st: "system_step dec s ?t" using DrainClear by (intro system_step.drain [of ?js]) simp
  have "can_reach dec (\<lambda>t. drain t = Drained \<and> shut t = ShutWait) ?t"
    using finishing_step [OF assms(1) st] assms(2) by (intro can_stop) auto
  with st show ?thesis by (rule can_step)
next
  case (DrainStop js)
  with assms show ?thesis by (intro can_stop)
next
  case (DrainWait i n js)
  have "can_reach dec (\<lambda>t. drain t = DrainStop js \<and> shut t = ShutWait) s" using assms(1) DrainWait assms(2) by (rule can_wait)
  with assms(1) show ?thesis by (rule can_then) (simp add: can_stop)
next
  case Drained
  with assms(2) show ?thesis by (intro can_now) simp
qed

section \<open>The workers\<close>

lemma can_join:
  assumes "finishing dec pack cln tlv s" and "shut s = ShutJoin"
  shows "can_reach dec (\<lambda>t. shut t = ShutRet True) s"
  using assms
proof (induction "work_left (pool s)" arbitrary: s rule: less_induct)
  case less
  note inv = finishingD [OF less.prems(1)]
  have shape: "shape_inv (pool s)" and ctx: "workerCtx (mh (pool s)) = Some True"
    using inv(2,4) less.prems(2) by (auto simp: pool_ok_def pool_inv_def finish_inv_def)
  show ?case
  proof (cases "workerWG (mh (pool s)) = 0")
    case True
    then have "shutdown_action False (shut s) s = Some (s\<lparr>shut := ShutRet True\<rparr>)" using less.prems(2) by (simp add: stop_returns_def)
    from can_step [OF system_step.shutdown [OF this] can_now] show ?thesis by simp
  next
    case False
    then obtain j where "j < length (workers (pool s))" "workers (pool s) ! j \<noteq> Exited"
      using shape by (fastforce simp: shape_inv_def filter_empty_conv in_set_conv_nth)
    then obtain p where p: "worker_step j (pool s) p" using worker_enabled [OF shape ctx inv(5)] by blast
    have st: "system_step dec s (s\<lparr>pool := p\<rparr>)" using p by (intro system_step.serve pool_serve.worker)
    have "can_reach dec (\<lambda>t. shut t = ShutRet True) (s\<lparr>pool := p\<rparr>)"
      using worker_step_decreases [OF p shape] finishing_step [OF less.prems(1) st] less.prems(2) by (intro less.hyps) simp_all
    with st show ?thesis by (rule can_step)
  qed
qed

lemma can_pool:
  assumes "finishing dec pack cln tlv s" and "shut s = ShutPool"
  shows "can_reach dec (\<lambda>t. shut t = ShutRet True) s"
proof -
  let ?t = "(set_handler (StopWorkerPool (mh (pool s))) s)\<lparr>shut := if workerCancel (mh (pool s)) then ShutJoin else ShutRet True\<rparr>"
  have st: "system_step dec s ?t" using assms(2) by (intro system_step.shutdown) simp
  have "can_reach dec (\<lambda>t. shut t = ShutRet True) ?t"
    using finishing_step [OF assms(1) st] by (cases "workerCancel (mh (pool s))") (auto intro: can_now can_join)
  with st show ?thesis by (rule can_step)
qed

lemma can_finish_waiting:
  assumes "finishing dec pack cln tlv s" and "shut s = ShutWait"
  shows "can_reach dec (\<lambda>t. shut t = ShutRet True) s"
proof (rule can_then [OF assms(1) can_drain [OF assms]])
  fix t :: "('a, 'b, 'c, 'd, 'e) Server"
  assume t: "finishing dec pack cln tlv t" "drain t = Drained \<and> shut t = ShutWait"
  then have st: "system_step dec t (t\<lparr>shut := ShutPool\<rparr>)" by (intro system_step.shutdown) simp
  have "can_reach dec (\<lambda>t. shut t = ShutRet True) (t\<lparr>shut := ShutPool\<rparr>)"
    using finishing_step [OF t(1) st] by (intro can_pool) simp_all
  with st show "can_reach dec (\<lambda>t. shut t = ShutRet True) t" by (rule can_step)
qed

lemma can_finish_metrics:
  assumes "finishing dec pack cln tlv s" and "shut s = ShutMetrics m"
  shows "can_reach dec (\<lambda>t. shut t = ShutRet True) s"
proof -
  obtain t where t: "shutdown_action False (shut s) s = Some t" "shut t = ShutWait" using assms(2) by simp
  have st: "system_step dec s t" using t(1) by (rule system_step.shutdown)
  show ?thesis using can_step [OF st can_finish_waiting [OF finishing_step [OF assms(1) st] t(2)]] .
qed

lemma can_finish:
  assumes fin: "finishing dec pack cln tlv s" and "shut s \<noteq> NoShutdown" and "shut s \<noteq> ShutRet False"
  shows "can_reach dec (\<lambda>t. shut t = ShutRet True) s"
proof (cases "shut s")
  case (ShutClose l m)
  then obtain t where t: "shutdown_action False (shut s) s = Some t" "shut t = ShutMetrics m" by simp
  have st: "system_step dec s t" using t(1) by (rule system_step.shutdown)
  show ?thesis using can_step [OF st can_finish_metrics [OF finishing_step [OF fin st] t(2)]] .
next
  case (ShutRet ok)
  with assms(3) show ?thesis by (cases ok) (auto intro: can_now)
qed (use assms in \<open>auto intro: can_pool can_join can_finish_waiting can_finish_metrics\<close>)

section \<open>Properties\<close>

text \<open>
  C5: a shutdown can always finish. In every state that the server can be in once \<^verbatim>\<open>Shutdown\<close> was called, and in which its
  context has not made it give up, the goroutines of the program can go on by themselves, with no further call, no data from
  a peer and no deadline, until \<^verbatim>\<open>Shutdown\<close> has returned without an error, with every connection of the snapshot stopped, provided
  the registered handlers return. So no connection that waits for the pool, no call of \<^verbatim>\<open>Stop\<close> that waits for a reader, and no
  worker can block it for good.
\<close>

theorem shutdown_can_finish:
  assumes "server_reachable dec pack cln tlv s" and "handlers_end (mh (pool s))" and "shut s \<noteq> NoShutdown" and "shut s \<noteq> ShutRet False"
  shows "\<exists>t. (system_step dec)\<^sup>*\<^sup>* s t \<and> server_reachable dec pack cln tlv t \<and> shut t = ShutRet True \<and> drain t = Drained"
proof -
  have "finishing dec pack cln tlv s" using assms(1,2) by (simp add: finishing_def)
  from can_finish [OF this assms(3,4)] obtain t where t: "(system_step dec)\<^sup>*\<^sup>* s t" "shut t = ShutRet True" by (auto simp: can_reach_def)
  with systems_reachable [OF t(1) assms(1)] reachable_stop_inv show ?thesis by (fastforce simp: stop_inv_def)
qed

text \<open>A shutdown that begins while a reader is between its check and its send.\<close>

abbreviation shut_busy :: "move list" where
  "shut_busy \<equiv> boot @ take_conn @ start_conn @ [ConnMove 1 (ReadData [0, 0, 0, 0, 7, 0, 0, 0]), HandMove 1, CallShutdown]"

lemma shut_busy_run:
  "\<exists>s. run_moves shut_busy demo_server = Some s \<and> pending (pool s) = [(0, seven)] \<and> globalHandlers (mh (pool s)) = [] \<and>
     apis (mh (pool s)) = Map.empty \<and> groupRanges (mh (pool s)) = [] \<and> shut s = ShutClose True None"
  by (simp add: move_defs)

theorem shutdown_can_finish_witness:
  "\<exists>s t. run_moves shut_busy demo_server = Some s \<and> pending (pool s) = [(0, seven)] \<and> (system_step Decode)\<^sup>*\<^sup>* s t \<and> shut t = ShutRet True \<and> drain t = Drained"
proof -
  obtain s where s: "run_moves shut_busy demo_server = Some s" "pending (pool s) = [(0, seven)]" "globalHandlers (mh (pool s)) = []"
      "apis (mh (pool s)) = Map.empty" "groupRanges (mh (pool s)) = []" "shut s = ShutClose True None"
    using shut_busy_run by blast
  then have "handlers_end (mh (pool s))" by (simp add: handlers_end_def chain_of_def)
  from shutdown_can_finish [OF demo_server_reachable [OF s(1)] this] s show ?thesis by auto
qed

end
