(* ===== verification/Kinz_Ticker.thy ===== *)
theory Kinz_Ticker
  imports Kinz_Heartbeat
begin

text \<open>
  A checker by itself, as a caller of the library uses it (\<^verbatim>\<open>src/knet/heartbeat.go\<close>): calls of \<^verbatim>\<open>Start\<close> and \<^verbatim>\<open>Stop\<close> interleaved
  with the loops that the starts have launched. The checker of a connection is part of \<^verbatim>\<open>Kinz_Connection\<close>.
\<close>

section \<open>Starts, stops and loops\<close>

inductive tick_step :: "('v, 'e, 'f) HeartBeatChecker \<Rightarrow> ('v, 'e, 'f) HeartBeatChecker \<Rightarrow> bool" where
  start: "tick_step h (hb_Start h)"
| stop: "hb_Stop h = Ret h' \<Longrightarrow> tick_step h h'"
| loop: "j < length (loops h) \<Longrightarrow> loop_step tick alive j h = Some (e, h') \<Longrightarrow> tick_step h h'"

lemma ticking_inv: "tick_step\<^sup>*\<^sup>* h h' \<Longrightarrow> hb_inv h \<Longrightarrow> hb_inv h'"
proof (induction rule: rtranclp_induct)
  case (step g g')
  from step.hyps(2) step.IH [OF step.prems] show ?case
  proof (induction rule: tick_step.induct)
    case (stop g g')
    then show ?case using hb_Stop_inv [of g] by auto
  qed (auto intro: hb_Start_inv loop_step_inv)
qed

text \<open>
  A checker that is stopped can come to rest: none of its loops waits for anything but a closed channel, however often it was
  started before.
\<close>

lemma stopped_rest:
  assumes "tick_step\<^sup>*\<^sup>* (NewHeartbeatChecker ival) h" and "\<not> hstarted h" and "j < length (loops h)" and "loops h ! j \<noteq> LoopDone"
  shows "\<exists>e h'. loop_step False alive j h = Some (e, h') \<and> loop_rank (loops h' ! j) < loop_rank (loops h ! j)"
  using ticking_inv [OF assms(1) hb_inv_New] assms(2-4) by (rule stopped_loop)

text \<open>
  A checker that is started again can be left with two running loops: the first takes a tick instead of the closed channel, and
  then reads the new channel from the field.
\<close>

lemma restart_doubles_loop:
  "\<exists>h. tick_step\<^sup>*\<^sup>* (NewHeartbeatChecker ival) h \<and> hstarted h \<and> loops h = [LoopSelect (Some 1), LoopSelect (Some 1)] \<and> quits h = [True, False]"
proof -
  let ?h = "\<lambda>s k q l. (NewHeartbeatChecker ival)\<lparr>hstarted := s, quit := Some k, quits := q, loops := l\<rparr>"
  have up: "tick_step\<^sup>*\<^sup>* (NewHeartbeatChecker ival) h \<Longrightarrow> tick_step h h' \<Longrightarrow> tick_step\<^sup>*\<^sup>* (NewHeartbeatChecker ival) h'" for h h'
    by (rule rtranclp.rtrancl_into_rtrancl)
  have loop: "0 < length (loops h) \<Longrightarrow> loop_step tick (\<lambda>_ _. True) 0 h = Some (e, h') \<Longrightarrow> tick_step h h'" for h h' tick e
    by (rule tick_step.loop)
  note defs = NewHeartbeatChecker_def Let_def hb_Start_def hb_Stop_def loop_step_def hb_check_def
  have s1: "tick_step\<^sup>*\<^sup>* (NewHeartbeatChecker ival) (?h True 0 [False] [LoopTop])"
    using up [OF rtranclp.rtrancl_refl tick_step.start] by (simp add: defs)
  have s2: "tick_step\<^sup>*\<^sup>* (NewHeartbeatChecker ival) (?h True 0 [False] [LoopSelect (Some 0)])"
    by (rule up [OF s1 loop]) (simp_all add: defs)
  have s3: "tick_step\<^sup>*\<^sup>* (NewHeartbeatChecker ival) (?h True 0 [False] [LoopCheck])"
    by (rule up [OF s2 loop [of _ True]]) (simp_all add: defs)
  have s4: "tick_step\<^sup>*\<^sup>* (NewHeartbeatChecker ival) (?h False 0 [True] [LoopCheck])"
    by (rule up [OF s3 tick_step.stop]) (simp add: defs)
  have s5: "tick_step\<^sup>*\<^sup>* (NewHeartbeatChecker ival) (?h True 1 [True, False] [LoopCheck, LoopTop])"
    using up [OF s4 tick_step.start] by (simp add: defs)
  have s6: "tick_step\<^sup>*\<^sup>* (NewHeartbeatChecker ival) (?h True 1 [True, False] [LoopTop, LoopTop])"
    by (rule up [OF s5 loop]) (simp_all add: defs)
  have s7: "tick_step\<^sup>*\<^sup>* (NewHeartbeatChecker ival) (?h True 1 [True, False] [LoopSelect (Some 1), LoopTop])"
    by (rule up [OF s6 loop]) (simp_all add: defs)
  have "tick_step\<^sup>*\<^sup>* (NewHeartbeatChecker ival) (?h True 1 [True, False] [LoopSelect (Some 1), LoopSelect (Some 1)])"
    by (rule up [OF s7 tick_step.loop [of 1]]) (simp_all add: defs)
  then show ?thesis by (intro exI [of _ "?h True 1 [True, False] [LoopSelect (Some 1), LoopSelect (Some 1)]"]) simp
qed

end
