(* ===== verification/Kinz_Metrics.thy ===== *)
theory Kinz_Metrics
  imports Kinz_Float
begin

text \<open>
  The metrics registry of \<^verbatim>\<open>src/kmetrics/registry.go\<close> and the handle sets of \<^verbatim>\<open>src/knet/metrics.go\<close>. The Prometheus
  library underneath is a parameter: \<open>reg\<close> is \<^verbatim>\<open>MustRegister\<close>, \<open>hist_ok\<close> says which bucket lists \<^verbatim>\<open>NewHistogram\<close>
  takes without a panic, and \<open>gather\<close> is \<^verbatim>\<open>Gather\<close>. Handles are addresses of an explicit heap, so that two handles are
  the same exactly when the code's pointers are.
\<close>

section \<open>The registry\<close>

datatype collector = CounterC bytes bytes | GaugeC bytes bytes | HistogramC bytes bytes "rat list"

fun cname :: "collector \<Rightarrow> bytes" where
  "cname (CounterC n h) = n"
| "cname (GaugeC n h) = n"
| "cname (HistogramC n h b) = n"

record 'p Registry =
  promReg :: 'p
  counters :: "bytes \<rightharpoonup> nat"
  gauges :: "bytes \<rightharpoonup> nat"
  histograms :: "bytes \<rightharpoonup> nat"
  heap :: "collector list"

definition NewRegistry :: "'p \<Rightarrow> 'p Registry" where
  "NewRegistry p = \<lparr>promReg = p, counters = Map.empty, gauges = Map.empty, histograms = Map.empty, heap = []\<rparr>"

type_synonym 'p register = "nat \<Rightarrow> collector \<Rightarrow> 'p \<Rightarrow> 'p option"

text \<open>A new collector and its registration; a refused one panics with the maps untouched.\<close>

definition create :: "'p register \<Rightarrow> collector \<Rightarrow> 'p Registry \<Rightarrow> (nat \<times> 'p Registry) outcome" where
  "create reg c r =
     (let a = length (heap r) in
      case reg a c (promReg r) of
        None \<Rightarrow> Panic
      | Some p \<Rightarrow> Ret (a, r\<lparr>promReg := p, heap := heap r @ [c]\<rparr>))"

text \<open>
  The three methods look their name up under the read lock, release it, and look again under the write lock before they
  create anything. \<open>r0\<close> is the registry at the first lookup and \<open>r\<close> the registry when the write lock is held; other
  callers may have run in between.
\<close>

definition Counter :: "'p register \<Rightarrow> bytes \<Rightarrow> bytes \<Rightarrow> 'p Registry \<Rightarrow> 'p Registry \<Rightarrow> (nat \<times> 'p Registry) outcome" where
  "Counter reg name help r0 r =
     (case counters r0 name of
        Some c \<Rightarrow> Ret (c, r)
      | None \<Rightarrow>
          (case counters r name of
             Some c \<Rightarrow> Ret (c, r)
           | None \<Rightarrow>
               (case create reg (CounterC name help) r of
                  Panic \<Rightarrow> Panic
                | Ret (c, r') \<Rightarrow> Ret (c, r'\<lparr>counters := (counters r')(name \<mapsto> c)\<rparr>))))"

definition Gauge :: "'p register \<Rightarrow> bytes \<Rightarrow> bytes \<Rightarrow> 'p Registry \<Rightarrow> 'p Registry \<Rightarrow> (nat \<times> 'p Registry) outcome" where
  "Gauge reg name help r0 r =
     (case gauges r0 name of
        Some g \<Rightarrow> Ret (g, r)
      | None \<Rightarrow>
          (case gauges r name of
             Some g \<Rightarrow> Ret (g, r)
           | None \<Rightarrow>
               (case create reg (GaugeC name help) r of
                  Panic \<Rightarrow> Panic
                | Ret (g, r') \<Rightarrow> Ret (g, r'\<lparr>gauges := (gauges r')(name \<mapsto> g)\<rparr>))))"

text \<open>\<^verbatim>\<open>prometheus.DefBuckets\<close> is \<open>defs\<close>.\<close>

definition Histogram ::
  "'p register \<Rightarrow> (rat list \<Rightarrow> bool) \<Rightarrow> rat list \<Rightarrow> bytes \<Rightarrow> bytes \<Rightarrow> rat list \<Rightarrow> 'p Registry \<Rightarrow> 'p Registry \<Rightarrow> (nat \<times> 'p Registry) outcome" where
  "Histogram reg hist_ok defs name help buckets r0 r =
     (case histograms r0 name of
        Some h \<Rightarrow> Ret (h, r)
      | None \<Rightarrow>
          (let bs = (if buckets = [] then defs else buckets) in
           case histograms r name of
             Some h \<Rightarrow> Ret (h, r)
           | None \<Rightarrow>
               if \<not> hist_ok bs then Panic
               else (case create reg (HistogramC name help bs) r of
                       Panic \<Rightarrow> Panic
                     | Ret (h, r') \<Rightarrow> Ret (h, r'\<lparr>histograms := (histograms r')(name \<mapsto> h)\<rparr>))))"

section \<open>Snapshots\<close>

text \<open>
  What \<^verbatim>\<open>Gather\<close> returns: families with their type and metrics. Converting a \<^verbatim>\<open>float64\<close> to an integer drops the fraction;
  a value the integer type cannot hold gives what the platform gives, \<open>wild\<close>.
\<close>

record dto_histogram =
  SampleCount :: u64
  SampleSum :: rat
  Bucket :: "(rat \<times> u64) list"

datatype dto_metric = CounterValue rat | GaugeValue rat | HistogramValue dto_histogram | OtherValue

datatype metric_type = COUNTER | GAUGE | HISTOGRAM | OTHER

record family =
  family_name :: bytes
  family_type :: metric_type
  family_metrics :: "dto_metric list"

definition trunc :: "rat \<Rightarrow> int" where
  "trunc x = (if 0 \<le> x then \<lfloor>x\<rfloor> else \<lceil>x\<rceil>)"

definition float_to_uint64 :: "(rat \<Rightarrow> u64) \<Rightarrow> rat \<Rightarrow> u64" where
  "float_to_uint64 wild x = (if 0 \<le> trunc x \<and> trunc x < 2 ^ 64 then of_int (trunc x) else wild x)"

definition float_to_int64 :: "(rat \<Rightarrow> int) \<Rightarrow> rat \<Rightarrow> int" where
  "float_to_int64 wild x = (if in_int64 (trunc x) then trunc x else wild x)"

text \<open>The getters of the generated message types give zero values for a metric of another type.\<close>

fun counter_value :: "dto_metric \<Rightarrow> rat" where
  "counter_value (CounterValue v) = v"
| "counter_value m = 0"

fun gauge_value :: "dto_metric \<Rightarrow> rat" where
  "gauge_value (GaugeValue v) = v"
| "gauge_value m = 0"

fun histogram_value :: "dto_metric \<Rightarrow> dto_histogram" where
  "histogram_value (HistogramValue h) = h"
| "histogram_value m = \<lparr>SampleCount = 0, SampleSum = 0, Bucket = []\<rparr>"

record HistogramSnapshot =
  Buckets :: "rat list"
  Counts :: "u64 list"
  Count :: u64
  Sum :: rat

record Snapshot =
  Counters :: "bytes \<rightharpoonup> u64"
  Gauges :: "bytes \<rightharpoonup> int"
  Histograms :: "bytes \<rightharpoonup> HistogramSnapshot"

definition histogramSnapshot :: "dto_histogram \<Rightarrow> HistogramSnapshot" where
  "histogramSnapshot h =
     fold (\<lambda>(ub, n) hs. hs\<lparr>Buckets := Buckets hs @ [ub], Counts := Counts hs @ [n]\<rparr>) (Bucket h)
       \<lparr>Buckets = [], Counts = [], Count = SampleCount h, Sum = SampleSum h\<rparr>"

definition snap_family :: "(rat \<Rightarrow> u64) \<Rightarrow> (rat \<Rightarrow> int) \<Rightarrow> family \<Rightarrow> Snapshot \<Rightarrow> Snapshot" where
  "snap_family wildu wildi f s =
     (case family_metrics f of
        [] \<Rightarrow> s
      | m # _ \<Rightarrow>
          (case family_type f of
             COUNTER \<Rightarrow> s\<lparr>Counters := (Counters s)(family_name f \<mapsto> float_to_uint64 wildu (counter_value m))\<rparr>
           | GAUGE \<Rightarrow> s\<lparr>Gauges := (Gauges s)(family_name f \<mapsto> float_to_int64 wildi (gauge_value m))\<rparr>
           | HISTOGRAM \<Rightarrow> s\<lparr>Histograms := (Histograms s)(family_name f \<mapsto> histogramSnapshot (histogram_value m))\<rparr>
           | OTHER \<Rightarrow> s))"

definition empty_snapshot :: Snapshot where
  "empty_snapshot = \<lparr>Counters = Map.empty, Gauges = Map.empty, Histograms = Map.empty\<rparr>"

definition take_snapshot :: "(rat \<Rightarrow> u64) \<Rightarrow> (rat \<Rightarrow> int) \<Rightarrow> ('p \<Rightarrow> family list option) \<Rightarrow> 'p Registry \<Rightarrow> Snapshot" where
  "take_snapshot wildu wildi gather r =
     (case gather (promReg r) of
        None \<Rightarrow> empty_snapshot
      | Some families \<Rightarrow> fold (snap_family wildu wildi) families empty_snapshot)"

section \<open>The framework's handles\<close>

fun obind :: "'a outcome \<Rightarrow> ('a \<Rightarrow> 'b outcome) \<Rightarrow> 'b outcome" where
  "obind Panic f = Panic"
| "obind (Ret x) f = f x"

text \<open>Calls with nothing in between: the second lookup sees what the first saw.\<close>

abbreviation counter_now where
  "counter_now reg name help r \<equiv> Counter reg name help r r"

abbreviation gauge_now where
  "gauge_now reg name help r \<equiv> Gauge reg name help r r"

text \<open>The handles of one connection: active, closed, bytes in, bytes out, messages received, messages sent.\<close>

record connHandles =
  h_active :: nat
  h_closed :: nat
  h_bytesIn :: nat
  h_bytesOut :: nat
  h_msgsRecv :: nat
  h_msgsSent :: nat

definition conn_handles :: "'p register \<Rightarrow> 'p Registry \<Rightarrow> (connHandles \<times> 'p Registry) outcome" where
  "conn_handles reg r =
     obind (gauge_now reg (str ''kinz_conns_active'') (str ''Currently active connections'') r) (\<lambda>(a, r).
     obind (counter_now reg (str ''kinz_conns_closed_total'') (str ''Connections closed'') r) (\<lambda>(c, r).
     obind (counter_now reg (str ''kinz_bytes_in_total'') (str ''Bytes received from peers'') r) (\<lambda>(bi, r).
     obind (counter_now reg (str ''kinz_bytes_out_total'') (str ''Bytes sent to peers'') r) (\<lambda>(bo, r).
     obind (counter_now reg (str ''kinz_msgs_received_total'') (str ''Messages received'') r) (\<lambda>(mr, r).
     obind (counter_now reg (str ''kinz_msgs_sent_total'') (str ''Messages sent'') r) (\<lambda>(ms, r).
     Ret (\<lparr>h_active = a, h_closed = c, h_bytesIn = bi, h_bytesOut = bo, h_msgsRecv = mr, h_msgsSent = ms\<rparr>, r)))))))"

definition handler_handles ::
  "'p register \<Rightarrow> (rat list \<Rightarrow> bool) \<Rightarrow> rat list \<Rightarrow> 'p Registry \<Rightarrow> ((nat \<times> nat \<times> nat) \<times> 'p Registry) outcome" where
  "handler_handles reg hist_ok defs r =
     obind (counter_now reg (str ''kinz_handler_panics_total'') (str ''Panics recovered in handlers'') r) (\<lambda>(p, r).
     obind (Histogram reg hist_ok defs (str ''kinz_msg_handle_duration_seconds'') (str ''Message handler duration in seconds'') [] r r) (\<lambda>(d, r).
     obind (counter_now reg (str ''kinz_queue_full_total'') (str ''Worker queue full (backpressure) events'') r) (\<lambda>(q, r).
     Ret ((p, d, q), r))))"

definition heartbeat_handles :: "'p register \<Rightarrow> 'p Registry \<Rightarrow> (nat \<times> 'p Registry) outcome" where
  "heartbeat_handles reg r = counter_now reg (str ''kinz_heartbeat_missed_total'') (str ''Heartbeat liveness timeouts'') r"

text \<open>A nil registry gives nil metrics.\<close>

definition nil_or :: "('r \<Rightarrow> 'h outcome) \<Rightarrow> 'r option \<Rightarrow> 'h option outcome" where
  "nil_or f r = (case r of None \<Rightarrow> Ret None | Some r \<Rightarrow> obind (f r) (\<lambda>h. Ret (Some h)))"

definition newConnMetrics where
  "newConnMetrics reg = nil_or (conn_handles reg)"

definition newHandlerMetrics where
  "newHandlerMetrics reg hist_ok defs = nil_or (handler_handles reg hist_ok defs)"

definition newHeartbeatMetrics where
  "newHeartbeatMetrics reg = nil_or (heartbeat_handles reg)"

text \<open>The handles of the server itself, made in \<^verbatim>\<open>NewServer\<close>: total, active, closed, rejected.\<close>

definition server_metrics :: "'p register \<Rightarrow> 'p Registry \<Rightarrow> ((nat \<times> nat \<times> nat \<times> nat) \<times> 'p Registry) outcome" where
  "server_metrics reg r =
     obind (counter_now reg (str ''kinz_conns_total'') (str ''Total connections accepted'') r) (\<lambda>(t, r).
     obind (gauge_now reg (str ''kinz_conns_active'') (str ''Currently active connections'') r) (\<lambda>(a, r).
     obind (counter_now reg (str ''kinz_conns_closed_total'') (str ''Connections closed'') r) (\<lambda>(c, r).
     obind (counter_now reg (str ''kinz_conns_rejected_total'') (str ''Connections rejected (max reached)'') r) (\<lambda>(j, r).
     Ret ((t, a, c, j), r)))))"


section \<open>Get or create\<close>

text \<open>
  What callers of the three methods rely on. \<open>look\<close> is the table of one kind of metric, \<open>get\<close> its method with the two
  lookups, and \<open>later\<close> says that a registry is a later state of another.
\<close>

locale get_or_create =
  fixes look :: "'r \<Rightarrow> bytes \<Rightarrow> nat option"
    and get :: "'a \<Rightarrow> bytes \<Rightarrow> 'r \<Rightarrow> 'r \<Rightarrow> (nat \<times> 'r) outcome"
    and later :: "'r \<Rightarrow> 'r \<Rightarrow> bool"
  assumes later_keeps: "later r r' \<Longrightarrow> look r n = Some h \<Longrightarrow> look r' n = Some h"
    and later_trans: "later r r' \<Longrightarrow> later r' r'' \<Longrightarrow> later r r''"
    and get_later: "later r0 r \<Longrightarrow> get x n r0 r = Ret (h, r') \<Longrightarrow> later r r' \<and> look r' n = Some h"
    and get_found: "later r0 r \<Longrightarrow> look r n = Some h \<Longrightarrow> get x n r0 r = Ret (h, r)"
begin

text \<open>However two callers of one name overlap, the one that is served second gets the handle of the first.\<close>

lemma same_handle:
  assumes "later r0 r" and "get x n r0 r = Ret (h, r')" and "later r' r2" and "later r1 r2"
  shows "get y n r1 r2 = Ret (h, r2)"
  using get_later [OF assms(1,2)] later_keeps [OF assms(3)] get_found [OF assms(4)] by blast

end

definition later :: "'p Registry \<Rightarrow> 'p Registry \<Rightarrow> bool" where
  "later r r' \<longleftrightarrow> counters r \<subseteq>\<^sub>m counters r' \<and> gauges r \<subseteq>\<^sub>m gauges r' \<and> histograms r \<subseteq>\<^sub>m histograms r' \<and>
     (\<exists>new. heap r' = heap r @ new)"

lemma later_refl [simp]: "later r r"
  by (simp add: later_def)

lemma later_trans: "later r r' \<Longrightarrow> later r' r'' \<Longrightarrow> later r r''"
  unfolding later_def using map_le_trans by (metis append.assoc)

lemma map_le_put: "n \<notin> dom m \<Longrightarrow> m \<subseteq>\<^sub>m m(n \<mapsto> a)"
  by (auto simp: map_le_def)

lemma create_Ret: "create reg c r = Ret (a, r') \<longleftrightarrow> (\<exists>p. reg (length (heap r)) c (promReg r) = Some p \<and> a = length (heap r) \<and> r' = r\<lparr>promReg := p, heap := heap r @ [c]\<rparr>)"
  by (auto simp: create_def Let_def split: option.splits)

lemmas metric_ops = Counter_def Gauge_def Histogram_def

lemma metric_lookup:
  "later r r' \<Longrightarrow> counters r n = Some h \<Longrightarrow> counters r' n = Some h"
  "later r r' \<Longrightarrow> gauges r n = Some h \<Longrightarrow> gauges r' n = Some h"
  "later r r' \<Longrightarrow> histograms r n = Some h \<Longrightarrow> histograms r' n = Some h"
  by (auto simp: later_def map_le_def dom_def)

text \<open>A method either finds its handle or ends with a registration.\<close>

lemma Counter_cases:
  assumes "later r0 r"
  shows "Counter reg n x r0 r =
    (case counters r n of
       Some h \<Rightarrow> Ret (h, r)
     | None \<Rightarrow> obind (create reg (CounterC n x) r) (\<lambda>(h, r'). Ret (h, r'\<lparr>counters := (counters r')(n \<mapsto> h)\<rparr>)))"
  using metric_lookup(1) [OF assms] by (auto simp: Counter_def split: option.splits outcome.splits)

lemma Gauge_cases:
  assumes "later r0 r"
  shows "Gauge reg n x r0 r =
    (case gauges r n of
       Some h \<Rightarrow> Ret (h, r)
     | None \<Rightarrow> obind (create reg (GaugeC n x) r) (\<lambda>(h, r'). Ret (h, r'\<lparr>gauges := (gauges r')(n \<mapsto> h)\<rparr>)))"
  using metric_lookup(2) [OF assms] by (auto simp: Gauge_def split: option.splits outcome.splits)

lemma Histogram_cases:
  assumes "later r0 r"
  shows "Histogram reg ok defs n x bs r0 r =
    (case histograms r n of
       Some h \<Rightarrow> Ret (h, r)
     | None \<Rightarrow>
         if \<not> ok (if bs = [] then defs else bs) then Panic
         else obind (create reg (HistogramC n x (if bs = [] then defs else bs)) r)
                (\<lambda>(h, r'). Ret (h, r'\<lparr>histograms := (histograms r')(n \<mapsto> h)\<rparr>)))"
  using metric_lookup(3) [OF assms] by (auto simp: Histogram_def Let_def split: option.splits outcome.splits)

lemma obind_Ret: "obind m f = Ret y \<longleftrightarrow> (\<exists>x. m = Ret x \<and> f x = Ret y)"
  by (cases m) auto

lemma later_create:
  assumes "create reg c r = Ret (h, r')"
  shows "counters r n = None \<Longrightarrow> later r (r'\<lparr>counters := (counters r')(n \<mapsto> h)\<rparr>)"
    and "gauges r n = None \<Longrightarrow> later r (r'\<lparr>gauges := (gauges r')(n \<mapsto> h)\<rparr>)"
    and "histograms r n = None \<Longrightarrow> later r (r'\<lparr>histograms := (histograms r')(n \<mapsto> h)\<rparr>)"
  using assms by (auto simp: later_def create_Ret intro: map_le_put)

interpretation counter_table: get_or_create counters "\<lambda>x n. Counter reg n x" later for reg
proof (unfold_locales, goal_cases)
  case (3 r0 r x n h r')
  then show ?case
    by (auto simp: Counter_cases obind_Ret split: option.splits dest: later_create(1))
qed (auto simp: metric_lookup Counter_cases intro: later_trans)

interpretation gauge_table: get_or_create gauges "\<lambda>x n. Gauge reg n x" later for reg
proof (unfold_locales, goal_cases)
  case (3 r0 r x n h r')
  then show ?case
    by (auto simp: Gauge_cases obind_Ret split: option.splits dest: later_create(2))
qed (auto simp: metric_lookup Gauge_cases intro: later_trans)

interpretation histogram_table: get_or_create histograms "\<lambda>x n. Histogram reg ok defs n (fst x) (snd x)" later for reg ok defs
proof (unfold_locales, goal_cases)
  case (3 r0 r x n h r')
  then show ?case
    by (auto simp: Histogram_cases obind_Ret split: option.splits if_splits dest: later_create(3))
qed (auto simp: metric_lookup Histogram_cases intro: later_trans)


section \<open>Invariant\<close>

text \<open>
  What \<^verbatim>\<open>MustRegister\<close> documents: it refuses an invalid name and a name that is already registered, whatever its kind,
  and otherwise adds the name; \<open>names\<close> are the names a Prometheus registry holds.
\<close>

definition register_law :: "'p register \<Rightarrow> (bytes \<Rightarrow> bool) \<Rightarrow> ('p \<Rightarrow> bytes set) \<Rightarrow> bool" where
  "register_law reg valid names \<longleftrightarrow>
     (\<forall>a c p. (reg a c p = None \<longleftrightarrow> \<not> valid (cname c) \<or> cname c \<in> names p) \<and>
        (\<forall>p'. reg a c p = Some p' \<longrightarrow> names p' = insert (cname c) (names p)))"

definition handles_ok :: "(bytes \<Rightarrow> collector \<Rightarrow> bool) \<Rightarrow> (bytes \<rightharpoonup> nat) \<Rightarrow> collector list \<Rightarrow> bool" where
  "handles_ok P m h \<longleftrightarrow> (\<forall>n a. m n = Some a \<longrightarrow> a < length h \<and> P n (h ! a))"

text \<open>The three tables partition the registered names, and a handle points to a collector of its kind and name.\<close>

definition reg_inv :: "('p \<Rightarrow> bytes set) \<Rightarrow> 'p Registry \<Rightarrow> bool" where
  "reg_inv names r \<longleftrightarrow>
     names (promReg r) = dom (counters r) \<union> dom (gauges r) \<union> dom (histograms r) \<and>
     dom (counters r) \<inter> dom (gauges r) = {} \<and> dom (counters r) \<inter> dom (histograms r) = {} \<and>
     dom (gauges r) \<inter> dom (histograms r) = {} \<and>
     handles_ok (\<lambda>n c. \<exists>x. c = CounterC n x) (counters r) (heap r) \<and>
     handles_ok (\<lambda>n c. \<exists>x. c = GaugeC n x) (gauges r) (heap r) \<and>
     handles_ok (\<lambda>n c. \<exists>x b. c = HistogramC n x b) (histograms r) (heap r)"

lemma reg_inv_New [simp, inv_intros]: "names p = {} \<Longrightarrow> reg_inv names (NewRegistry p)"
  by (simp add: reg_inv_def NewRegistry_def handles_ok_def)

lemma create_panics:
  assumes "register_law reg valid names" and "reg_inv names r"
  shows "create reg c r = Panic \<longleftrightarrow> \<not> valid (cname c) \<or> cname c \<in> dom (counters r) \<union> dom (gauges r) \<union> dom (histograms r)"
proof -
  have "create reg c r = Panic \<longleftrightarrow> reg (length (heap r)) c (promReg r) = None"
    by (simp add: create_def Let_def split: option.splits)
  with assms show ?thesis by (simp add: register_law_def reg_inv_def)
qed

text \<open>What a successful creation leaves, before the table of its kind is extended.\<close>

lemma create_ok:
  assumes "register_law reg valid names" and "reg_inv names r" and "create reg c r = Ret (h, r')"
  shows "names (promReg r') = insert (cname c) (dom (counters r) \<union> dom (gauges r) \<union> dom (histograms r))"
    and "cname c \<notin> dom (counters r) \<union> dom (gauges r) \<union> dom (histograms r)"
    and "heap r' = heap r @ [c]" and "h = length (heap r)"
    and "counters r' = counters r" and "gauges r' = gauges r" and "histograms r' = histograms r"
proof -
  show "heap r' = heap r @ [c]" "h = length (heap r)" "counters r' = counters r" "gauges r' = gauges r" "histograms r' = histograms r"
    using assms(3) by (auto simp: create_Ret)
  obtain p where "reg (length (heap r)) c (promReg r) = Some p" "promReg r' = p"
    using assms(3) by (auto simp: create_Ret)
  then show "names (promReg r') = insert (cname c) (dom (counters r) \<union> dom (gauges r) \<union> dom (histograms r))"
    using assms(1,2) by (simp add: register_law_def reg_inv_def)
  show "cname c \<notin> dom (counters r) \<union> dom (gauges r) \<union> dom (histograms r)"
    using create_panics [OF assms(1,2), of c] assms(3) by simp
qed

lemma handles_ok_put: "handles_ok P m h \<Longrightarrow> P n c \<Longrightarrow> handles_ok P (m(n \<mapsto> length h)) (h @ [c])"
  by (auto simp: handles_ok_def nth_append less_Suc_eq)

lemma handles_ok_grow: "handles_ok P m h \<Longrightarrow> handles_ok P m (h @ [c])"
  by (auto simp: handles_ok_def nth_append less_Suc_eq)

lemma reg_inv_put:
  assumes "register_law reg valid names" and "reg_inv names r" and "create reg c r = Ret (h, r')"
  shows "c = CounterC n x \<Longrightarrow> reg_inv names (r'\<lparr>counters := (counters r')(n \<mapsto> h)\<rparr>)"
    and "c = GaugeC n x \<Longrightarrow> reg_inv names (r'\<lparr>gauges := (gauges r')(n \<mapsto> h)\<rparr>)"
    and "c = HistogramC n x b \<Longrightarrow> reg_inv names (r'\<lparr>histograms := (histograms r')(n \<mapsto> h)\<rparr>)"
  using assms(2) create_ok [OF assms]
  by (auto simp: reg_inv_def handles_ok_put handles_ok_grow)

lemma reg_inv_ops [inv_intros]:
  assumes "register_law reg valid names" and "reg_inv names r" and "later r0 r"
  shows "Counter reg n x r0 r = Ret (h, r') \<Longrightarrow> reg_inv names r'"
    and "Gauge reg n x r0 r = Ret (h, r') \<Longrightarrow> reg_inv names r'"
    and "Histogram reg ok defs n x bs r0 r = Ret (h, r') \<Longrightarrow> reg_inv names r'"
  using assms(2) reg_inv_put [OF assms(1,2)]
  by (auto simp: Counter_cases [OF assms(3)] Gauge_cases [OF assms(3)] Histogram_cases [OF assms(3)] obind_Ret
      split: option.splits if_splits)

lemma obind_Panic: "obind m f = Panic \<longleftrightarrow> m = Panic \<or> (\<exists>x. m = Ret x \<and> f x = Panic)"
  by (cases m) auto

section \<open>The framework's names\<close>

definition counter_names :: "bytes list" where
  "counter_names = map str [''kinz_conns_total'', ''kinz_conns_closed_total'', ''kinz_conns_rejected_total'', ''kinz_msgs_received_total'',
     ''kinz_msgs_sent_total'', ''kinz_bytes_in_total'', ''kinz_bytes_out_total'', ''kinz_handler_panics_total'', ''kinz_queue_full_total'',
     ''kinz_heartbeat_missed_total'']"

text \<open>A registry that only the framework uses.\<close>

definition framework_only :: "('p \<Rightarrow> bytes set) \<Rightarrow> 'p Registry \<Rightarrow> bool" where
  "framework_only names r \<longleftrightarrow> reg_inv names r \<and> dom (counters r) \<subseteq> set counter_names \<and> dom (gauges r) \<subseteq> {str ''kinz_conns_active''} \<and>
     dom (histograms r) \<subseteq> {str ''kinz_msg_handle_duration_seconds''}"

lemma names_apart [simp]:
  "str ''kinz_conns_active'' \<notin> set counter_names" "str ''kinz_msg_handle_duration_seconds'' \<notin> set counter_names"
  "str ''kinz_conns_active'' \<noteq> str ''kinz_msg_handle_duration_seconds''"
  by (simp_all add: counter_names_def str_def)

lemma framework_counter:
  assumes "register_law reg valid names" and "\<And>n. valid n" and "framework_only names r" and "n \<in> set counter_names"
  shows "\<exists>h r'. counter_now reg n x r = Ret (h, r') \<and> framework_only names r' \<and> later r r' \<and> counters r' n = Some h"
proof -
  have inv: "reg_inv names r" using assms(3) by (simp add: framework_only_def)
  have "n \<notin> dom (gauges r) \<union> dom (histograms r)"
    using assms(3,4) names_apart names_apart(3) [symmetric] unfolding framework_only_def by blast
  then have "counter_now reg n x r \<noteq> Panic"
    using create_panics [OF assms(1) inv, of "CounterC n x"] assms(2)
    by (auto simp: Counter_cases [OF later_refl] obind_Panic split: option.splits)
  then obtain h r' where c: "counter_now reg n x r = Ret (h, r')" by (cases "counter_now reg n x r") auto
  have "dom (counters r') \<subseteq> insert n (dom (counters r))" "gauges r' = gauges r" "histograms r' = histograms r"
    using c by (auto simp: Counter_cases [OF later_refl] obind_Ret create_Ret split: option.splits)
  then have "framework_only names r'"
    using assms(3,4) reg_inv_ops(1) [OF assms(1) inv later_refl c] by (simp add: framework_only_def) blast
  with c counter_table.get_later [OF later_refl c] show ?thesis by blast
qed

lemma framework_gauge:
  assumes "register_law reg valid names" and "\<And>n. valid n" and "framework_only names r" and "n = str ''kinz_conns_active''"
  shows "\<exists>h r'. gauge_now reg n x r = Ret (h, r') \<and> framework_only names r' \<and> later r r' \<and> gauges r' n = Some h"
proof -
  have inv: "reg_inv names r" using assms(3) by (simp add: framework_only_def)
  have "n \<notin> dom (counters r) \<union> dom (histograms r)"
    using assms(3,4) names_apart names_apart(3) [symmetric] unfolding framework_only_def by blast
  then have "gauge_now reg n x r \<noteq> Panic"
    using create_panics [OF assms(1) inv, of "GaugeC n x"] assms(2)
    by (auto simp: Gauge_cases [OF later_refl] obind_Panic split: option.splits)
  then obtain h r' where c: "gauge_now reg n x r = Ret (h, r')" by (cases "gauge_now reg n x r") auto
  have "dom (gauges r') \<subseteq> insert n (dom (gauges r))" "counters r' = counters r" "histograms r' = histograms r"
    using c by (auto simp: Gauge_cases [OF later_refl] obind_Ret create_Ret split: option.splits)
  then have "framework_only names r'"
    using assms(3,4) reg_inv_ops(2) [OF assms(1) inv later_refl c] by (simp add: framework_only_def) blast
  with c gauge_table.get_later [OF later_refl c] show ?thesis by blast
qed

lemma framework_histogram:
  assumes "register_law reg valid names" and "\<And>n. valid n" and "ok defs" and "framework_only names r" and "n = str ''kinz_msg_handle_duration_seconds''"
  shows "\<exists>h r'. Histogram reg ok defs n x [] r r = Ret (h, r') \<and> framework_only names r' \<and> later r r' \<and> histograms r' n = Some h"
proof -
  have inv: "reg_inv names r" using assms(4) by (simp add: framework_only_def)
  have "n \<notin> dom (counters r) \<union> dom (gauges r)"
    using assms(4,5) names_apart names_apart(3) [symmetric] unfolding framework_only_def by blast
  then have "Histogram reg ok defs n x [] r r \<noteq> Panic"
    using create_panics [OF assms(1) inv, of "HistogramC n x defs"] assms(2,3)
    by (auto simp: Histogram_cases [OF later_refl] obind_Panic split: option.splits)
  then obtain h r' where c: "Histogram reg ok defs n x [] r r = Ret (h, r')" by (cases "Histogram reg ok defs n x [] r r") auto
  have "dom (histograms r') \<subseteq> insert n (dom (histograms r))" "counters r' = counters r" "gauges r' = gauges r"
    using c by (auto simp: Histogram_cases [OF later_refl] obind_Ret create_Ret split: option.splits if_splits)
  then have "framework_only names r'"
    using assms(4,5) reg_inv_ops(3) [OF assms(1) inv later_refl c] by (simp add: framework_only_def) blast
  with c histogram_table.get_later [OF later_refl, where x = "(x, [])"] show ?thesis by fastforce
qed


text \<open>The handles that a registry already holds.\<close>

definition conn_registered :: "'p Registry \<Rightarrow> connHandles \<Rightarrow> bool" where
  "conn_registered r hs \<longleftrightarrow>
     gauges r (str ''kinz_conns_active'') = Some (h_active hs) \<and> counters r (str ''kinz_conns_closed_total'') = Some (h_closed hs) \<and>
     counters r (str ''kinz_bytes_in_total'') = Some (h_bytesIn hs) \<and> counters r (str ''kinz_bytes_out_total'') = Some (h_bytesOut hs) \<and>
     counters r (str ''kinz_msgs_received_total'') = Some (h_msgsRecv hs) \<and> counters r (str ''kinz_msgs_sent_total'') = Some (h_msgsSent hs)"

lemma conn_registered_later: "conn_registered r hs \<Longrightarrow> later r r' \<Longrightarrow> conn_registered r' hs"
  unfolding conn_registered_def using metric_lookup by blast

lemma conn_handles_found: "conn_registered r hs \<Longrightarrow> conn_handles reg r = Ret (hs, r)"
  by (simp add: conn_handles_def conn_registered_def Counter_def Gauge_def)

lemma counter_names_mem [simp]:
  "str ''kinz_conns_total'' \<in> set counter_names" "str ''kinz_conns_closed_total'' \<in> set counter_names"
  "str ''kinz_conns_rejected_total'' \<in> set counter_names" "str ''kinz_msgs_received_total'' \<in> set counter_names"
  "str ''kinz_msgs_sent_total'' \<in> set counter_names" "str ''kinz_bytes_in_total'' \<in> set counter_names"
  "str ''kinz_bytes_out_total'' \<in> set counter_names" "str ''kinz_handler_panics_total'' \<in> set counter_names"
  "str ''kinz_queue_full_total'' \<in> set counter_names" "str ''kinz_heartbeat_missed_total'' \<in> set counter_names"
  by (simp_all add: counter_names_def)

lemma conn_handles_ok:
  assumes "register_law reg valid names" and "\<And>n. valid n" and "framework_only names r"
  shows "\<exists>hs r'. conn_handles reg r = Ret (hs, r') \<and> framework_only names r' \<and> later r r' \<and> conn_registered r' hs"
proof -
  note counter = framework_counter [OF assms(1,2)] and gauge = framework_gauge [OF assms(1,2)]
  obtain a r1 where 1: "gauge_now reg (str ''kinz_conns_active'') (str ''Currently active connections'') r = Ret (a, r1)"
    "framework_only names r1" "later r r1" "gauges r1 (str ''kinz_conns_active'') = Some a"
    using gauge [OF assms(3) refl] by blast
  obtain c r2 where 2: "counter_now reg (str ''kinz_conns_closed_total'') (str ''Connections closed'') r1 = Ret (c, r2)"
    "framework_only names r2" "later r1 r2" "counters r2 (str ''kinz_conns_closed_total'') = Some c"
    using counter [OF 1(2) counter_names_mem(2)] by blast
  obtain bi r3 where 3: "counter_now reg (str ''kinz_bytes_in_total'') (str ''Bytes received from peers'') r2 = Ret (bi, r3)"
    "framework_only names r3" "later r2 r3" "counters r3 (str ''kinz_bytes_in_total'') = Some bi"
    using counter [OF 2(2) counter_names_mem(6)] by blast
  obtain bo r4 where 4: "counter_now reg (str ''kinz_bytes_out_total'') (str ''Bytes sent to peers'') r3 = Ret (bo, r4)"
    "framework_only names r4" "later r3 r4" "counters r4 (str ''kinz_bytes_out_total'') = Some bo"
    using counter [OF 3(2) counter_names_mem(7)] by blast
  obtain mr r5 where 5: "counter_now reg (str ''kinz_msgs_received_total'') (str ''Messages received'') r4 = Ret (mr, r5)"
    "framework_only names r5" "later r4 r5" "counters r5 (str ''kinz_msgs_received_total'') = Some mr"
    using counter [OF 4(2) counter_names_mem(4)] by blast
  obtain ms r6 where 6: "counter_now reg (str ''kinz_msgs_sent_total'') (str ''Messages sent'') r5 = Ret (ms, r6)"
    "framework_only names r6" "later r5 r6" "counters r6 (str ''kinz_msgs_sent_total'') = Some ms"
    using counter [OF 5(2) counter_names_mem(5)] by blast
  have up: "later r5 r6" "later r4 r6" "later r3 r6" "later r2 r6" "later r1 r6" "later r r6"
    using 1(3) 2(3) 3(3) 4(3) 5(3) 6(3) later_trans by blast+
  have "conn_handles reg r = Ret (\<lparr>h_active = a, h_closed = c, h_bytesIn = bi, h_bytesOut = bo, h_msgsRecv = mr, h_msgsSent = ms\<rparr>, r6)"
    by (simp add: conn_handles_def 1(1) 2(1) 3(1) 4(1) 5(1) 6(1))
  moreover have "conn_registered r6 \<lparr>h_active = a, h_closed = c, h_bytesIn = bi, h_bytesOut = bo, h_msgsRecv = mr, h_msgsSent = ms\<rparr>"
    using metric_lookup(2) [OF up(5) 1(4)] metric_lookup(1) [OF up(4) 2(4)] metric_lookup(1) [OF up(3) 3(4)]
      metric_lookup(1) [OF up(2) 4(4)] metric_lookup(1) [OF up(1) 5(4)] 6(4)
    by (simp add: conn_registered_def)
  ultimately show ?thesis using 6(2) up(6) by blast
qed

lemma server_metrics_ok:
  assumes "register_law reg valid names" and "\<And>n. valid n" and "framework_only names r"
  shows "\<exists>t a c j r'. server_metrics reg r = Ret ((t, a, c, j), r') \<and> framework_only names r' \<and> later r r' \<and>
           gauges r' (str ''kinz_conns_active'') = Some a \<and> counters r' (str ''kinz_conns_closed_total'') = Some c"
proof -
  note counter = framework_counter [OF assms(1,2)] and gauge = framework_gauge [OF assms(1,2)]
  obtain t r1 where 1: "counter_now reg (str ''kinz_conns_total'') (str ''Total connections accepted'') r = Ret (t, r1)"
    "framework_only names r1" "later r r1" using counter [OF assms(3) counter_names_mem(1)] by blast
  obtain a r2 where 2: "gauge_now reg (str ''kinz_conns_active'') (str ''Currently active connections'') r1 = Ret (a, r2)"
    "framework_only names r2" "later r1 r2" "gauges r2 (str ''kinz_conns_active'') = Some a" using gauge [OF 1(2) refl] by blast
  obtain c r3 where 3: "counter_now reg (str ''kinz_conns_closed_total'') (str ''Connections closed'') r2 = Ret (c, r3)"
    "framework_only names r3" "later r2 r3" "counters r3 (str ''kinz_conns_closed_total'') = Some c"
    using counter [OF 2(2) counter_names_mem(2)] by blast
  obtain j r4 where 4: "counter_now reg (str ''kinz_conns_rejected_total'') (str ''Connections rejected (max reached)'') r3 = Ret (j, r4)"
    "framework_only names r4" "later r3 r4" using counter [OF 3(2) counter_names_mem(3)] by blast
  have up: "later r2 r4" "later r r4" using 1(3) 2(3) 3(3) 4(3) later_trans by blast+
  have "server_metrics reg r = Ret ((t, a, c, j), r4)" by (simp add: server_metrics_def 1(1) 2(1) 3(1) 4(1))
  then show ?thesis using 4(2) up(2) metric_lookup(2) [OF up(1) 2(4)] metric_lookup(1) [OF 4(3) 3(4)] by blast
qed


section \<open>Overlapping calls\<close>

datatype metric_call = GetCounter bytes bytes | GetGauge bytes bytes | GetHistogram bytes bytes "rat list"

fun run_call :: "'p register \<Rightarrow> (rat list \<Rightarrow> bool) \<Rightarrow> rat list \<Rightarrow> metric_call \<Rightarrow> 'p Registry \<Rightarrow> 'p Registry \<Rightarrow> (nat \<times> 'p Registry) outcome" where
  "run_call reg ok defs (GetCounter n x) r0 r = Counter reg n x r0 r"
| "run_call reg ok defs (GetGauge n x) r0 r = Gauge reg n x r0 r"
| "run_call reg ok defs (GetHistogram n x bs) r0 r = Histogram reg ok defs n x bs r0 r"

text \<open>
  A run of the registry: the states it went through and the calls that ended, with their handles, or \<^const>\<open>None\<close> for a call that
  panicked. A call makes its first lookup in any state up to the present and its second one in the present state; a panic
  comes before the maps are touched, and the deferred unlock lets the others go on.
\<close>

inductive registry_run ::
  "'p register \<Rightarrow> (rat list \<Rightarrow> bool) \<Rightarrow> rat list \<Rightarrow> 'p \<Rightarrow> 'p Registry list \<Rightarrow> 'p Registry \<Rightarrow> (metric_call \<times> nat option) list \<Rightarrow> bool"
  for reg ok defs p where
  run_new: "registry_run reg ok defs p [] (NewRegistry p) []"
| run_get: "registry_run reg ok defs p past r done \<Longrightarrow> r0 \<in> insert r (set past) \<Longrightarrow> run_call reg ok defs c r0 r = Ret (h, r') \<Longrightarrow>
    registry_run reg ok defs p (past @ [r]) r' (done @ [(c, Some h)])"
| run_panic: "registry_run reg ok defs p past r done \<Longrightarrow> r0 \<in> insert r (set past) \<Longrightarrow> run_call reg ok defs c r0 r = Panic \<Longrightarrow>
    registry_run reg ok defs p past r (done @ [(c, None)])"

text \<open>The table a call looks in.\<close>

fun call_table :: "metric_call \<Rightarrow> 'p Registry \<Rightarrow> nat option" where
  "call_table (GetCounter n x) r = counters r n"
| "call_table (GetGauge n x) r = gauges r n"
| "call_table (GetHistogram n x bs) r = histograms r n"

fun same_metric :: "metric_call \<Rightarrow> metric_call \<Rightarrow> bool" where
  "same_metric (GetCounter n x) (GetCounter m y) \<longleftrightarrow> n = m"
| "same_metric (GetGauge n x) (GetGauge m y) \<longleftrightarrow> n = m"
| "same_metric (GetHistogram n x bs) (GetHistogram m y cs) \<longleftrightarrow> n = m"
| "same_metric c d \<longleftrightarrow> False"

lemma run_call_later:
  assumes "later r0 r" and "run_call reg ok defs c r0 r = Ret (h, r')"
  shows "later r r' \<and> call_table c r' = Some h"
proof (cases c)
  case (GetCounter n x)
  then show ?thesis using assms counter_table.get_later [OF assms(1)] by fastforce
next
  case (GetGauge n x)
  then show ?thesis using assms gauge_table.get_later [OF assms(1)] by fastforce
next
  case (GetHistogram n x bs)
  then show ?thesis using assms histogram_table.get_later [OF assms(1), where x = "(x, bs)"] by fastforce
qed

lemma call_table_later: "later r r' \<Longrightarrow> call_table c r = Some h \<Longrightarrow> call_table c r' = Some h"
  by (cases c) (simp_all add: metric_lookup)

lemma run_call_inv:
  assumes "register_law reg valid names" and "reg_inv names r" and "later r0 r" and "run_call reg ok defs c r0 r = Ret (h, r')"
  shows "reg_inv names r'"
  using assms(4) reg_inv_ops [OF assms(1-3)] by (cases c) auto

fun collects :: "metric_call \<Rightarrow> collector \<Rightarrow> bool" where
  "collects (GetCounter n x) c \<longleftrightarrow> (\<exists>y. c = CounterC n y)"
| "collects (GetGauge n x) c \<longleftrightarrow> (\<exists>y. c = GaugeC n y)"
| "collects (GetHistogram n x bs) c \<longleftrightarrow> (\<exists>y b. c = HistogramC n y b)"

lemma call_table_collects: "reg_inv names r \<Longrightarrow> call_table c r = Some h \<Longrightarrow> collects c (heap r ! h)"
  by (cases c) (simp_all add: reg_inv_def handles_ok_def)

lemma collects_same: "collects c x \<Longrightarrow> collects d x \<Longrightarrow> same_metric c d"
  by (cases c; cases d) auto

lemma same_metric_table: "same_metric c d \<Longrightarrow> call_table c r = call_table d r"
  by (cases c; cases d) simp_all

lemma call_table_unique:
  assumes "reg_inv names r" and "call_table c r = Some h" and "call_table d r = Some k"
  shows "h = k \<longleftrightarrow> same_metric c d"
  using assms call_table_collects [OF assms(1,2)] call_table_collects [OF assms(1,3)] collects_same same_metric_table [of c d r] by auto

lemma run_call_panics:
  assumes "register_law reg valid names" and "reg_inv names r" and "later r0 r"
  shows "Counter reg n x r0 r = Panic \<longleftrightarrow> counters r n = None \<and> (\<not> valid n \<or> n \<in> dom (gauges r) \<union> dom (histograms r))"
    and "Gauge reg n x r0 r = Panic \<longleftrightarrow> gauges r n = None \<and> (\<not> valid n \<or> n \<in> dom (counters r) \<union> dom (histograms r))"
    and "Histogram reg ok defs n x bs r0 r = Panic \<longleftrightarrow>
      histograms r n = None \<and> (\<not> ok (if bs = [] then defs else bs) \<or> \<not> valid n \<or> n \<in> dom (counters r) \<union> dom (gauges r))"
  using create_panics [OF assms(1,2)]
  by (auto simp: Counter_cases [OF assms(3)] Gauge_cases [OF assms(3)] Histogram_cases [OF assms(3)] obind_Panic split: option.splits)

text \<open>A call that is refused whatever the registry holds, and when a call panics.\<close>

fun metric_name :: "metric_call \<Rightarrow> bytes" where
  "metric_name (GetCounter n x) = n"
| "metric_name (GetGauge n x) = n"
| "metric_name (GetHistogram n x bs) = n"

fun ill_formed :: "(bytes \<Rightarrow> bool) \<Rightarrow> (rat list \<Rightarrow> bool) \<Rightarrow> rat list \<Rightarrow> metric_call \<Rightarrow> bool" where
  "ill_formed valid ok defs (GetHistogram n x bs) \<longleftrightarrow> \<not> valid n \<or> \<not> ok (if bs = [] then defs else bs)"
| "ill_formed valid ok defs c \<longleftrightarrow> \<not> valid (metric_name c)"

lemma taken_name:
  "(\<exists>d k. call_table d r = Some k \<and> metric_name d = n) \<longleftrightarrow> n \<in> dom (counters r) \<union> dom (gauges r) \<union> dom (histograms r)"
proof -
  have "(\<exists>d k. call_table d r = Some k \<and> metric_name d = n) \<longleftrightarrow>
      (\<exists>k. call_table (GetCounter n []) r = Some k \<or> call_table (GetGauge n []) r = Some k \<or> call_table (GetHistogram n [] []) r = Some k)"
    by (metis call_table.simps metric_name.elims metric_name.simps)
  then show ?thesis by auto
qed

lemma run_call_Panic:
  assumes "register_law reg valid names" and "reg_inv names r" and "later r0 r"
  shows "run_call reg ok defs c r0 r = Panic \<longleftrightarrow>
    call_table c r = None \<and> (ill_formed valid ok defs c \<or> (\<exists>d k. call_table d r = Some k \<and> metric_name d = metric_name c))"
  unfolding taken_name using run_call_panics [OF assms] by (cases c) auto

lemma run_call_other:
  assumes "later r0 r" and "run_call reg ok defs c r0 r = Ret (h, r')" and "\<not> same_metric c d"
  shows "call_table d r' = call_table d r"
  using assms(2,3)
  by (cases c; cases d) (auto simp: Counter_cases [OF assms(1)] Gauge_cases [OF assms(1)] Histogram_cases [OF assms(1)] obind_Ret create_Ret
      split: option.splits if_splits)

lemma run_state:
  assumes "registry_run reg ok defs p past r calls" and "register_law reg valid names" and "names p = {}"
  shows "reg_inv names r \<and> (\<forall>r0 \<in> set past. later r0 r) \<and>
    (\<forall>c h. call_table c r = Some h \<longleftrightarrow> (\<exists>d. (d, Some h) \<in> set calls \<and> same_metric d c))"
  using assms(1)
proof induction
  case run_new
  have "call_table c (NewRegistry p) = None" for c by (cases c) (simp_all add: NewRegistry_def)
  then show ?case using assms(3) by simp
next
  case (run_get past r calls r0 c h r')
  then have r0: "later r0 r" by auto
  note new = run_call_later [OF this run_get.hyps(3)]
  have "reg_inv names r'" using run_call_inv [OF assms(2) _ r0 run_get.hyps(3)] run_get.IH by simp
  moreover have "\<forall>r0 \<in> set (past @ [r]). later r0 r'" using run_get.IH new later_trans by auto
  moreover have "call_table d r' = Some k \<longleftrightarrow> (\<exists>e. (e, Some k) \<in> set (calls @ [(c, Some h)]) \<and> same_metric e d)" for d k
  proof (cases "same_metric c d")
    case True
    have "call_table d r' = Some k'" if "(e, Some k') \<in> set calls" "same_metric e d" for e k'
      using run_get.IH that call_table_later [of r r' d k'] new by blast
    then show ?thesis using True same_metric_table [of c d r'] new by auto
  next
    case False
    then show ?thesis using run_call_other [OF r0 run_get.hyps(3), of d] run_get.IH by auto
  qed
  ultimately show ?case by blast
next
  case (run_panic past r calls r0 c)
  then show ?case by auto
qed

text \<open>
  Whether calls that ended before have obtained the metric that \<open>c\<close> asks for, or one of another kind under its name.
\<close>

definition obtained :: "(metric_call \<times> nat option) list \<Rightarrow> metric_call \<Rightarrow> bool" where
  "obtained calls c \<longleftrightarrow> (\<exists>d h. (d, Some h) \<in> set calls \<and> same_metric d c)"

definition clashes :: "(metric_call \<times> nat option) list \<Rightarrow> metric_call \<Rightarrow> bool" where
  "clashes calls c \<longleftrightarrow> (\<exists>d h. (d, Some h) \<in> set calls \<and> metric_name d = metric_name c \<and> \<not> same_metric d c)"

lemma same_metric_refl [simp]: "same_metric c c"
  by (cases c) simp_all

lemma same_metric_name: "same_metric c d \<Longrightarrow> metric_name c = metric_name d"
  by (cases c; cases d) simp_all

lemma run_Panic_iff:
  assumes "registry_run reg ok defs p past r calls" and "register_law reg valid names" and "names p = {}" and "r0 \<in> insert r (set past)"
  shows "run_call reg ok defs c r0 r = Panic \<longleftrightarrow> \<not> obtained calls c \<and> (ill_formed valid ok defs c \<or> clashes calls c)"
proof -
  note st = run_state [OF assms(1-3)]
  have "later r0 r" using assms(4) st by auto
  with run_call_Panic [OF assms(2), of r r0 ok defs c] st
  have panic: "run_call reg ok defs c r0 r = Panic \<longleftrightarrow>
      call_table c r = None \<and> (ill_formed valid ok defs c \<or> (\<exists>d k. call_table d r = Some k \<and> metric_name d = metric_name c))" by blast
  have none: "call_table c r = None \<longleftrightarrow> \<not> obtained calls c"
    using st unfolding obtained_def by (metis option.exhaust option.distinct(1))
  have "(\<exists>d k. call_table d r = Some k \<and> metric_name d = metric_name c) \<longleftrightarrow> clashes calls c" if "\<not> obtained calls c"
    using that st same_metric_name same_metric_refl unfolding clashes_def obtained_def by metis
  with panic none show ?thesis by blast
qed

lemma run_results:
  assumes "registry_run reg ok defs p past r calls" and "register_law reg valid names" and "names p = {}"
  shows "i < length calls \<Longrightarrow> snd (calls ! i) = None \<longleftrightarrow>
    \<not> obtained (take i calls) (fst (calls ! i)) \<and> (ill_formed valid ok defs (fst (calls ! i)) \<or> clashes (take i calls) (fst (calls ! i)))"
  using assms(1)
proof (induction arbitrary: i)
  case (run_get past r calls r0 c h r')
  then show ?case using run_Panic_iff [OF run_get.hyps(1) assms(2,3) run_get.hyps(2), of c]
    by (cases "i < length calls") (auto simp: nth_append less_Suc_eq)
next
  case (run_panic past r calls r0 c)
  then show ?case using run_Panic_iff [OF run_panic.hyps(1) assms(2,3) run_panic.hyps(2), of c]
    by (cases "i < length calls") (auto simp: nth_append less_Suc_eq)
qed simp

section \<open>Snapshots\<close>

lemma histogramSnapshot_loop:
  "fold (\<lambda>(ub, n) hs. hs\<lparr>Buckets := Buckets hs @ [ub], Counts := Counts hs @ [n]\<rparr>) bs hs =
     hs\<lparr>Buckets := Buckets hs @ map fst bs, Counts := Counts hs @ map snd bs\<rparr>"
  by (induction bs arbitrary: hs) (auto split: prod.splits)

lemma histogramSnapshot_eq:
  "histogramSnapshot h = \<lparr>Buckets = map fst (Bucket h), Counts = map snd (Bucket h), Count = SampleCount h, Sum = SampleSum h\<rparr>"
  by (simp add: histogramSnapshot_def histogramSnapshot_loop)

text \<open>A registered metric in a gathered list: a family of the type and name with at least one metric.\<close>

definition gathered :: "family list \<Rightarrow> metric_type \<Rightarrow> bytes \<Rightarrow> dto_metric \<Rightarrow> bool" where
  "gathered fs t n m \<longleftrightarrow> (\<exists>f \<in> set fs. family_name f = n \<and> family_type f = t \<and> family_metrics f \<noteq> [] \<and> hd (family_metrics f) = m)"

lemma snap_family_maps:
  "Counters (snap_family u i f s) = (if family_type f = COUNTER \<and> family_metrics f \<noteq> []
     then (Counters s)(family_name f \<mapsto> float_to_uint64 u (counter_value (hd (family_metrics f)))) else Counters s)"
  "Gauges (snap_family u i f s) = (if family_type f = GAUGE \<and> family_metrics f \<noteq> []
     then (Gauges s)(family_name f \<mapsto> float_to_int64 i (gauge_value (hd (family_metrics f)))) else Gauges s)"
  "Histograms (snap_family u i f s) = (if family_type f = HISTOGRAM \<and> family_metrics f \<noteq> []
     then (Histograms s)(family_name f \<mapsto> histogramSnapshot (histogram_value (hd (family_metrics f)))) else Histograms s)"
  by (simp_all add: snap_family_def split: list.splits metric_type.splits)

text \<open>A map filled once per name from a list of families with distinct names.\<close>

lemma filled_map:
  assumes step: "\<And>f s. M (g f s) = (if family_type f = t \<and> family_metrics f \<noteq> [] then (M s)(family_name f \<mapsto> F (hd (family_metrics f))) else M s)"
    and "distinct (map family_name fs)" and "\<forall>f \<in> set fs. M s (family_name f) = None"
  shows "M (fold g fs s) n = Some v \<longleftrightarrow> M s n = Some v \<or> (\<exists>m. gathered fs t n m \<and> v = F m)"
  using assms(2,3)
proof (induction fs arbitrary: s)
  case (Cons f fs)
  have "\<forall>f' \<in> set fs. M (g f s) (family_name f') = None" using Cons.prems by (auto simp: step rev_image_eqI)
  then have IH: "M (fold g fs (g f s)) n = Some v \<longleftrightarrow> M (g f s) n = Some v \<or> (\<exists>m. gathered fs t n m \<and> v = F m)"
    using Cons.IH [of "g f s"] Cons.prems by simp
  have "M s (family_name f) = None" using Cons.prems by simp
  moreover have "gathered (f # fs) t n m \<longleftrightarrow>
      family_name f = n \<and> family_type f = t \<and> family_metrics f \<noteq> [] \<and> hd (family_metrics f) = m \<or> gathered fs t n m" for m
    by (auto simp: gathered_def)
  ultimately show ?case using IH by (auto simp: step)
qed (simp add: gathered_def)


section \<open>Properties\<close>

text \<open>
  C32: Metric creation is idempotent, as the registry promises. In every run of a registry, however the two lookups of
  concurrent callers overlap, two calls that return have the same handle exactly when they asked for the same kind of metric
  under the same name, whatever help text or buckets they passed; and a call panics exactly when nobody has obtained its
  metric before and its name or its buckets are not valid or somebody has obtained another kind of metric under its name. So
  a caller that loses the race for a new metric gets the handle of the winner.
\<close>

theorem metric_handles_unique:
  assumes "register_law reg valid names" and "names p = {}" and "registry_run reg ok defs p past r calls"
    and "i < length calls" and "calls ! i = (c, res)"
  shows "(res = None \<longleftrightarrow> \<not> obtained (take i calls) c \<and> (ill_formed valid ok defs c \<or> clashes (take i calls) c)) \<and>
         (\<forall>h d k. res = Some h \<and> (d, Some k) \<in> set calls \<longrightarrow> (h = k \<longleftrightarrow> same_metric c d))"
proof -
  note st = run_state [OF assms(3,1,2)]
  have table: "call_table d r = Some k" if "(d, Some k) \<in> set calls" for d k using st that same_metric_refl by blast
  have "(c, Some h) \<in> set calls" if "res = Some h" for h using nth_mem [OF assms(4)] assms(5) that by simp
  then have "h = k \<longleftrightarrow> same_metric c d" if "res = Some h" "(d, Some k) \<in> set calls" for h d k
    using call_table_unique [of names r c h d k] st table that by blast
  moreover have "res = None \<longleftrightarrow> \<not> obtained (take i calls) c \<and> (ill_formed valid ok defs c \<or> clashes (take i calls) c)"
    using run_results [OF assms(3,1,2,4)] assms(5) by simp
  ultimately show ?thesis by blast
qed

text \<open>
  The framework's own metrics never panic and are shared. On a registry that nothing else uses, \<^verbatim>\<open>NewServer\<close> and every
  connection obtain their handles without a panic; all connections count into the same handles, and the gauge of active
  connections and the counter of closed ones that a connection updates are those of its server.
\<close>

theorem framework_metrics_shared:
  assumes "register_law reg valid names" and "\<forall>n. valid n" and "names p = {}"
  shows "\<exists>t a c j r1 hs r2. server_metrics reg (NewRegistry p) = Ret ((t, a, c, j), r1) \<and>
           newConnMetrics reg (Some r1) = Ret (Some (hs, r2)) \<and> newConnMetrics reg (Some r2) = Ret (Some (hs, r2)) \<and>
           h_active hs = a \<and> h_closed hs = c"
proof -
  have "framework_only names (NewRegistry p)"
    using assms(3) by (simp add: framework_only_def reg_inv_New) (simp add: NewRegistry_def)
  then obtain t a c j r1 where 1: "server_metrics reg (NewRegistry p) = Ret ((t, a, c, j), r1)" "framework_only names r1"
    "gauges r1 (str ''kinz_conns_active'') = Some a" "counters r1 (str ''kinz_conns_closed_total'') = Some c"
    using server_metrics_ok [OF assms(1)] assms(2) by blast
  obtain hs r2 where 2: "conn_handles reg r1 = Ret (hs, r2)" "later r1 r2" "conn_registered r2 hs"
    using conn_handles_ok [OF assms(1) _ 1(2)] assms(2) by blast
  have "h_active hs = a \<and> h_closed hs = c"
    using 2(3) metric_lookup(2) [OF 2(2) 1(3)] metric_lookup(1) [OF 2(2) 1(4)] by (simp add: conn_registered_def)
  then show ?thesis
    using 1(1) 2(1) conn_handles_found [OF 2(3), of reg] by (auto simp: newConnMetrics_def nil_or_def)
qed

text \<open>A Prometheus registry as the list of its names.\<close>

definition list_register :: "bytes list register" where
  "list_register a c p = (if cname c \<in> set p then None else Some (cname c # p))"

lemma list_register_law: "register_law list_register (\<lambda>_. True) set"
  by (auto simp: register_law_def list_register_def)

text \<open>Two callers race for a counter, and a third asks for a gauge under its name.\<close>

lemma racing_run:
  fixes r0 r1 :: "bytes list Registry"
  defines "r0 \<equiv> NewRegistry []" and "r1 \<equiv> (NewRegistry [])\<lparr>promReg := [[1]], heap := [CounterC [1] []], counters := [[1] \<mapsto> 0]\<rparr>"
  shows "registry_run list_register (\<lambda>_. True) [] [] [r0, r1] r1 [(GetCounter [1] [], Some 0), (GetCounter [1] [3], Some 0), (GetGauge [1] [], None)]"
proof -
  note defs = NewRegistry_def Counter_def Gauge_def create_def list_register_def Let_def r0_def r1_def
  have "registry_run list_register (\<lambda>_. True) [] [] ([] @ [r0]) r1 ([] @ [(GetCounter [1] [], Some 0)])"
    unfolding r0_def by (rule run_get [OF run_new, where ?r0.0 = "NewRegistry []"]) (simp_all add: defs)
  then have "registry_run list_register (\<lambda>_. True) [] [] (([] @ [r0]) @ [r1]) r1 (([] @ [(GetCounter [1] [], Some 0)]) @ [(GetCounter [1] [3], Some 0)])"
    by (rule run_get [where ?r0.0 = r0]) (simp_all add: defs)
  then have "registry_run list_register (\<lambda>_. True) [] [] (([] @ [r0]) @ [r1]) r1
      ((([] @ [(GetCounter [1] [], Some 0)]) @ [(GetCounter [1] [3], Some 0)]) @ [(GetGauge [1] [], None)])"
    by (rule run_panic [where ?r0.0 = r0]) (simp_all add: defs)
  then show ?thesis by simp
qed

theorem metric_handles_unique_witness:
  "obtained [(GetCounter [1] [], Some 0)] (GetCounter [1] [3]) \<and> same_metric (GetCounter [1] [3]) (GetCounter [1] []) \<and>
   clashes [(GetCounter [1] [], Some 0), (GetCounter [1] [3], Some 0)] (GetGauge [1] [])"
  using metric_handles_unique [OF list_register_law _ racing_run, of 1 "GetCounter [1] [3]" "Some 0"]
    metric_handles_unique [OF list_register_law _ racing_run, of 2 "GetGauge [1] []" None]
  by (simp add: obtained_def)

theorem framework_metrics_shared_witness:
  "\<exists>t a c j r1 hs r2. server_metrics list_register (NewRegistry []) = Ret ((t, a, c, j), r1) \<and>
     newConnMetrics list_register (Some r1) = Ret (Some (hs, r2)) \<and> h_active hs = a"
  using framework_metrics_shared [OF list_register_law, of "[]"] by auto



end
