(* ===== verification/Kinz_Examples.thy ===== *)
theory Kinz_Examples
  imports Kinz_Server
begin

text \<open>
  The example programs under \<^verbatim>\<open>src/examples\<close>: their handlers as call trees, the servers they set up, and what their clients
  check. They show what the framework's guarantees give to an application.
\<close>

section \<open>Effects\<close>

text \<open>What the handlers do outside of the request: sends, properties of a connection, the manager's snapshot, the clock, the log, and a channel of the program.\<close>

datatype app_effect =
    SendTo u64 u32 bytes | SetProp u64 bytes bool | GetProp u64 bytes | ListConns | RemoteAddr u64 | Now | Logged bytes | Push bytes

datatype app_value = VProp "bool option" | VErr "go_error option" | VConns "u64 list" | VText bytes | VTime int

type_synonym app_handler = "(app_value, app_effect) handler"
type_synonym 'c app_server = "('c, app_value, app_effect, nat, nat) Server"

text \<open>\<^verbatim>\<open>req.GetMsgID()\<close> and \<^verbatim>\<open>req.GetData()\<close> dereference the message.\<close>

definition with_msg :: "(Message \<Rightarrow> app_handler) \<Rightarrow> app_handler" where
  "with_msg k = HGetMessage (\<lambda>m. case m of None \<Rightarrow> HPanic | Some m \<Rightarrow> k m)"

definition send_then :: "u32 \<Rightarrow> bytes \<Rightarrow> app_handler \<Rightarrow> app_handler" where
  "send_then i d k = HGetConnection (\<lambda>c. HAsk (SendTo c i d) (\<lambda>_. k))"

definition HeartBeatDefaultHandle :: app_handler where
  "HeartBeatDefaultHandle = HGetConnection (\<lambda>c. HAsk (RemoteAddr c) (\<lambda>_. HDo (Logged (str ''heartbeat received'')) HReturn))"

text \<open>\<^verbatim>\<open>main\<close> up to \<^verbatim>\<open>Serve\<close>; \<^const>\<open>Inl\<close> is the error with which \<^verbatim>\<open>fatal\<close> ends the program.\<close>

fun add_routes :: "(u32 \<times> app_handler) list \<Rightarrow> 'c app_server \<Rightarrow> go_error + 'c app_server" where
  "add_routes [] s = Inr s"
| "add_routes ((i, h) # rs) s =
     (case Server_AddRouterSlices i [h] s of (Inl e, _) \<Rightarrow> Inl e | (Inr _, s') \<Rightarrow> add_routes rs s')"

definition local_config :: Config where
  "local_config = Default\<lparr>Host := str ''127.0.0.1'', Port := 8999\<rparr>"

definition start_beats :: "go_error + 'c app_server \<Rightarrow> go_error + 'c app_server" where
  "start_beats r = map_sum id (StartHeartBeat HeartBeatDefaultHandle (10 * Second)) r"

section \<open>Authentication\<close>

definition msgAuth :: u32 where "msgAuth = 0"
definition msgPing :: u32 where "msgPing = 1"
definition msgPong :: u32 where "msgPong = 2"
definition msgNotice :: u32 where "msgNotice = 3"

definition token :: bytes where
  "token = str ''secret''"

definition auth_middleware :: app_handler where
  "auth_middleware = with_msg (\<lambda>m.
     if Id m = msgAuth then HNext HReturn
     else HGetConnection (\<lambda>c. HAsk (GetProp c (str ''authed'')) (\<lambda>v.
       if v = VProp (Some True) then HNext HReturn
       else send_then msgNotice (str ''unauthorized'') (HAbort HReturn))))"

definition auth_handler :: app_handler where
  "auth_handler = with_msg (\<lambda>m.
     if Data m = token
     then HGetConnection (\<lambda>c. HDo (SetProp c (str ''authed'') True) (send_then msgNotice (str ''authorized'') HReturn))
     else send_then msgNotice (str ''bad token'') HReturn)"

definition ping_handler :: app_handler where
  "ping_handler = with_msg (\<lambda>m. send_then msgPong (Data m) HReturn)"

definition auth_server :: "(TLVPack \<Rightarrow> 'c) \<Rightarrow> go_error + 'c app_server" where
  "auth_server tlv =
     start_beats (add_routes [(msgAuth, auth_handler), (msgPing, ping_handler)]
       (Server_Use [auth_middleware] (NewServer tlv (\<lambda>_. local_config) [WithConfig 0])))"

section \<open>Echo\<close>

definition log_middleware :: app_handler where
  "log_middleware = with_msg (\<lambda>_. HGetConnection (\<lambda>c. HAsk (RemoteAddr c) (\<lambda>_. HDo (Logged (str ''message received'')) (HNext HReturn))))"

definition timing_middleware :: app_handler where
  "timing_middleware = HAsk Now (\<lambda>_. HNext (with_msg (\<lambda>_. HAsk Now (\<lambda>_. HDo (Logged (str ''handled'')) HReturn))))"

definition echo_handler :: app_handler where
  "echo_handler = with_msg (\<lambda>m. HDo (Logged (str ''echo'')) (HGetConnection (\<lambda>c. HAsk (SendTo c 2 (Data m)) (\<lambda>v.
     if v = VErr None then HReturn else HDo (Logged (str ''send pong failed'')) HReturn))))"

definition echo_server :: "(TLVPack \<Rightarrow> 'c) \<Rightarrow> go_error + 'c app_server" where
  "echo_server tlv =
     start_beats (add_routes [(1, echo_handler)]
       (Server_Use [timing_middleware] (Server_Use [log_middleware] (NewServer tlv (\<lambda>_. local_config) [WithConfig 0]))))"

text \<open>The client sends three pings, and compares the answers, \<^const>\<open>None\<close> being a timeout.\<close>

definition ping_text :: "nat \<Rightarrow> bytes" where
  "ping_text i = str ''ping-'' @ digits_of i"

datatype echo_result = EchoOK | UnexpectedPong bytes bytes | EchoTimeout

fun echo_check :: "nat list \<Rightarrow> bytes option list \<Rightarrow> echo_result" where
  "echo_check [] rs = EchoOK"
| "echo_check (i # is) (Some d # rs) = (if d \<noteq> ping_text i then UnexpectedPong d (ping_text i) else echo_check is rs)"
| "echo_check (i # is) _ = EchoTimeout"

section \<open>Chat room\<close>

fun send_all :: "bytes \<Rightarrow> u64 list \<Rightarrow> app_handler \<Rightarrow> app_handler" where
  "send_all d [] k = k"
| "send_all d (c # cs) k = HAsk (SendTo c 2 d) (\<lambda>_. send_all d cs k)"

definition broadcast_handler :: "Message \<Rightarrow> app_handler" where
  "broadcast_handler m = HAsk ListConns (\<lambda>v. case v of VConns cs \<Rightarrow> send_all (Data m) cs HReturn | _ \<Rightarrow> HReturn)"

definition chat_handler :: app_handler where
  "chat_handler = with_msg (\<lambda>m. HGetConnection (\<lambda>c. HAsk (RemoteAddr c) (\<lambda>_. HDo (Logged (str ''chat'')) (broadcast_handler m))))"

definition chat_server :: "(TLVPack \<Rightarrow> 'c) \<Rightarrow> nat \<Rightarrow> nat \<Rightarrow> go_error + 'c app_server" where
  "chat_server tlv joined left =
     start_beats (add_routes [(1, chat_handler)]
       (SetOnConnStop (Some left) (SetOnConnStart (Some joined) (NewServer tlv (\<lambda>_. local_config) [WithConfig 0]))))"

section \<open>MCP bridge\<close>

text \<open>\<open>env\<close> is \<^verbatim>\<open>os.Getenv\<close>, empty for a variable that is not set.\<close>

definition envOr :: "(bytes \<Rightarrow> bytes) \<Rightarrow> bytes \<Rightarrow> bytes \<Rightarrow> bytes" where
  "envOr env key def = (if env key \<noteq> [] then env key else def)"

definition envInt :: "(bytes \<Rightarrow> bytes) \<Rightarrow> bytes \<Rightarrow> int \<Rightarrow> int" where
  "envInt env key def = (if env key \<noteq> [] then (case Atoi (env key) of Some n \<Rightarrow> n | None \<Rightarrow> def) else def)"

definition bridge_config :: "(bytes \<Rightarrow> bytes) \<Rightarrow> Config" where
  "bridge_config env = Default\<lparr>Host := envOr env (str ''KINZ_HOST'') (str ''127.0.0.1''), Port := envInt env (str ''KINZ_PORT'') 8999\<rparr>"

definition bridge_server :: "(TLVPack \<Rightarrow> 'c) \<Rightarrow> (bytes \<Rightarrow> bytes) \<Rightarrow> go_error + 'c app_server" where
  "bridge_server tlv env = add_routes [(1, with_msg broadcast_handler)] (NewServer tlv (\<lambda>_. bridge_config env) [WithConfig 0])"

section \<open>Runs of an application\<close>

text \<open>
  Requests are executed one after the other, as by one worker. \<open>past\<close> is everything done so far; a property reads as last set,
  and \<open>outer\<close> answers the rest.
\<close>

fun prop_of :: "app_effect list \<Rightarrow> u64 \<Rightarrow> bytes \<Rightarrow> bool option" where
  "prop_of [] c k = None"
| "prop_of (SetProp c' k' v # es) c k = (case prop_of es c k of Some w \<Rightarrow> Some w | None \<Rightarrow> if c' = c \<and> k' = k then Some v else None)"
| "prop_of (_ # es) c k = prop_of es c k"

fun answer :: "(app_effect list \<Rightarrow> app_effect \<Rightarrow> app_value) \<Rightarrow> app_effect list \<Rightarrow> app_effect event list \<Rightarrow> app_effect \<Rightarrow> app_value" where
  "answer outer past tr (GetProp c k) = VProp (prop_of (past @ effects tr) c k)"
| "answer outer past tr e = outer (past @ effects tr) e"

definition app_step ::
  "(app_effect list \<Rightarrow> app_effect \<Rightarrow> app_value) \<Rightarrow> nat \<Rightarrow> (app_value, app_effect) MsgHandler \<Rightarrow>
   u64 \<times> Message \<Rightarrow> app_effect list option \<Rightarrow> app_effect list option" where
  "app_step outer fuel h cm past =
     (case past of None \<Rightarrow> None
      | Some es \<Rightarrow> (case Execute (answer outer es) fuel h (NewRequest (fst cm) (Some (snd cm))) of
                      Some (Ret (h', r, tr)) \<Rightarrow> Some (es @ effects tr) | _ \<Rightarrow> None))"

definition app_run ::
  "(app_effect list \<Rightarrow> app_effect \<Rightarrow> app_value) \<Rightarrow> nat \<Rightarrow> (app_value, app_effect) MsgHandler \<Rightarrow> (u64 \<times> Message) list \<Rightarrow> app_effect list option" where
  "app_run outer fuel h ms = fold (app_step outer fuel h) ms (Some [])"

section \<open>What the handlers do\<close>

lemmas setup_defs = NewServer_def setup_options_def new_server_def init_pool_def SetMetrics_def NewMsgHandler_def Server_Use_def Use_def
  Server_AddRouterSlices_def AddRouterSlices_def addSlices_def set_handler_def start_beats_def StartHeartBeat_def SetHeartBeatWithOption_def
  store_template_def server_template_def hb_SetMetrics_def apply_option_def NewHeartbeatChecker_def Let_def

lemma auth_table:
  assumes "auth_server tlv = Inr s"
  shows "globalHandlers (mh (pool s)) = [auth_middleware]" "groupRanges (mh (pool s)) = []"
    "apis (mh (pool s)) = [msgAuth \<mapsto> [auth_handler], msgPing \<mapsto> [ping_handler], HeartBeatDefaultMsgID \<mapsto> [HeartBeatDefaultHandle]]"
  using assms by (auto simp: auth_server_def setup_defs msgAuth_def msgPing_def HeartBeatDefaultMsgID_def)

lemma auth_server_starts: "\<exists>s. auth_server tlv = Inr s"
  by (simp add: auth_server_def setup_defs msgAuth_def msgPing_def)

lemma chain_simps: "chain_of i h = globalHandlers h @ group_handlers i (groupRanges h) @ (case apis h i of None \<Rightarrow> [] | Some hs \<Rightarrow> hs)"
  by (simp add: chain_of_def split: option.split)

text \<open>What one request does, given whether its connection is authenticated.\<close>

definition auth_effects :: "bool \<Rightarrow> u64 \<Rightarrow> Message \<Rightarrow> app_effect list" where
  "auth_effects authed c m =
     (if Id m = msgAuth
      then (if Data m = token then [SetProp c (str ''authed'') True, SendTo c msgNotice (str ''authorized'')] else [SendTo c msgNotice (str ''bad token'')])
      else GetProp c (str ''authed'') #
        (if \<not> authed then [SendTo c msgNotice (str ''unauthorized'')]
         else if Id m = msgPing then [SendTo c msgPong (Data m)]
         else if Id m = HeartBeatDefaultMsgID then [RemoteAddr c, Logged (str ''heartbeat received'')]
         else []))"

lemma auth_exec:
  assumes "auth_server tlv = Inr s" and "3 \<le> fuel"
  shows "\<exists>h' r tr. Execute (answer outer es) fuel (mh (pool s)) (NewRequest c (Some m)) = Some (Ret (h', r, tr)) \<and>
    effects tr = auth_effects (prop_of es c (str ''authed'') = Some True) c m"
proof -
  obtain n where n: "fuel = Suc (Suc (Suc n))" using assms(2) by (metis Suc_le_D numeral_3_eq_3 Suc_le_mono)
  have ids: "msgPing \<noteq> msgAuth" "HeartBeatDefaultMsgID \<noteq> msgAuth" "HeartBeatDefaultMsgID \<noteq> msgPing"
    by (simp_all add: msgAuth_def msgPing_def HeartBeatDefaultMsgID_def)
  consider "Id m = msgAuth" | "Id m = msgPing" | "Id m = HeartBeatDefaultMsgID" | "Id m \<noteq> msgAuth" "Id m \<noteq> msgPing" "Id m \<noteq> HeartBeatDefaultMsgID"
    by blast
  then show ?thesis
    using ids by cases (simp_all add: Execute_def GetMsgID_def registered_def auth_table [OF assms(1)] chain_simps n BindRouterSlices_def NewRequest_def
        auth_middleware_def auth_handler_def ping_handler_def HeartBeatDefaultHandle_def with_msg_def send_then_def Abort_def auth_effects_def)
qed

text \<open>A connection is authenticated exactly when it has sent the token.\<close>

definition tokened :: "u64 \<Rightarrow> (u64 \<times> Message) list \<Rightarrow> bool" where
  "tokened c ms \<longleftrightarrow> (\<exists>m. (c, m) \<in> set ms \<and> Id m = msgAuth \<and> Data m = token)"

lemma prop_of_append: "prop_of (es @ es') c k = (case prop_of es' c k of Some w \<Rightarrow> Some w | None \<Rightarrow> prop_of es c k)"
  by (induction es c k rule: prop_of.induct) (auto split: option.splits)

lemma prop_auth: "prop_of (auth_effects a c' m) c (str ''authed'') = (if c' = c \<and> Id m = msgAuth \<and> Data m = token then Some True else None)"
  by (simp add: auth_effects_def)

lemma pong_auth: "SendTo c msgPong d \<in> set (auth_effects a c' m) \<Longrightarrow> a \<and> c' = c"
  by (auto simp: auth_effects_def msgPong_def msgNotice_def split: if_splits)

lemma app_run_snoc: "app_run outer fuel h (ms @ [cm]) = app_step outer fuel h cm (app_run outer fuel h ms)"
  by (simp add: app_run_def)

lemma auth_run:
  assumes "auth_server tlv = Inr s" and "3 \<le> fuel"
  shows "\<exists>es. app_run outer fuel (mh (pool s)) ms = Some es \<and> (\<forall>c. prop_of es c (str ''authed'') = (if tokened c ms then Some True else None)) \<and>
    (\<forall>c d. SendTo c msgPong d \<in> set es \<longrightarrow> tokened c ms)"
proof (induction ms rule: rev_induct)
  case Nil
  show ?case by (simp add: app_run_def tokened_def)
next
  case (snoc cm ms)
  obtain c' m where cm: "cm = (c', m)" by (cases cm)
  from snoc obtain es where es: "app_run outer fuel (mh (pool s)) ms = Some es"
    "\<And>c. prop_of es c (str ''authed'') = (if tokened c ms then Some True else None)" "\<And>c d. SendTo c msgPong d \<in> set es \<Longrightarrow> tokened c ms" by blast
  from auth_exec [OF assms, of outer es c' m] es(2)
  have run: "app_run outer fuel (mh (pool s)) (ms @ [cm]) = Some (es @ auth_effects (tokened c' ms) c' m)"
    unfolding app_run_snoc app_step_def es(1) cm by (auto split: if_splits)
  have tok: "tokened c (ms @ [cm]) \<longleftrightarrow> tokened c ms \<or> c' = c \<and> Id m = msgAuth \<and> Data m = token" for c
    by (auto simp: tokened_def cm)
  show ?case unfolding run tok
    using es(2,3) by (auto simp: prop_of_append prop_auth dest!: pong_auth split: if_splits)
qed

lemma auth_next:
  assumes "auth_server tlv = Inr s" and "3 \<le> fuel" and "app_run outer fuel (mh (pool s)) ms = Some es"
  shows "app_run outer fuel (mh (pool s)) (ms @ [(c, m)]) = Some (es @ auth_effects (tokened c ms) c m)"
proof -
  have "prop_of es c (str ''authed'') = (if tokened c ms then Some True else None)"
    using auth_run [OF assms(1,2), of outer ms] assms(3) by auto
  with auth_exec [OF assms(1,2), of outer es c m] show ?thesis
    unfolding app_run_snoc app_step_def assms(3) by (auto split: if_splits)
qed

section \<open>Properties\<close>

text \<open>
  C40: the authentication example serves nobody without the token. Executing any sequence of requests, it serves a
  further request of a connection as an authenticated one exactly when that connection has sent the token before (a ping
  is answered with its data), and as an unauthenticated one otherwise (any message but the token gets a notice and no
  handler runs); so a pong was only ever sent to connections that had sent the token.
\<close>

theorem auth_gate:
  assumes "auth_server tlv = Inr s" and "3 \<le> fuel"
  shows "\<exists>es. app_run outer fuel (mh (pool s)) ms = Some es \<and>
           app_run outer fuel (mh (pool s)) (ms @ [(c, m)]) = Some (es @ auth_effects (tokened c ms) c m) \<and>
           (\<forall>c d. SendTo c msgPong d \<in> set es \<longrightarrow> tokened c ms)"
proof -
  from auth_run [OF assms, of outer ms] obtain es where es: "app_run outer fuel (mh (pool s)) ms = Some es"
    "\<And>c d. SendTo c msgPong d \<in> set es \<Longrightarrow> tokened c ms" by blast
  with auth_next [OF assms es(1)] show ?thesis by blast
qed

theorem auth_gate_witness:
  "\<exists>s es. auth_server id = Inr (s :: TLVPack app_server) \<and>
     app_run (\<lambda>_ _. VErr None) 3 (mh (pool s)) [(1, NewMessage msgAuth token)] = Some es \<and>
     app_run (\<lambda>_ _. VErr None) 3 (mh (pool s)) [(1, NewMessage msgAuth token), (1, NewMessage msgPing [104, 105])] =
       Some (es @ [GetProp 1 (str ''authed''), SendTo 1 msgPong [104, 105]])"
proof -
  obtain s :: "TLVPack app_server" where s: "auth_server id = Inr s" using auth_server_starts by blast
  have "tokened 1 [(1, NewMessage msgAuth token)]" by (simp add: tokened_def NewMessage_def)
  with auth_gate [OF s order_refl, of "\<lambda>_ _. VErr None" "[(1, NewMessage msgAuth token)]" 1 "NewMessage msgPing [104, 105]"] s
  show ?thesis by (auto simp: auth_effects_def NewMessage_def msgPing_def msgAuth_def)
qed

text \<open>The echo server wraps the reply into the log lines of its middleware, in onion order, and logs a failed send.\<close>

lemma echo_table:
  assumes "echo_server tlv = Inr s"
  shows "globalHandlers (mh (pool s)) = [log_middleware, timing_middleware]" "groupRanges (mh (pool s)) = []"
    "apis (mh (pool s)) = [1 \<mapsto> [echo_handler], HeartBeatDefaultMsgID \<mapsto> [HeartBeatDefaultHandle]]"
  using assms by (auto simp: echo_server_def setup_defs HeartBeatDefaultMsgID_def)

lemma echo_exec:
  assumes "echo_server tlv = Inr s" and "4 \<le> fuel" and "Id m = 1"
  shows "\<exists>h' r tr ok. Execute ans fuel (mh (pool s)) (NewRequest c (Some m)) = Some (Ret (h', r, tr)) \<and>
    effects tr = [RemoteAddr c, Logged (str ''message received''), Now, Logged (str ''echo''), SendTo c 2 (Data m)] @
      (if ok then [] else [Logged (str ''send pong failed'')]) @ [Now, Logged (str ''handled'')]"
proof -
  obtain n where n: "fuel = Suc (Suc (Suc (Suc n)))" using le_Suc_ex [OF assms(2)] by (auto simp: eval_nat_numeral)
  show ?thesis
    using assms(3) by (auto simp: Execute_def GetMsgID_def registered_def echo_table [OF assms(1)] chain_simps n BindRouterSlices_def NewRequest_def
        log_middleware_def timing_middleware_def echo_handler_def with_msg_def HeartBeatDefaultMsgID_def)
qed

text \<open>The client accepts exactly the pongs that the echo server sends for its pings, in their order.\<close>

lemma echo_check_ok: "echo_check is (map Some ds) = EchoOK \<longleftrightarrow> take (length is) ds = map ping_text is"
  by (induction "is" "map Some ds" arbitrary: ds rule: echo_check.induct) (auto split: if_splits)

text \<open>A chat message goes once to every connection of the snapshot.\<close>

lemma send_all_exec: "exec_handler ans nxt (send_all d cs k) r tr = exec_handler ans nxt k r (tr @ map (\<lambda>c. Effect (SendTo c 2 d)) cs)"
  by (induction cs arbitrary: tr) simp_all

lemma effects_sends: "effects (map (\<lambda>c. Effect (SendTo c 2 d)) cs) = map (\<lambda>c. SendTo c 2 d) cs"
  by (induction cs) simp_all

lemma chat_exec:
  assumes "ans tr ListConns = VConns cs" and "msg r = Some m"
  shows "\<exists>tr'. exec_handler ans nxt (broadcast_handler m) r tr = Done r tr' \<and> effects tr' = effects tr @ [ListConns] @ map (\<lambda>c. SendTo c 2 (Data m)) cs"
  using assms by (simp add: broadcast_handler_def send_all_exec effects_sends)

text \<open>The bridge takes its address from the environment where it is set and valid, and says nothing about a port that is not a number.\<close>

lemma bridge_port:
  "in_int64 n \<Longrightarrow> env (str ''KINZ_PORT'') = itoa n \<Longrightarrow> itoa n \<noteq> [] \<Longrightarrow> Port (bridge_config env) = n"
  "Atoi (env (str ''KINZ_PORT'')) = None \<Longrightarrow> Port (bridge_config env) = 8999"
  by (simp_all add: bridge_config_def envInt_def Atoi_itoa)

end
