(* ===== verification/Kinz_Logger.thy ===== *)
theory Kinz_Logger
  imports Kinz_Prelude
begin

text \<open>
  The logger of \<^verbatim>\<open>src/klog/log.go\<close> and \<^verbatim>\<open>ilog.go\<close>, after the part of the standard library's \<^verbatim>\<open>log/slog\<close> that it uses: handlers with
  the level they ask for, loggers, and arguments paired into attributes. How a record is formatted (it has the time and possibly
  the source line) is a parameter.
\<close>

section \<open>The standard library\<close>

text \<open>An argument of type \<^verbatim>\<open>any\<close>: a string, an attribute, or anything else; and the pairing of \<^verbatim>\<open>slog.argsToAttr\<close>.\<close>

datatype 'a log_arg = ArgString bytes | ArgAttr bytes "'a log_arg" | ArgAny 'a

type_synonym 'a attr = "bytes \<times> 'a log_arg"

definition badKey :: bytes where
  "badKey = str ''!BADKEY''"

fun argsToAttrs :: "'a log_arg list \<Rightarrow> 'a attr list" where
  "argsToAttrs [] = []"
| "argsToAttrs [ArgString x] = [(badKey, ArgString x)]"
| "argsToAttrs (ArgString k # v # as) = (k, v) # argsToAttrs as"
| "argsToAttrs (ArgAttr k v # as) = (k, v) # argsToAttrs as"
| "argsToAttrs (ArgAny x # as) = (badKey, ArgAny x) # argsToAttrs as"

record 'a log_record =
  rlevel :: int
  rmsg :: bytes
  rattrs :: "'a attr list"

text \<open>
  A handler names the \<^verbatim>\<open>LevelVar\<close> it asks for its level by the position in \<open>levelVars\<close>; \<^typ>\<open>'o\<close> are the writers, each with the
  sequence of what was written to it, one write per record. A \<^verbatim>\<open>slog.Logger\<close> is its handler.
\<close>

record ('a, 'o) slog_logger =
  leveler :: nat
  json :: bool
  addSource :: bool
  dest :: 'o
  attrs :: "'a attr list"

text \<open>A logger of the framework: the field \<^verbatim>\<open>l\<close> is \<open>slog\<close>; \<open>defaultLogger\<close> is the variable of the package.\<close>

record ('a, 'o) Logger =
  slog :: "('a, 'o) slog_logger"
  levelVar :: nat

record ('a, 'o) log_world =
  levelVars :: "int list"
  emitted :: "'o \<Rightarrow> bytes list"
  defaultLogger :: "('a, 'o) Logger option"

text \<open>
  \<^verbatim>\<open>slog.Logger.log\<close>: nothing below the level of the handler, otherwise one write of the formatted record; \<open>format\<close> gets the kind
  of handler and whether it adds the source. \<^verbatim>\<open>slog.Logger.With\<close> copies the handler and adds attributes.
\<close>

type_synonym 'a formatter = "bool \<Rightarrow> bool \<Rightarrow> 'a log_record \<Rightarrow> bytes"

definition slog_log ::
  "'a formatter \<Rightarrow> int \<Rightarrow> bytes \<Rightarrow> 'a log_arg list \<Rightarrow> ('a, 'o) slog_logger \<Rightarrow> ('a, 'o) log_world \<Rightarrow> ('a, 'o) log_world" where
  "slog_log format lv m args sl w =
     (if lv < levelVars w ! leveler sl then w
      else w\<lparr>emitted := (emitted w)(dest sl := emitted w (dest sl) @
              [format (json sl) (addSource sl) \<lparr>rlevel = lv, rmsg = m, rattrs = attrs sl @ argsToAttrs args\<rparr>])\<rparr>)"

definition slog_With :: "'a log_arg list \<Rightarrow> ('a, 'o) slog_logger \<Rightarrow> ('a, 'o) slog_logger" where
  "slog_With fs sl = sl\<lparr>attrs := attrs sl @ argsToAttrs fs\<rparr>"

definition slog_LevelDebug :: int where "slog_LevelDebug = - 4"
definition slog_LevelInfo :: int where "slog_LevelInfo = 0"
definition slog_LevelWarn :: int where "slog_LevelWarn = 4"
definition slog_LevelError :: int where "slog_LevelError = 8"

definition slog_Debug where "slog_Debug format = slog_log format slog_LevelDebug"
definition slog_Info where "slog_Info format = slog_log format slog_LevelInfo"
definition slog_Warn where "slog_Warn format = slog_log format slog_LevelWarn"
definition slog_Error where "slog_Error format = slog_log format slog_LevelError"

section \<open>Loggers\<close>

definition LevelDebug :: int where "LevelDebug = slog_LevelDebug"
definition LevelInfo :: int where "LevelInfo = slog_LevelInfo"
definition LevelWarn :: int where "LevelWarn = slog_LevelWarn"
definition LevelError :: int where "LevelError = slog_LevelError"

record 'o Options =
  Level :: int
  JSON :: bool
  AddSource :: bool
  Output :: "'o option"

text \<open>\<open>stdout\<close> is \<^verbatim>\<open>os.Stdout\<close>.\<close>

definition New :: "'o \<Rightarrow> 'o Options \<Rightarrow> ('a, 'o) log_world \<Rightarrow> ('a, 'o) Logger \<times> ('a, 'o) log_world" where
  "New stdout opts w =
     (let out = (case Output opts of None \<Rightarrow> stdout | Some o' \<Rightarrow> o');
          lv = length (levelVars w);
          handler = \<lparr>leveler = lv, json = JSON opts, addSource = AddSource opts, dest = out, attrs = []\<rparr>
      in (\<lparr>slog = handler, levelVar = lv\<rparr>, w\<lparr>levelVars := levelVars w @ [Level opts]\<rparr>))"

definition SetLevel :: "int \<Rightarrow> ('a, 'o) Logger \<Rightarrow> ('a, 'o) log_world \<Rightarrow> ('a, 'o) log_world" where
  "SetLevel lv lg w = w\<lparr>levelVars := (levelVars w)[levelVar lg := lv]\<rparr>"

type_synonym ('a, 'o) log_method = "bytes \<Rightarrow> 'a log_arg list \<Rightarrow> ('a, 'o) Logger \<Rightarrow> ('a, 'o) log_world \<Rightarrow> ('a, 'o) log_world"

definition Debug :: "'a formatter \<Rightarrow> ('a, 'o) log_method" where
  "Debug format m args lg = slog_Debug format m args (slog lg)"

definition Info :: "'a formatter \<Rightarrow> ('a, 'o) log_method" where
  "Info format m args lg = slog_Info format m args (slog lg)"

definition Warn :: "'a formatter \<Rightarrow> ('a, 'o) log_method" where
  "Warn format m args lg = slog_Warn format m args (slog lg)"

definition Error :: "'a formatter \<Rightarrow> ('a, 'o) log_method" where
  "Error format m args lg = slog_Error format m args (slog lg)"

text \<open>\<open>sprintf\<close> is \<^verbatim>\<open>fmt.Sprintf\<close>.\<close>

definition InfoF :: "'a formatter \<Rightarrow> (bytes \<Rightarrow> 'a log_arg list \<Rightarrow> bytes) \<Rightarrow> ('a, 'o) log_method" where
  "InfoF format sprintf f args lg = slog_Info format (sprintf f args) [] (slog lg)"

definition ErrorF :: "'a formatter \<Rightarrow> (bytes \<Rightarrow> 'a log_arg list \<Rightarrow> bytes) \<Rightarrow> ('a, 'o) log_method" where
  "ErrorF format sprintf f args lg = slog_Error format (sprintf f args) [] (slog lg)"

definition With :: "'a log_arg list \<Rightarrow> ('a, 'o) Logger \<Rightarrow> ('a, 'o) Logger" where
  "With fs lg = \<lparr>slog = slog_With fs (slog lg), levelVar = levelVar lg\<rparr>"

section \<open>The default logger\<close>

definition SetDefault :: "('a, 'o) Logger option \<Rightarrow> ('a, 'o) log_world \<Rightarrow> ('a, 'o) log_world" where
  "SetDefault l w = w\<lparr>defaultLogger := l\<rparr>"

text \<open>The variables of the package when the program starts.\<close>

definition init_log :: "'o \<Rightarrow> ('a, 'o) log_world" where
  "init_log stdout =
     (let (l, w) = New stdout \<lparr>Level = 0, JSON = False, AddSource = False, Output = None\<rparr>
                     \<lparr>levelVars = [], emitted = (\<lambda>_. []), defaultLogger = None\<rparr>
      in SetDefault (Some l) w)"

text \<open>A package-level call delegates to the default logger; a method of a nil interface panics.\<close>

definition on_default :: "(('a, 'o) Logger \<Rightarrow> ('a, 'o) log_world \<Rightarrow> ('a, 'o) log_world) \<Rightarrow> ('a, 'o) log_world \<Rightarrow> ('a, 'o) log_world outcome" where
  "on_default f w = (case defaultLogger w of None \<Rightarrow> Panic | Some l \<Rightarrow> Ret (f l w))"

section \<open>Many loggers\<close>

text \<open>
  A program with several loggers, made one after the other, and calls on them and on loggers derived from them by any number of
  \<^verbatim>\<open>With\<close>: \<open>Call i path c\<close> is a logging call on the logger derived from logger \<open>i\<close> along \<open>path\<close>, \<open>Adjust i path lv\<close> a \<^verbatim>\<open>SetLevel\<close>
  on it.
\<close>

fun New_all :: "'o \<Rightarrow> 'o Options list \<Rightarrow> ('a, 'o) log_world \<Rightarrow> ('a, 'o) Logger list \<times> ('a, 'o) log_world" where
  "New_all stdout [] w = ([], w)"
| "New_all stdout (opts # os) w =
     (let (lg, w1) = New stdout opts w; (lgs, w2) = New_all stdout os w1 in (lg # lgs, w2))"

datatype 'a log_call =
    CallDebug bytes "'a log_arg list" | CallInfo bytes "'a log_arg list" | CallWarn bytes "'a log_arg list" | CallError bytes "'a log_arg list"
  | CallInfoF bytes "'a log_arg list" | CallErrorF bytes "'a log_arg list"

datatype 'a log_op = Call nat "'a log_arg list list" "'a log_call" | Adjust nat "'a log_arg list list" int

definition derive :: "'a log_arg list list \<Rightarrow> ('a, 'o) Logger \<Rightarrow> ('a, 'o) Logger" where
  "derive fss lg = fold With fss lg"

fun run_log_call ::
  "'a formatter \<Rightarrow> (bytes \<Rightarrow> 'a log_arg list \<Rightarrow> bytes) \<Rightarrow> 'a log_call \<Rightarrow> ('a, 'o) Logger \<Rightarrow> ('a, 'o) log_world \<Rightarrow> ('a, 'o) log_world" where
  "run_log_call format sprintf (CallDebug m args) lg = Debug format m args lg"
| "run_log_call format sprintf (CallInfo m args) lg = Info format m args lg"
| "run_log_call format sprintf (CallWarn m args) lg = Warn format m args lg"
| "run_log_call format sprintf (CallError m args) lg = Error format m args lg"
| "run_log_call format sprintf (CallInfoF f args) lg = InfoF format sprintf f args lg"
| "run_log_call format sprintf (CallErrorF f args) lg = ErrorF format sprintf f args lg"

fun run_log_op ::
  "'a formatter \<Rightarrow> (bytes \<Rightarrow> 'a log_arg list \<Rightarrow> bytes) \<Rightarrow> ('a, 'o) Logger list \<Rightarrow> 'a log_op \<Rightarrow> ('a, 'o) log_world \<Rightarrow> ('a, 'o) log_world" where
  "run_log_op format sprintf lgs (Call i path c) w = run_log_call format sprintf c (derive path (lgs ! i)) w"
| "run_log_op format sprintf lgs (Adjust i path lv) w = SetLevel lv (derive path (lgs ! i)) w"

text \<open>
  What is to be written, from the calls alone. The severity of a call, its message and its own attributes; the level of a family
  of loggers after some calls is the last one set through any of its members, or the one it was made with.
\<close>

fun severity :: "'a log_call \<Rightarrow> int" where
  "severity (CallDebug m as) = - 4" | "severity (CallInfo m as) = 0" | "severity (CallWarn m as) = 4" | "severity (CallError m as) = 8"
| "severity (CallInfoF f as) = 0" | "severity (CallErrorF f as) = 8"

fun message :: "(bytes \<Rightarrow> 'a log_arg list \<Rightarrow> bytes) \<Rightarrow> 'a log_call \<Rightarrow> bytes \<times> 'a attr list" where
  "message sprintf (CallDebug m as) = (m, argsToAttrs as)" | "message sprintf (CallInfo m as) = (m, argsToAttrs as)"
| "message sprintf (CallWarn m as) = (m, argsToAttrs as)" | "message sprintf (CallError m as) = (m, argsToAttrs as)"
| "message sprintf (CallInfoF f as) = (sprintf f as, [])" | "message sprintf (CallErrorF f as) = (sprintf f as, [])"

definition levels_set :: "nat \<Rightarrow> 'a log_op list \<Rightarrow> int list" where
  "levels_set i ops = concat (map (\<lambda>op. case op of Adjust j path lv \<Rightarrow> if j = i then [lv] else [] | _ \<Rightarrow> []) ops)"

definition level_after :: "'o Options list \<Rightarrow> nat \<Rightarrow> 'a log_op list \<Rightarrow> int" where
  "level_after optss i ops = last (Level (optss ! i) # levels_set i ops)"

definition output_of :: "'o \<Rightarrow> 'o Options \<Rightarrow> 'o" where
  "output_of stdout opts = (case Output opts of None \<Rightarrow> stdout | Some o' \<Rightarrow> o')"

definition line_of ::
  "'o \<Rightarrow> 'a formatter \<Rightarrow> (bytes \<Rightarrow> 'a log_arg list \<Rightarrow> bytes) \<Rightarrow> 'o Options list \<Rightarrow> 'o \<Rightarrow> 'a log_op list \<Rightarrow> 'a log_op \<Rightarrow> bytes list" where
  "line_of stdout format sprintf optss out before op =
     (case op of
        Adjust i path lv \<Rightarrow> []
      | Call i path c \<Rightarrow>
          if output_of stdout (optss ! i) = out \<and> level_after optss i before \<le> severity c
          then [format (JSON (optss ! i)) (AddSource (optss ! i))
                  \<lparr>rlevel = severity c, rmsg = fst (message sprintf c), rattrs = concat (map argsToAttrs path) @ snd (message sprintf c)\<rparr>]
          else [])"

definition lines_of ::
  "'o \<Rightarrow> 'a formatter \<Rightarrow> (bytes \<Rightarrow> 'a log_arg list \<Rightarrow> bytes) \<Rightarrow> 'o Options list \<Rightarrow> 'o \<Rightarrow> 'a log_op list \<Rightarrow> bytes list" where
  "lines_of stdout format sprintf optss out ops =
     concat (map (\<lambda>n. line_of stdout format sprintf optss out (take n ops) (ops ! n)) [0..<length ops])"

lemma lines_of_snoc [simp]:
  "lines_of stdout format sprintf optss out [] = []"
  "lines_of stdout format sprintf optss out (ops @ [op]) = lines_of stdout format sprintf optss out ops @ line_of stdout format sprintf optss out ops op"
proof -
  show "lines_of stdout format sprintf optss out [] = []" by (simp add: lines_of_def)
  let ?line = "\<lambda>ops n. line_of stdout format sprintf optss out (take n ops) (ops ! n)"
  have "concat (map (?line (ops @ [op])) [0..<length ops]) = concat (map (?line ops) [0..<length ops])"
    by (intro arg_cong [of _ _ concat] map_cong) (simp_all add: nth_append)
  then show "lines_of stdout format sprintf optss out (ops @ [op]) = lines_of stdout format sprintf optss out ops @ line_of stdout format sprintf optss out ops op"
    unfolding lines_of_def by (simp only: length_append_singleton upt_Suc_append [OF le0] map_append concat_append) simp
qed

lemma level_after_snoc [simp]:
  "level_after optss i [] = Level (optss ! i)"
  "level_after optss i (ops @ [Call j path c]) = level_after optss i ops"
  "level_after optss i (ops @ [Adjust j path lv]) = (if j = i then lv else level_after optss i ops)"
  by (simp_all add: level_after_def levels_set_def)

section \<open>The loggers\<close>

lemma derive_sel:
  "levelVar (derive fss lg) = levelVar lg" "slog (derive fss lg) = (slog lg)\<lparr>attrs := attrs (slog lg) @ concat (map argsToAttrs fss)\<rparr>"
  by (induction fss arbitrary: lg) (simp_all add: derive_def With_def slog_With_def)

lemma run_log_call_eq:
  "run_log_call format sprintf c lg w =
     (if severity c < levelVars w ! leveler (slog lg) then w
      else w\<lparr>emitted := (emitted w)(dest (slog lg) := emitted w (dest (slog lg)) @
              [format (json (slog lg)) (addSource (slog lg)) \<lparr>rlevel = severity c, rmsg = fst (message sprintf c), rattrs = attrs (slog lg) @ snd (message sprintf c)\<rparr>])\<rparr>)"
  by (cases c) (simp_all add: Debug_def Info_def Warn_def Error_def InfoF_def ErrorF_def slog_Debug_def slog_Info_def slog_Warn_def
      slog_Error_def slog_LevelDebug_def slog_LevelInfo_def slog_LevelWarn_def slog_LevelError_def slog_log_def)

text \<open>Every logger has a level of its own, which its handler asks for.\<close>

lemma New_all_sel:
  assumes "New_all stdout optss w = (lgs, w')"
  shows "length lgs = length optss" "levelVars w' = levelVars w @ map Level optss" "emitted w' = emitted w"
    and "i < length optss \<Longrightarrow> lgs ! i = \<lparr>slog = \<lparr>leveler = length (levelVars w) + i, json = JSON (optss ! i), addSource = AddSource (optss ! i),
           dest = output_of stdout (optss ! i), attrs = []\<rparr>, levelVar = length (levelVars w) + i\<rparr>"
proof -
  have "length lgs = length optss \<and> levelVars w' = levelVars w @ map Level optss \<and> emitted w' = emitted w \<and>
    (\<forall>i < length optss. lgs ! i = \<lparr>slog = \<lparr>leveler = length (levelVars w) + i, json = JSON (optss ! i), addSource = AddSource (optss ! i),
       dest = output_of stdout (optss ! i), attrs = []\<rparr>, levelVar = length (levelVars w) + i\<rparr>)"
    using assms
  proof (induction optss arbitrary: w lgs w')
    case (Cons opts os)
    obtain lgs' w2 where 2: "New_all stdout os (w\<lparr>levelVars := levelVars w @ [Level opts]\<rparr>) = (lgs', w2)"
      by (cases "New_all stdout os (w\<lparr>levelVars := levelVars w @ [Level opts]\<rparr>)") auto
    with Cons.IH [OF 2] Cons.prems show ?case
      by (auto simp: New_def Let_def output_of_def nth_Cons split: nat.splits)
  qed simp
  then show "length lgs = length optss" "levelVars w' = levelVars w @ map Level optss" "emitted w' = emitted w"
    and "i < length optss \<Longrightarrow> lgs ! i = \<lparr>slog = \<lparr>leveler = length (levelVars w) + i, json = JSON (optss ! i), addSource = AddSource (optss ! i),
           dest = output_of stdout (optss ! i), attrs = []\<rparr>, levelVar = length (levelVars w) + i\<rparr>"
    by blast+
qed

fun op_logger :: "'a log_op \<Rightarrow> nat" where
  "op_logger (Call i path c) = i"
| "op_logger (Adjust i path lv) = i"

lemma run_log_ops:
  assumes new: "New_all stdout optss w = (lgs, w0)" and "\<forall>op \<in> set ops. op_logger op < length optss"
  shows "levelVars (fold (run_log_op format sprintf lgs) ops w0) = levelVars w @ map (\<lambda>i. level_after optss i ops) [0..<length optss] \<and>
    (\<forall>out. emitted (fold (run_log_op format sprintf lgs) ops w0) out = emitted w out @ lines_of stdout format sprintf optss out ops)"
  using assms(2)
proof (induction ops rule: rev_induct)
  case Nil
  have "map Level optss = map (\<lambda>i. Level (optss ! i)) [0..<length optss]" by (intro nth_equalityI) simp_all
  then show ?case using New_all_sel(2,3) [OF new] by simp
next
  case (snoc op ops)
  let ?w = "fold (run_log_op format sprintf lgs) ops w0"
  have IH: "levelVars ?w = levelVars w @ map (\<lambda>i. level_after optss i ops) [0..<length optss]"
    "\<And>out. emitted ?w out = emitted w out @ lines_of stdout format sprintf optss out ops" using snoc by simp_all
  have i: "op_logger op < length optss" using snoc.prems by simp
  note lg = New_all_sel(4) [OF new i]
  show ?case
  proof (cases op)
    case (Call i path c)
    with i have lv: "levelVars ?w ! (length (levelVars w) + i) = level_after optss i ops" by (simp add: IH(1))
    show ?thesis using Call lg lv IH by (simp add: run_log_call_eq derive_sel line_of_def)
  next
    case (Adjust i path lv)
    then show ?thesis using i lg IH
      by (auto simp: SetLevel_def derive_sel line_of_def list_update_append intro!: nth_equalityI simp: nth_list_update)
  qed
qed

section \<open>Properties\<close>

text \<open>
  C39: many loggers. Make any number of loggers and let any sequence of calls be made on them and on loggers derived from them by
  \<^verbatim>\<open>With\<close>. Then every output receives, in the order of the calls, exactly one line for each logging call on a logger with that
  output whose severity, debug, information, warning or error by the method called, is at least the level last set through any
  member of its family, or else the level it was made with. A line has the severity, the message, formatted for \<^verbatim>\<open>InfoF\<close> and
  \<^verbatim>\<open>ErrorF\<close>, and the fields of its path in front of its own. Levels of different families do not affect each other.
\<close>

theorem logger_family:
  assumes "New_all stdout optss w = (lgs, w0)" and "\<forall>op \<in> set ops. op_logger op < length optss"
  shows "emitted (fold (run_log_op format sprintf lgs) ops w0) out = emitted w out @ lines_of stdout format sprintf optss out ops"
  using run_log_ops [OF assms] by blast

text \<open>Two loggers on the same output; the level of the second is lowered through a derived logger.\<close>

definition two_loggers :: "bool Options list" where
  "two_loggers = [\<lparr>Level = 0, JSON = False, AddSource = False, Output = None\<rparr>, \<lparr>Level = 4, JSON = False, AddSource = False, Output = Some True\<rparr>]"

definition demo_ops :: "unit log_op list" where
  "demo_ops = [Call 0 [] (CallDebug [65] []), Call 1 [] (CallInfo [66] []), Adjust 1 [[ArgString [1], ArgAny ()]] (- 4), Call 1 [] (CallInfo [67] []),
     Call 0 [] (CallDebug [68] []), Call 0 [] (CallWarn [69] [])]"

theorem logger_family_witness:
  "emitted (fold (run_log_op (\<lambda>_ _ r. rmsg r) (\<lambda>f _. f) (fst (New_all True two_loggers (init_log True)))) demo_ops
     (snd (New_all True two_loggers (init_log True)))) True = [[67], [69]]"
proof -
  have "lines_of True (\<lambda>_ _ r. rmsg r) (\<lambda>f _. f) two_loggers True demo_ops = [[67], [69]]"
    by (simp add: lines_of_def demo_ops_def two_loggers_def line_of_def output_of_def level_after_def levels_set_def upt_conv_Cons)
  moreover have "emitted (init_log True :: (unit, bool) log_world) True = []" by (simp add: init_log_def New_def SetDefault_def Let_def)
  moreover have "\<forall>op \<in> set demo_ops. op_logger op < length two_loggers" by (simp add: demo_ops_def two_loggers_def)
  ultimately show ?thesis using logger_family [OF surjective_pairing, of demo_ops two_loggers "\<lambda>_ _ r. rmsg r" "\<lambda>f _. f" True "init_log True" True] by simp
qed

end
