(* ===== verification/Kinz_Mcp.thy ===== *)
theory Kinz_Mcp
  imports Kinz_Metrics Kinz_Config Kinz_Ring Kinz_ConnManager
begin

text \<open>
  The MCP adapter of \<^verbatim>\<open>src/kmcp\<close>: authorization, argument decoding, the management tools and the resources. The Kinz
  server it is bound to is the interface record \<open>IServer\<close> over a world \<open>'w\<close>; JSON encoding and \<^verbatim>\<open>fmt\<close>'s \<^verbatim>\<open>%v\<close> are
  parameters, as is what the platform makes of a \<^verbatim>\<open>float64\<close> outside the range of \<^verbatim>\<open>uint64\<close>.
\<close>

section \<open>The server\<close>

text \<open>What the adapter calls of \<^verbatim>\<open>kiface.IServer\<close> and \<^verbatim>\<open>kiface.IConnection\<close>; addresses are their texts.\<close>

record ('c, 'w) IServer =
  srv_Name :: "'w \<Rightarrow> bytes"
  srv_Address :: "'w \<Rightarrow> bytes option"
  srv_ConnMgr :: "'w \<Rightarrow> 'c ConnManager"
  srv_Snapshot :: "'w \<Rightarrow> Snapshot"
  srv_Shutdown :: "int \<Rightarrow> 'w \<Rightarrow> go_error option \<times> 'w"
  conn_ID :: "'c \<Rightarrow> u64"
  conn_Remote :: "'c \<Rightarrow> bytes"
  conn_Local :: "'c \<Rightarrow> bytes"
  conn_SendMsg :: "'c \<Rightarrow> u32 \<Rightarrow> bytes \<Rightarrow> 'w \<Rightarrow> go_error option \<times> 'w"
  conn_Stop :: "'c \<Rightarrow> 'w \<Rightarrow> 'w"

text \<open>\<open>auth\<close> is the callback or nil; the ring is shared with the logger, so it is read from the world.\<close>

record ('c, 'w) McpServer =
  srv :: "('c, 'w) IServer"
  cfg :: "Config option"
  ring :: "('w \<Rightarrow> RingBuffer) option"
  auth :: "(bytes \<Rightarrow> go_error option) option"
  version :: bytes
  startTime :: int

type_synonym ('c, 'w) mcp_option = "('c, 'w) McpServer \<Rightarrow> ('c, 'w) McpServer"

definition WithConfig :: "Config option \<Rightarrow> ('c, 'w) mcp_option" where
  "WithConfig c s = s\<lparr>cfg := c\<rparr>"

definition WithLogRing :: "('w \<Rightarrow> RingBuffer) option \<Rightarrow> ('c, 'w) mcp_option" where
  "WithLogRing r s = s\<lparr>ring := r\<rparr>"

definition WithAuth :: "(bytes \<Rightarrow> go_error option) option \<Rightarrow> ('c, 'w) mcp_option" where
  "WithAuth f s = s\<lparr>auth := f\<rparr>"

definition WithVersion :: "bytes \<Rightarrow> ('c, 'w) mcp_option" where
  "WithVersion v s = s\<lparr>version := v\<rparr>"

definition mcp_NewServer :: "('c, 'w) IServer \<Rightarrow> int \<Rightarrow> ('c, 'w) mcp_option list \<Rightarrow> ('c, 'w) McpServer" where
  "mcp_NewServer k now opts =
     fold (\<lambda>opt s. opt s) opts \<lparr>srv = k, cfg = None, ring = None, auth = None, version = str ''0.1.0'', startTime = now\<rparr>"

definition authorize :: "('c, 'w) McpServer \<Rightarrow> bytes \<Rightarrow> go_error option" where
  "authorize s method = (case auth s of None \<Rightarrow> None | Some f \<Rightarrow> f method)"

section \<open>Arguments\<close>

text \<open>The dynamic type of an argument, with the cases the code distinguishes.\<close>

datatype arg = ArgFloat64 rat | ArgInt int | ArgInt64 int | ArgString bytes | ArgOther

text \<open>The arguments of a request: \<^const>\<open>None\<close> when they are no map.\<close>

type_synonym args = "(bytes \<rightharpoonup> arg) option"

definition argMap :: "args \<Rightarrow> (bytes \<rightharpoonup> arg) option" where
  "argMap req = req"

definition argString :: "args \<Rightarrow> bytes \<Rightarrow> bytes option" where
  "argString req key =
     (case argMap req of
        None \<Rightarrow> None
      | Some m \<Rightarrow> (case m key of Some (ArgString s) \<Rightarrow> Some s | _ \<Rightarrow> None))"

definition argUint :: "(rat \<Rightarrow> u64) \<Rightarrow> args \<Rightarrow> bytes \<Rightarrow> u64 option" where
  "argUint wild req key =
     (case argMap req of
        None \<Rightarrow> None
      | Some m \<Rightarrow>
          (case m key of
             Some (ArgFloat64 x) \<Rightarrow> Some (float_to_uint64 wild x)
           | Some (ArgInt n) \<Rightarrow> Some (of_int n)
           | Some (ArgInt64 n) \<Rightarrow> Some (of_int n)
           | _ \<Rightarrow> None))"

section \<open>Results\<close>

text \<open>
  The values the tools return, before they are encoded. A slice of log lines is \<^const>\<open>None\<close> when nil, which is encoded as \<^verbatim>\<open>null\<close>; a
  slice of connections is nil exactly when it is empty.
\<close>

datatype tool_value =
    VInfo bytes bytes bytes int
  | VConns nat "(u64 \<times> bytes \<times> bytes) list"
  | VConn u64 bytes bytes
  | VOk
  | VSent nat
  | VMetrics Snapshot
  | VNoConfig
  | VConfig Config
  | VLogs "bytes list option"

record CallToolResult =
  Content :: bytes
  IsError :: bool

datatype tool_reply = AuthDenied go_error | Reply CallToolResult

definition textResult :: "bytes \<Rightarrow> bool \<Rightarrow> CallToolResult" where
  "textResult text isError = \<lparr>Content = text, IsError = isError\<rparr>"

text \<open>\<open>marshal\<close> is \<^verbatim>\<open>json.MarshalIndent\<close> and \<open>sprint\<close> is \<^verbatim>\<open>fmt.Sprintf("%v", v)\<close>.\<close>

definition encodePretty :: "(tool_value \<Rightarrow> bytes option) \<Rightarrow> (tool_value \<Rightarrow> bytes) \<Rightarrow> tool_value \<Rightarrow> bytes" where
  "encodePretty marshal sprint v = (case marshal v of None \<Rightarrow> sprint v | Some data \<Rightarrow> data)"

text \<open>A tool changes the world and returns a value or an error, or panics.\<close>

type_synonym 'w tool = "args \<Rightarrow> 'w \<Rightarrow> (go_error + tool_value) outcome \<times> 'w"

definition wrapTool ::
  "(tool_value \<Rightarrow> bytes) \<Rightarrow> ('c, 'w) McpServer \<Rightarrow> 'w tool \<Rightarrow> args \<Rightarrow> 'w \<Rightarrow> tool_reply outcome \<times> 'w" where
  "wrapTool encode s f req w =
     (case authorize s (str ''tools/call'') of
        Some e \<Rightarrow> (Ret (AuthDenied e), w)
      | None \<Rightarrow>
          (case f req w of
             (Panic, w') \<Rightarrow> (Panic, w')
           | (Ret (Inl e), w') \<Rightarrow> (Ret (Reply (textResult (str ''error: '' @ error_text e) True)), w')
           | (Ret (Inr v), w') \<Rightarrow> (Ret (Reply (textResult (encode v) False)), w')))"

section \<open>The tools\<close>

text \<open>\<^verbatim>\<open>int64(time.Since(start).Seconds())\<close>; the clock is monotonic, so the difference is not negative.\<close>

definition uptimeSeconds :: "int \<Rightarrow> int" where
  "uptimeSeconds d = trunc (fl (fl (of_int (d div 1000000000)) + fl (fl (of_int (d mod 1000000000)) / 1000000000)))"

definition toolServerInfo :: "('c, 'w) McpServer \<Rightarrow> int \<Rightarrow> 'w \<Rightarrow> tool_value" where
  "toolServerInfo s now w =
     VInfo (srv_Name (srv s) w) (version s) (case srv_Address (srv s) w of None \<Rightarrow> [] | Some a \<Rightarrow> a) (uptimeSeconds (now - startTime s))"

text \<open>\<open>ord\<close> is the iteration order of the connection map, as in \<^const>\<open>Range\<close>.\<close>

definition toolListConnections ::
  "((u64 \<times> 'c) list \<Rightarrow> (u64 \<times> 'c) list) \<Rightarrow> ('c, 'w) McpServer \<Rightarrow> 'w \<Rightarrow> tool_value" where
  "toolListConnections ord s w =
     (let conns = Range ord (conn_ID (srv s)) (\<lambda>i c conns. (True, conns @ [(i, conn_Remote (srv s) c, conn_Local (srv s) c)]))
                    (srv_ConnMgr (srv s) w) []
      in VConns (length conns) conns)"

definition toolGetConnection :: "('c, 'w) McpServer \<Rightarrow> u64 \<Rightarrow> 'w \<Rightarrow> go_error + tool_value" where
  "toolGetConnection s i w =
     (case Get i (srv_ConnMgr (srv s) w) of
        Inl e \<Rightarrow> Inl e
      | Inr c \<Rightarrow> Inr (VConn (conn_ID (srv s) c) (conn_Remote (srv s) c) (conn_Local (srv s) c)))"

definition toolSendToConnection :: "('c, 'w) McpServer \<Rightarrow> u64 \<Rightarrow> u32 \<Rightarrow> bytes \<Rightarrow> 'w \<Rightarrow> go_error option \<times> 'w" where
  "toolSendToConnection s i msgID data w =
     (case Get i (srv_ConnMgr (srv s) w) of
        Inl e \<Rightarrow> (Some e, w)
      | Inr c \<Rightarrow> conn_SendMsg (srv s) c msgID data w)"

definition toolBroadcast ::
  "((u64 \<times> 'c) list \<Rightarrow> (u64 \<times> 'c) list) \<Rightarrow> ('c, 'w) McpServer \<Rightarrow> u32 \<Rightarrow> bytes \<Rightarrow> 'w \<Rightarrow> tool_value \<times> 'w" where
  "toolBroadcast ord s msgID data w =
     (let (count, w') = Range ord (conn_ID (srv s))
            (\<lambda>_ c (count, w). case conn_SendMsg (srv s) c msgID data w of
                 (None, w') \<Rightarrow> (True, (Suc count, w'))
               | (Some e, w') \<Rightarrow> (True, (count, w')))
            (srv_ConnMgr (srv s) w) (0, w)
      in (VSent count, w'))"

definition toolCloseConnection :: "('c, 'w) McpServer \<Rightarrow> u64 \<Rightarrow> 'w \<Rightarrow> go_error option \<times> 'w" where
  "toolCloseConnection s i w =
     (case Get i (srv_ConnMgr (srv s) w) of
        Inl e \<Rightarrow> (Some e, w)
      | Inr c \<Rightarrow> (None, conn_Stop (srv s) c w))"

definition toolGetMetrics :: "('c, 'w) McpServer \<Rightarrow> 'w \<Rightarrow> tool_value" where
  "toolGetMetrics s w = VMetrics (srv_Snapshot (srv s) w)"

definition toolGetConfig :: "('c, 'w) McpServer \<Rightarrow> tool_value" where
  "toolGetConfig s = (case cfg s of None \<Rightarrow> VNoConfig | Some c \<Rightarrow> VConfig c)"

definition toolGetLogs :: "('c, 'w) McpServer \<Rightarrow> int \<Rightarrow> 'w \<Rightarrow> tool_value outcome" where
  "toolGetLogs s n w =
     (let lines = (if n \<le> 0 then 50 else n) in
      case ring s of
        None \<Rightarrow> Ret (VLogs (Some []))
      | Some r \<Rightarrow> (case Lines lines (r w) of Panic \<Rightarrow> Panic | Ret ls \<Rightarrow> Ret (VLogs ls)))"

definition toolShutdown :: "('c, 'w) McpServer \<Rightarrow> 'w \<Rightarrow> go_error option \<times> 'w" where
  "toolShutdown s w = srv_Shutdown (srv s) 5000000000 w"

section \<open>Registration\<close>

text \<open>The result of \<^verbatim>\<open>return map[string]any{"ok": true}, err\<close>.\<close>

fun ok_or :: "go_error option \<times> 'w \<Rightarrow> (go_error + tool_value) outcome \<times> 'w" where
  "ok_or (None, w) = (Ret (Inr VOk), w)"
| "ok_or (Some e, w) = (Ret (Inl e), w)"

definition required :: "string \<Rightarrow> 'w \<Rightarrow> (go_error + tool_value) outcome \<times> 'w" where
  "required what w = (Ret (Inl (Plain (str (what @ '' is required'')))), w)"

definition server_info :: "('c, 'w) McpServer \<Rightarrow> int \<Rightarrow> 'w tool" where
  "server_info s now req w = (Ret (Inr (toolServerInfo s now w)), w)"

definition list_connections :: "((u64 \<times> 'c) list \<Rightarrow> (u64 \<times> 'c) list) \<Rightarrow> ('c, 'w) McpServer \<Rightarrow> 'w tool" where
  "list_connections ord s req w = (Ret (Inr (toolListConnections ord s w)), w)"

definition get_connection :: "(rat \<Rightarrow> u64) \<Rightarrow> ('c, 'w) McpServer \<Rightarrow> 'w tool" where
  "get_connection wild s req w =
     (case argUint wild req (str ''connID'') of
        None \<Rightarrow> required ''connID (integer)'' w
      | Some i \<Rightarrow> (Ret (toolGetConnection s i w), w))"

definition send_to_connection :: "(rat \<Rightarrow> u64) \<Rightarrow> ('c, 'w) McpServer \<Rightarrow> 'w tool" where
  "send_to_connection wild s req w =
     (case argUint wild req (str ''connID'') of
        None \<Rightarrow> required ''connID (integer)'' w
      | Some i \<Rightarrow>
          (case argUint wild req (str ''msgID'') of
             None \<Rightarrow> required ''msgID (integer)'' w
           | Some m \<Rightarrow>
               (case argString req (str ''data'') of
                  None \<Rightarrow> required ''data (string)'' w
                | Some data \<Rightarrow> ok_or (toolSendToConnection s i (ucast m) data w))))"

definition broadcast :: "(rat \<Rightarrow> u64) \<Rightarrow> ((u64 \<times> 'c) list \<Rightarrow> (u64 \<times> 'c) list) \<Rightarrow> ('c, 'w) McpServer \<Rightarrow> 'w tool" where
  "broadcast wild ord s req w =
     (case argUint wild req (str ''msgID'') of
        None \<Rightarrow> required ''msgID (integer)'' w
      | Some m \<Rightarrow>
          (case argString req (str ''data'') of
             None \<Rightarrow> required ''data (string)'' w
           | Some data \<Rightarrow> (case toolBroadcast ord s (ucast m) data w of (v, w') \<Rightarrow> (Ret (Inr v), w'))))"

definition close_connection :: "(rat \<Rightarrow> u64) \<Rightarrow> ('c, 'w) McpServer \<Rightarrow> 'w tool" where
  "close_connection wild s req w =
     (case argUint wild req (str ''connID'') of
        None \<Rightarrow> required ''connID (integer)'' w
      | Some i \<Rightarrow> ok_or (toolCloseConnection s i w))"

definition get_metrics :: "('c, 'w) McpServer \<Rightarrow> 'w tool" where
  "get_metrics s req w = (Ret (Inr (toolGetMetrics s w)), w)"

definition get_config :: "('c, 'w) McpServer \<Rightarrow> 'w tool" where
  "get_config s req w = (Ret (Inr (toolGetConfig s)), w)"

definition get_logs :: "(rat \<Rightarrow> u64) \<Rightarrow> ('c, 'w) McpServer \<Rightarrow> 'w tool" where
  "get_logs wild s req w =
     (let lines = (case argUint wild req (str ''lines'') of None \<Rightarrow> 50 | Some n \<Rightarrow> sint n)
      in case toolGetLogs s lines w of Panic \<Rightarrow> (Panic, w) | Ret v \<Rightarrow> (Ret (Inr v), w))"

definition shutdown_server :: "('c, 'w) McpServer \<Rightarrow> 'w tool" where
  "shutdown_server s req w = ok_or (toolShutdown s w)"

text \<open>The tools by name; \<open>now\<close> is the time of the call.\<close>

definition registerTools ::
  "(rat \<Rightarrow> u64) \<Rightarrow> ((u64 \<times> 'c) list \<Rightarrow> (u64 \<times> 'c) list) \<Rightarrow> (tool_value \<Rightarrow> bytes) \<Rightarrow> int \<Rightarrow> ('c, 'w) McpServer \<Rightarrow>
   (bytes \<times> (args \<Rightarrow> 'w \<Rightarrow> tool_reply outcome \<times> 'w)) list" where
  "registerTools wild ord encode now s =
     [(str ''server_info'', wrapTool encode s (server_info s now)),
      (str ''list_connections'', wrapTool encode s (list_connections ord s)),
      (str ''get_connection'', wrapTool encode s (get_connection wild s)),
      (str ''send_to_connection'', wrapTool encode s (send_to_connection wild s)),
      (str ''broadcast'', wrapTool encode s (broadcast wild ord s)),
      (str ''close_connection'', wrapTool encode s (close_connection wild s)),
      (str ''get_metrics'', wrapTool encode s (get_metrics s)),
      (str ''get_config'', wrapTool encode s (get_config s)),
      (str ''get_logs'', wrapTool encode s (get_logs wild s)),
      (str ''shutdown_server'', wrapTool encode s (shutdown_server s))]"

section \<open>The resources\<close>

record ResourceContents =
  URI :: bytes
  MIMEType :: bytes
  Text :: bytes

definition textContents :: "bytes \<Rightarrow> bytes \<Rightarrow> ResourceContents list" where
  "textContents uri text = [\<lparr>URI = uri, MIMEType = str ''text/plain'', Text = text\<rparr>]"

text \<open>Reading a resource does not change the world.\<close>

definition registerResources ::
  "((u64 \<times> 'c) list \<Rightarrow> (u64 \<times> 'c) list) \<Rightarrow> (tool_value \<Rightarrow> bytes) \<Rightarrow> ('c, 'w) McpServer \<Rightarrow>
   (bytes \<times> ('w \<Rightarrow> (go_error + ResourceContents list) outcome)) list" where
  "registerResources ord encode s =
     [(str ''connections://'', \<lambda>w. Ret (Inr (textContents (str ''connections://'') (encode (toolListConnections ord s w))))),
      (str ''metrics://'', \<lambda>w. Ret (Inr (textContents (str ''metrics://'') (encode (toolGetMetrics s w))))),
      (str ''config://'', \<lambda>w. Ret (Inr (textContents (str ''config://'') (encode (toolGetConfig s))))),
      (str ''logs://'', \<lambda>w.
         case authorize s (str ''resources/read'') of
           Some e \<Rightarrow> Ret (Inl e)
         | None \<Rightarrow> (case toolGetLogs s 100 w of
                      Panic \<Rightarrow> Panic
                    | Ret out \<Rightarrow> Ret (Inr (textContents (str ''logs://'') (encode out)))))]"


section \<open>Lemmas\<close>

text \<open>Sending one message to a list of connections, one after the other, with the result of every send.\<close>

fun send_results :: "('c \<Rightarrow> 'w \<Rightarrow> go_error option \<times> 'w) \<Rightarrow> 'c list \<Rightarrow> 'w \<Rightarrow> go_error option list \<times> 'w" where
  "send_results send [] w = ([], w)"
| "send_results send (c # cs) w = (let (r, w') = send c w; (rs, w'') = send_results send cs w' in (r # rs, w''))"

lemma length_send_results: "length (fst (send_results send cs w)) = length cs"
  by (induction cs arbitrary: w) (simp_all add: Let_def case_prod_beta)

lemma broadcast_loop:
  "range_loop cid (\<lambda>_ c (count, w). case send c w of
        (None, w') \<Rightarrow> (True, (Suc count, w'))
      | (Some e, w') \<Rightarrow> (True, (count, w'))) cs (n, w) =
   (n + length (filter (\<lambda>r. r = None) (fst (send_results send cs w))), snd (send_results send cs w))"
  by (induction cs arbitrary: n w) (simp_all add: Let_def case_prod_beta split: option.splits prod.splits)

lemma toolBroadcast_results:
  "toolBroadcast ord s m d w =
     (case send_results (\<lambda>c. conn_SendMsg (srv s) c m d) (snapshot ord (srv_ConnMgr (srv s) w)) w of
        (rs, w') \<Rightarrow> (VSent (length (filter (\<lambda>r. r = None) rs)), w'))"
  by (simp add: toolBroadcast_def Range_def broadcast_loop split: prod.splits)

lemma list_loop: "range_loop cid (\<lambda>i c acc. (True, acc @ [f i c])) cs acc = acc @ map (\<lambda>c. f (cid c) c) cs"
  by (induction cs arbitrary: acc) simp_all

lemma snapshot_keys:
  assumes "mset (ord (connections cm)) = mset (connections cm)" and "cm_inv cid cm"
  shows "mset (map (\<lambda>c. (cid c, c)) (snapshot ord cm)) = mset (connections cm)"
proof -
  have "map (\<lambda>c. (cid c, c)) (snapshot ord cm) = ord (connections cm)"
    using assms(2) mset_eq_setD [OF assms(1)] by (auto simp: snapshot_def cm_inv_def intro!: map_idI)
  with assms(1) show ?thesis by simp
qed

lemma Get_ident: "cm_inv cid cm \<Longrightarrow> Get i cm = Inr c \<Longrightarrow> cid c = i"
  by (auto simp: Get_map_of cm_inv_def dest!: map_of_SomeD)

lemma trunc_nat [simp]: "trunc (of_nat n) = int n"
  by (simp add: trunc_def)

text \<open>A whole number that fits is decoded to itself.\<close>

lemma argUint_nat: "m key = Some (ArgFloat64 (of_nat n)) \<Longrightarrow> n < 2 ^ 64 \<Longrightarrow> argUint wild (Some m) key = Some (of_nat n)"
  by (simp add: argUint_def argMap_def float_to_uint64_def)

lemma toolGetLogs_Ret:
  "toolGetLogs s n w = Ret (VLogs (case ring s of
       None \<Rightarrow> Some []
     | Some r \<Rightarrow> if Bytes (r w) = [] then None else Some (keep_last (if n \<le> 0 then 50 else nat n) (log_lines (Bytes (r w))))))"
  by (simp add: toolGetLogs_def Let_def Lines_log_lines split: option.splits)

section \<open>Properties\<close>

text \<open>
  C34: Every tool is behind the authorization callback: when it denies \<^verbatim>\<open>tools/call\<close>, a call of any registered tool, with
  any arguments, returns the denial and changes nothing.
\<close>

theorem mcp_tools_authorized:
  assumes "authorize s (str ''tools/call'') = Some e" and "(name, tool) \<in> set (registerTools wild ord encode now s)"
  shows "tool req w = (Ret (AuthDenied e), w)"
  using assms(2) by (simp add: registerTools_def) (elim disjE; simp add: wrapTool_def assms(1))

text \<open>
  The resources are not: of the four, only the logs ask the callback. Whatever the callback answers, the connections,
  the metrics and the configuration are read as if there were none, while a denial of \<^verbatim>\<open>resources/read\<close> refuses the logs.
\<close>

theorem mcp_resources_skip_authorization:
  "take 3 (registerResources ord encode (s\<lparr>auth := Some f\<rparr>)) = take 3 (registerResources ord encode (s\<lparr>auth := None\<rparr>)) \<and>
   map fst (registerResources ord encode s) = [str ''connections://'', str ''metrics://'', str ''config://'', str ''logs://''] \<and>
   snd (registerResources ord encode (s\<lparr>auth := Some f\<rparr>) ! 3) w =
     (case f (str ''resources/read'') of
        Some e \<Rightarrow> Ret (Inl e)
      | None \<Rightarrow> snd (registerResources ord encode (s\<lparr>auth := None\<rparr>) ! 3) w)"
  by (simp add: registerResources_def toolListConnections_def toolGetMetrics_def toolGetConfig_def toolGetLogs_def authorize_def
      split: option.splits)

text \<open>A server with two connections that records what is sent to them and accepts only from the first.\<close>

definition two_conns :: "(u64, (u64 \<times> u32 \<times> bytes) list) IServer" where
  "two_conns =
     \<lparr>srv_Name = \<lambda>_. [], srv_Address = \<lambda>_. None,
      srv_ConnMgr = \<lambda>_. snd (Add id 2 (snd (Add id 1 (NewConnManager 0)))),
      srv_Snapshot = \<lambda>_. empty_snapshot, srv_Shutdown = \<lambda>_ w. (None, w), conn_ID = id, conn_Remote = \<lambda>_. [], conn_Local = \<lambda>_. [],
      conn_SendMsg = \<lambda>c m d w. (if c = 1 then None else Some (Sentinel ErrConnClosed), w @ [(c, m, d)]),
      conn_Stop = \<lambda>c w. w\<rparr>"

lemma two_conns_inv: "cm_inv id (srv_ConnMgr two_conns w)"
  unfolding two_conns_def by (simp add: cm_inv_Add)

lemma two_conns_ID: "conn_ID two_conns = id"
  by (simp add: two_conns_def)

theorem mcp_tools_authorized_witness:
  "wrapTool (\<lambda>_. []) (mcp_NewServer two_conns 0 [WithAuth (Some (\<lambda>_. Some (Plain [])))]) 
     (shutdown_server (mcp_NewServer two_conns 0 [WithAuth (Some (\<lambda>_. Some (Plain [])))])) None [] = (Ret (AuthDenied (Plain [])), [])"
proof (rule mcp_tools_authorized)
  show "authorize (mcp_NewServer two_conns 0 [WithAuth (Some (\<lambda>_. Some (Plain [])))]) (str ''tools/call'') = Some (Plain [])"
    by (simp add: authorize_def mcp_NewServer_def WithAuth_def)
  show "(str ''shutdown_server'', wrapTool (\<lambda>_. []) (mcp_NewServer two_conns 0 [WithAuth (Some (\<lambda>_. Some (Plain [])))]) 
     (shutdown_server (mcp_NewServer two_conns 0 [WithAuth (Some (\<lambda>_. Some (Plain [])))]))) \<in>
     set (registerTools (\<lambda>_. 0) id (\<lambda>_. []) 0 (mcp_NewServer two_conns 0 [WithAuth (Some (\<lambda>_. Some (Plain [])))]))"
    by (simp add: registerTools_def)
qed

text \<open>
  C35: A broadcast reaches every registered connection exactly once. In whatever order the connections are iterated, an
  authorized call with a message id and data sends the message to each of them, goes on after a failed send, and reports
  the number of sends that succeeded.
\<close>

theorem broadcast_once:
  assumes "authorize s (str ''tools/call'') = None"
    and "argUint wild req (str ''msgID'') = Some m" and "argString req (str ''data'') = Some d"
    and "mset (ord (connections cm)) = mset (connections cm)" and "cm_inv (conn_ID (srv s)) cm" and "srv_ConnMgr (srv s) w = cm"
  shows "\<exists>cs rs w'. mset (map (\<lambda>c. (conn_ID (srv s) c, c)) cs) = mset (connections cm) \<and>
           send_results (\<lambda>c. conn_SendMsg (srv s) c (ucast m) d) cs w = (rs, w') \<and> length rs = Len cm \<and>
           wrapTool encode s (broadcast wild ord s) req w =
             (Ret (Reply (textResult (encode (VSent (length (filter (\<lambda>r. r = None) rs)))) False)), w')"
proof -
  let ?cs = "snapshot ord cm"
  obtain rs w' where r: "send_results (\<lambda>c. conn_SendMsg (srv s) c (ucast m) d) ?cs w = (rs, w')" by fastforce
  have keys: "mset (map (\<lambda>c. (conn_ID (srv s) c, c)) ?cs) = mset (connections cm)" using assms(4,5) by (rule snapshot_keys)
  then have "length ?cs = Len cm" using mset_eq_length [OF keys] by (simp add: Len_def)
  then have "length rs = Len cm" using length_send_results [of "\<lambda>c. conn_SendMsg (srv s) c (ucast m) d" ?cs w] r by simp
  moreover have "wrapTool encode s (broadcast wild ord s) req w =
      (Ret (Reply (textResult (encode (VSent (length (filter (\<lambda>r. r = None) rs)))) False)), w')"
    using assms(1-3,6) r by (simp add: wrapTool_def broadcast_def toolBroadcast_results)
  ultimately show ?thesis using keys r by blast
qed

theorem broadcast_once_witness:
  "\<exists>cs rs w'. mset (map (\<lambda>c. (c, c)) cs) = {#(1, 1), (2, 2)#} \<and>
     send_results (\<lambda>c. conn_SendMsg two_conns c 7 []) cs [] = (rs, w') \<and> length rs = 2"
proof -
  let ?s = "mcp_NewServer two_conns 0 []"
  let ?req = "Some [str ''msgID'' \<mapsto> ArgInt 7, str ''data'' \<mapsto> ArgString []]"
  have s: "srv ?s = two_conns" "authorize ?s (str ''tools/call'') = None"
    by (simp_all add: mcp_NewServer_def authorize_def)
  have a: "argUint (\<lambda>_. 0) ?req (str ''msgID'') = Some 7" "argString ?req (str ''data'') = Some []"
    by (simp_all add: argUint_def argString_def argMap_def str_def)
  have c: "connections (srv_ConnMgr two_conns []) = [(1, 1), (2, 2)]" "conn_ID two_conns = id"
    by (simp_all add: two_conns_def Add_def NewConnManager_def)
  have inv: "cm_inv (conn_ID (srv ?s)) (srv_ConnMgr two_conns [])" unfolding s(1) c(2) by (rule two_conns_inv)
  obtain cs rs w' where "mset (map (\<lambda>c. (conn_ID (srv ?s) c, c)) cs) = mset (connections (srv_ConnMgr two_conns []))"
    "send_results (\<lambda>c. conn_SendMsg (srv ?s) c (ucast (7 :: u64)) []) cs [] = (rs, w')" "length rs = Len (srv_ConnMgr two_conns [])"
    using broadcast_once [where cm = "srv_ConnMgr two_conns []" and ord = id and w = "[]" and encode = "\<lambda>_. []", OF s(2) a _ inv] s(1)
    by auto
  then have "mset (map (\<lambda>c. (c, c)) cs) = {#(1, 1), (2, 2)#}" "send_results (\<lambda>c. conn_SendMsg two_conns c 7 []) cs [] = (rs, w')" "length rs = 2"
    unfolding s(1) c(2) Len_def c(1) by simp_all
  then show ?thesis by blast
qed

text \<open>
  C36: The tools that name a connection act on that connection and on no other. With a whole connection id, an authorized
  send goes to the connection registered under it, a close stops it and a lookup describes it; when no connection is
  registered under the id, each of the three reports \<^verbatim>\<open>ErrConnNotFound\<close> and changes nothing.
\<close>

theorem mcp_target:
  assumes "authorize s (str ''tools/call'') = None" and "cm_inv (conn_ID (srv s)) (srv_ConnMgr (srv s) w)"
    and "m (str ''connID'') = Some (ArgFloat64 (of_nat n))" and "n < 2 ^ 64"
    and "m (str ''msgID'') = Some (ArgFloat64 (of_nat k))" and "k < 2 ^ 32" and "m (str ''data'') = Some (ArgString d)"
  shows "case Get (of_nat n) (srv_ConnMgr (srv s) w) of
      Inr c \<Rightarrow> conn_ID (srv s) c = of_nat n \<and>
        send_to_connection wild s (Some m) w = ok_or (conn_SendMsg (srv s) c (of_nat k) d w) \<and>
        close_connection wild s (Some m) w = (Ret (Inr VOk), conn_Stop (srv s) c w) \<and>
        get_connection wild s (Some m) w = (Ret (Inr (VConn (of_nat n) (conn_Remote (srv s) c) (conn_Local (srv s) c))), w)
    | Inl e \<Rightarrow> e = Sentinel ErrConnNotFound \<and>
        (\<forall>tool \<in> {send_to_connection wild s, close_connection wild s, get_connection wild s}.
           wrapTool encode s tool (Some m) w = (Ret (Reply (textResult (str ''error: kinz: connection not found'') True)), w))"
proof -
  have i: "argUint wild (Some m) (str ''connID'') = Some (of_nat n)" using assms(3,4) by (rule argUint_nat)
  have j: "argUint wild (Some m) (str ''msgID'') = Some (of_nat k)" using assms(5,6) by (intro argUint_nat) simp_all
  have k: "ucast (of_nat k :: u64) = (of_nat k :: u32)"
    using assms(6) by (simp add: unsigned_of_nat take_bit_nat_eq_self)
  have d: "argString (Some m) (str ''data'') = Some d" by (simp add: argString_def argMap_def assms(7))
  note defs = send_to_connection_def close_connection_def get_connection_def i j d k toolSendToConnection_def
    toolCloseConnection_def toolGetConnection_def
  show ?thesis
  proof (cases "Get (of_nat n) (srv_ConnMgr (srv s) w)")
    case (Inl e)
    then have e: "e = Sentinel ErrConnNotFound" by (rule cmgr.look_none)
    have "str ''error: '' @ error_text e = str ''error: kinz: connection not found''" by (simp add: e str_def)
    with Inl e show ?thesis by (simp add: defs wrapTool_def assms(1))
  next
    case (Inr c)
    with Get_ident [OF assms(2) Inr] show ?thesis by (simp add: defs)
  qed
qed

theorem mcp_target_witness:
  "send_to_connection (\<lambda>_. 0) (mcp_NewServer two_conns 0 [])
     (Some [str ''connID'' \<mapsto> ArgFloat64 (of_nat 1), str ''msgID'' \<mapsto> ArgFloat64 (of_nat 7), str ''data'' \<mapsto> ArgString [65]]) [] =
     (Ret (Inr VOk), [(1, 7, [65])]) \<and>
   wrapTool (\<lambda>_. []) (mcp_NewServer two_conns 0 []) (close_connection (\<lambda>_. 0) (mcp_NewServer two_conns 0 []))
     (Some [str ''connID'' \<mapsto> ArgFloat64 (of_nat 3), str ''msgID'' \<mapsto> ArgFloat64 (of_nat 7), str ''data'' \<mapsto> ArgString [65]]) [] =
     (Ret (Reply (textResult (str ''error: kinz: connection not found'') True)), [])"
proof -
  let ?s = "mcp_NewServer two_conns 0 []"
  let ?m = "\<lambda>i. [str ''connID'' \<mapsto> ArgFloat64 (of_nat i), str ''msgID'' \<mapsto> ArgFloat64 (of_nat 7), str ''data'' \<mapsto> ArgString [65]]"
  have s: "srv ?s = two_conns" "authorize ?s (str ''tools/call'') = None"
    by (simp_all add: mcp_NewServer_def authorize_def)
  have a: "?m i (str ''connID'') = Some (ArgFloat64 (of_nat i))" "?m i (str ''msgID'') = Some (ArgFloat64 (of_nat 7))"
    "?m i (str ''data'') = Some (ArgString [65])" for i
    by (simp_all add: str_def)
  have inv: "cm_inv (conn_ID (srv ?s)) (srv_ConnMgr (srv ?s) [])"
    using two_conns_inv [of "[]"] two_conns_ID by (simp only: s(1))
  have g: "Get 1 (srv_ConnMgr (srv ?s) []) = Inr 1" "Get 3 (srv_ConnMgr (srv ?s) []) = Inl (Sentinel ErrConnNotFound)"
    unfolding s(1) by (simp_all add: two_conns_def Add_def NewConnManager_def Get_def)
  have send: "conn_SendMsg (srv ?s) 1 7 [65] [] = (None, [(1, 7, [65])])" unfolding s(1) by (simp add: two_conns_def)
  have "send_to_connection (\<lambda>_. 0) ?s (Some (?m 1)) [] = ok_or (None, [(1, 7, [65])])"
    using mcp_target [where n = 1 and m = "?m 1" and wild = "\<lambda>_. 0", OF s(2) inv a(1) _ a(2) _ a(3)] g(1) send by simp
  moreover have "wrapTool (\<lambda>_. []) ?s (close_connection (\<lambda>_. 0) ?s) (Some (?m 3)) [] =
      (Ret (Reply (textResult (str ''error: kinz: connection not found'') True)), [])"
    using mcp_target [where n = 3 and m = "?m 3" and wild = "\<lambda>_. 0", OF s(2) inv a(1) _ a(2) _ a(3)] g(2) by simp
  ultimately show ?thesis by simp
qed

text \<open>
  \<^verbatim>\<open>get_logs\<close> is total: for every request, also one with a negative or huge line count, for which the slice
  expression of the ring buffer would panic, an authorized call returns the last lines of the ring, 50 when no positive
  count is asked for, and a nil slice when the ring is empty.
\<close>

theorem get_logs_total:
  assumes "authorize s (str ''tools/call'') = None" and "ring s = Some r"
  shows "\<exists>n. 0 < n \<and> (argUint wild req (str ''lines'') = None \<longrightarrow> n = 50) \<and>
           (\<forall>k. argUint wild req (str ''lines'') = Some k \<longrightarrow> int n = (if sint k \<le> 0 then 50 else sint k)) \<and>
           wrapTool encode s (get_logs wild s) req w =
             (Ret (Reply (textResult (encode (VLogs (if Bytes (r w) = [] then None else Some (keep_last n (log_lines (Bytes (r w))))))) False)), w)"
proof (cases "argUint wild req (str ''lines'')")
  case None
  then show ?thesis using assms by (intro exI [of _ 50]) (simp add: wrapTool_def get_logs_def toolGetLogs_Ret)
next
  case (Some k)
  then show ?thesis using assms
    by (intro exI [of _ "if sint k \<le> 0 then 50 else nat (sint k)"]) (simp add: wrapTool_def get_logs_def toolGetLogs_Ret)
qed

theorem get_logs_total_witness:
  "let s = mcp_NewServer two_conns 0 [WithLogRing (Some (\<lambda>_. NewRingBuffer 8))]
   in \<exists>n :: nat. 0 < n \<and> wrapTool (\<lambda>_. []) s (get_logs (\<lambda>_. 0) s) (Some [str ''lines'' \<mapsto> ArgInt (-3)]) [] =
        (Ret (Reply (textResult [] False)), [])"
proof -
  let ?s = "mcp_NewServer two_conns 0 [WithLogRing (Some (\<lambda>_. NewRingBuffer 8))]"
  have s: "authorize ?s (str ''tools/call'') = None" "ring ?s = Some (\<lambda>_. NewRingBuffer 8)"
    by (simp_all add: mcp_NewServer_def authorize_def WithLogRing_def)
  from get_logs_total [OF s, of "\<lambda>_. 0" "Some [str ''lines'' \<mapsto> ArgInt (-3)]" "\<lambda>_. []" "[]"]
  show ?thesis unfolding Let_def by blast
qed

end
