(* ===== verification/Kinz_Demos.thy ===== *)
theory Kinz_Demos
  imports Kinz_Examples Kinz_ClientState Kinz_Logger Kinz_Mcp
begin

text \<open>
  The \<^verbatim>\<open>main\<close> functions of the example programs under \<^verbatim>\<open>src/examples\<close>: the clients with what they print and how they end, for
  every outcome of their calls and waits, and the logging and management around the servers. The lemmas run a client against
  the server it was written for.
\<close>

section \<open>Clients\<close>

type_synonym 'c app_client = "('c, app_value, app_effect, nat, nat) Client"

text \<open>
  How a program ends: it is still waiting for an outcome, \<^verbatim>\<open>fatal\<close> has ended the process without the deferred calls, or \<^verbatim>\<open>main\<close>
  has returned and the deferred \<^verbatim>\<open>Stop\<close> has run.
\<close>

datatype ended = Waiting | Fatal bytes "go_error option" | Returned

definition demo_options :: "'c client_option list" where
  "demo_options = [ReconnectOption (500 * Millisecond) (3 * Second) 2]"

text \<open>A handler that sends the data of a message, after \<open>label\<close>, to a channel of the program.\<close>

definition push_handler :: "bytes \<Rightarrow> app_handler" where
  "push_handler label = with_msg (\<lambda>m. HDo (Push (label @ Data m)) HReturn)"

section \<open>Authentication\<close>

definition auth_client :: "(TLVPack \<Rightarrow> 'c) \<Rightarrow> 'c app_client" where
  "auth_client tlv =
     snd (Client_AddRouterSlices msgNotice [push_handler (str ''notice: '')]
       (snd (Client_AddRouterSlices msgPong [push_handler (str ''pong: '')]
         (NewClient tlv (str ''127.0.0.1'') 8999 demo_options))))"

text \<open>\<^const>\<open>None\<close> is the timer.\<close>

definition waitFor :: "bytes option \<Rightarrow> bytes" where
  "waitFor r = (case r of Some s \<Rightarrow> s | None \<Rightarrow> str ''<timeout>'')"

definition auth_script :: "(bytes \<times> u32 \<times> bytes) list" where
  "auth_script = [(str ''1: '', msgPing, str ''hi''), (str ''2: '', msgAuth, str ''secret''), (str ''3: '', msgPing, str ''hi'')]"

text \<open>The rounds of send and wait; \<open>ss\<close> are the results of \<^verbatim>\<open>SendMsg\<close>, \<open>ws\<close> those of the waits.\<close>

fun auth_rounds :: "(bytes \<times> u32 \<times> bytes) list \<Rightarrow> go_error option list \<Rightarrow> bytes option list \<Rightarrow> bytes list \<times> ended" where
  "auth_rounds [] ss ws = ([str ''auth demo OK''], Returned)"
| "auth_rounds ((l, i, d) # xs) (Some e # ss) ws = ([], Fatal (str ''send'') (Some e))"
| "auth_rounds ((l, i, d) # xs) (None # ss) (w # ws) = apfst (Cons (l @ waitFor w)) (auth_rounds xs ss ws)"
| "auth_rounds ((l, i, d) # xs) _ _ = ([], Waiting)"

definition auth_main :: "go_error option \<Rightarrow> go_error option list \<Rightarrow> bytes option list \<Rightarrow> bytes list \<times> ended" where
  "auth_main err ss ws =
     (case err of Some e \<Rightarrow> ([], Fatal (str ''connect'') (Some e)) | None \<Rightarrow> auth_rounds auth_script ss ws)"

section \<open>Echo\<close>

text \<open>\<open>split\<close> is \<^verbatim>\<open>net.SplitHostPort\<close>, \<open>args\<close> the arguments of the command.\<close>

definition echo_address :: "(bytes \<Rightarrow> (bytes \<times> bytes) option) \<Rightarrow> bytes list \<Rightarrow> bytes + bytes \<times> int" where
  "echo_address split args =
     (case args of
        [] \<Rightarrow> Inr (str ''127.0.0.1'', 8999)
      | a # _ \<Rightarrow> (case split a of
          None \<Rightarrow> Inl (str ''bad address'')
        | Some (h, p) \<Rightarrow> (case Atoi p of None \<Rightarrow> Inl (str ''bad port'') | Some n \<Rightarrow> Inr (h, n))))"

definition echo_client :: "(TLVPack \<Rightarrow> 'c) \<Rightarrow> bytes \<Rightarrow> int \<Rightarrow> (go_error + unit) \<times> 'c app_client" where
  "echo_client tlv h p = Client_AddRouterSlices 2 [push_handler []] (NewClient tlv h p demo_options)"

text \<open>The three sends, up to the first that fails.\<close>

fun echo_sends :: "nat list \<Rightarrow> go_error option list \<Rightarrow> (u32 \<times> bytes) list \<times> go_error option" where
  "echo_sends (i # is) (Some e # ss) = ([(1, ping_text i)], Some e)"
| "echo_sends (i # is) (None # ss) = apfst (Cons (1, ping_text i)) (echo_sends is ss)"
| "echo_sends _ _ = ([], None)"

definition echo_main ::
  "(TLVPack \<Rightarrow> 'c) \<Rightarrow> (bytes \<Rightarrow> (bytes \<times> bytes) option) \<Rightarrow> bytes list \<Rightarrow> go_error option \<Rightarrow> go_error option list \<Rightarrow> bytes option list \<Rightarrow> ended" where
  "echo_main tlv split args err ss ws =
     (case echo_address split args of
        Inl what \<Rightarrow> Fatal what None
      | Inr (h, p) \<Rightarrow>
          (case fst (echo_client tlv h p) of
             Inl e \<Rightarrow> Fatal (str ''register router'') (Some e)
           | Inr _ \<Rightarrow>
               (case err of
                  Some e \<Rightarrow> Fatal (str ''connect'') (Some e)
                | None \<Rightarrow>
                    (case snd (echo_sends [1, 2, 3] ss) of
                       Some e \<Rightarrow> Fatal (str ''send'') (Some e)
                     | None \<Rightarrow>
                         (case echo_check [1, 2, 3] ws of
                            EchoOK \<Rightarrow> Returned
                          | UnexpectedPong d want \<Rightarrow> Fatal (str ''unexpected pong'') None
                          | EchoTimeout \<Rightarrow> Fatal (str ''timeout waiting for pong'') None)))))"

section \<open>Chat room\<close>

definition chat_client :: "(TLVPack \<Rightarrow> 'c) \<Rightarrow> (go_error + unit) \<times> 'c app_client" where
  "chat_client tlv = Client_AddRouterSlices 2 [push_handler []] (NewClient tlv (str ''127.0.0.1'') 8999 demo_options)"

definition chat_text :: "bytes list \<Rightarrow> bytes" where
  "chat_text args = (case args of [] \<Rightarrow> str ''user1'' | nm # _ \<Rightarrow> nm) @ str '': hello everyone''"

text \<open>The last loop; \<^const>\<open>None\<close> is the context that expires.\<close>

fun chat_listen :: "bytes option list \<Rightarrow> bytes list \<times> ended" where
  "chat_listen [] = ([], Waiting)"
| "chat_listen (Some m # rs) = apfst (Cons (str ''recv: '' @ m)) (chat_listen rs)"
| "chat_listen (None # rs) = ([str ''done''], Returned)"

definition chat_main ::
  "(TLVPack \<Rightarrow> 'c) \<Rightarrow> bytes list \<Rightarrow> go_error option \<Rightarrow> go_error option \<Rightarrow> bytes option list \<Rightarrow> bytes list \<times> ended" where
  "chat_main tlv args err err1 rs =
     (case fst (chat_client tlv) of
        Inl e \<Rightarrow> ([], Fatal (str ''register router'') (Some e))
      | Inr _ \<Rightarrow>
          (case err of
             Some e \<Rightarrow> ([], Fatal (str ''connect'') (Some e))
           | None \<Rightarrow>
               (case err1 of
                  Some e \<Rightarrow> ([], Fatal (str ''send'') (Some e))
                | None \<Rightarrow> apfst (Cons (str ''sent: '' @ chat_text args)) (chat_listen rs))))"

section \<open>Around the servers\<close>

text \<open>
  The ring behind the log, and the default logger that writes to the standard stream and to it; \<open>multi\<close> is the writer
  \<^verbatim>\<open>io.MultiWriter\<close> returns.
\<close>

definition demo_ring :: RingBuffer where
  "demo_ring = NewRingBuffer (256 * 1024)"

definition log_to :: "'o \<Rightarrow> 'o \<Rightarrow> ('a, 'o) log_world \<Rightarrow> ('a, 'o) log_world" where
  "log_to stdout multi w =
     (let (l, w') = New stdout \<lparr>Level = 0, JSON = False, AddSource = False, Output = Some multi\<rparr> w in SetDefault (Some l) w')"

text \<open>\<^verbatim>\<open>AttachMetrics\<close>; \<open>failed\<close> is the error of \<^verbatim>\<open>net.Listen\<close>. The program goes on whatever it returns.\<close>

definition attach_metrics :: "go_error option \<Rightarrow> ('c, 'v, 'e, 'f, 'h) Server \<Rightarrow> go_error option \<times> ('c, 'v, 'e, 'f, 'h) Server" where
  "attach_metrics failed s =
     (case failed of Some e \<Rightarrow> (Some e, s) | None \<Rightarrow> attach_store (length (endpoints s)) (attach_listen s))"

definition echo_serving :: "(TLVPack \<Rightarrow> 'c) \<Rightarrow> go_error option \<Rightarrow> go_error + 'c app_server" where
  "echo_serving tlv failed = map_sum id (\<lambda>s. snd (attach_metrics failed s)) (echo_server tlv)"

text \<open>\<open>k\<close> is the server behind its interface, \<open>t\<close> the time, \<open>rb\<close> the ring as the world holds it.\<close>

definition managed :: "Config \<Rightarrow> ('c, 'w) IServer \<Rightarrow> int \<Rightarrow> ('w \<Rightarrow> RingBuffer) \<Rightarrow> ('c, 'w) McpServer" where
  "managed c k t rb = mcp_NewServer k t [Kinz_Mcp.WithConfig (Some c), WithLogRing (Some rb)]"

definition echo_mcp :: "('c, 'w) IServer \<Rightarrow> int \<Rightarrow> ('w \<Rightarrow> RingBuffer) \<Rightarrow> ('c, 'w) McpServer" where
  "echo_mcp k t rb = managed local_config k t rb"

definition bridge_mcp :: "(bytes \<Rightarrow> bytes) \<Rightarrow> ('c, 'w) IServer \<Rightarrow> int \<Rightarrow> ('w \<Rightarrow> RingBuffer) \<Rightarrow> ('c, 'w) McpServer" where
  "bridge_mcp env k t rb = managed (bridge_config env) k t rb"

section \<open>The clients against their servers\<close>

text \<open>What a server sends to connection \<open>c\<close>, and what the program behind a client is given of it.\<close>

definition sends_to :: "u64 \<Rightarrow> app_effect list \<Rightarrow> (u32 \<times> bytes) list" where
  "sends_to c es = concat (map (\<lambda>e. case e of SendTo c' i d \<Rightarrow> if c' = c then [(i, d)] else [] | _ \<Rightarrow> []) es)"

definition pushed :: "app_effect list \<Rightarrow> bytes list" where
  "pushed es = concat (map (\<lambda>e. case e of Push d \<Rightarrow> [d] | _ \<Rightarrow> []) es)"

lemma sends_to_simps [simp]: "sends_to c [] = []" "sends_to c (es @ es') = sends_to c es @ sends_to c es'"
  by (simp_all add: sends_to_def)

lemma pushed_simps [simp]: "pushed [] = []" "pushed (es @ es') = pushed es @ pushed es'"
  by (simp_all add: pushed_def)

lemmas client_setup_defs = NewClient_def demo_options_def Client_AddRouterSlices_def AddRouterSlices_def addSlices_def init_pool_def SetMetrics_def
  NewMsgHandler_def Let_def

text \<open>A client whose routes push: each message it has a route for is given to the program once, in order, and others are dropped.\<close>

definition labels :: "(u32 \<rightharpoonup> bytes) \<Rightarrow> ('c, app_value, app_effect, nat, nat) Client \<Rightarrow> bool" where
  "labels lab c \<longleftrightarrow> globalHandlers (mh (Client.pool c)) = [] \<and> groupRanges (mh (Client.pool c)) = [] \<and>
     apis (mh (Client.pool c)) = (\<lambda>i. map_option (\<lambda>l. [push_handler l]) (lab i))"

lemma auth_client_labels: "labels [msgPong \<mapsto> str ''pong: '', msgNotice \<mapsto> str ''notice: ''] (auth_client tlv)"
  by (auto simp: labels_def auth_client_def client_setup_defs msgPong_def msgNotice_def)

lemma echo_client_labels: "fst (echo_client tlv h p) = Inr ()" "labels [2 \<mapsto> []] (snd (echo_client tlv h p))"
  by (auto simp: labels_def echo_client_def client_setup_defs)

lemma chat_client_labels: "fst (chat_client tlv) = Inr ()" "labels [2 \<mapsto> []] (snd (chat_client tlv))"
  by (auto simp: labels_def chat_client_def client_setup_defs)

lemma push_exec:
  assumes "labels lab c" and "2 \<le> fuel"
  shows "\<exists>h' r tr. Execute ans fuel (mh (Client.pool c)) (NewRequest k (Some (NewMessage i d))) = Some (Ret (h', r, tr)) \<and>
    pushed (effects tr) = (case lab i of None \<Rightarrow> [] | Some l \<Rightarrow> [l @ d])"
proof -
  obtain n where n: "fuel = Suc (Suc n)" using le_Suc_ex [OF assms(2)] by (auto simp: eval_nat_numeral)
  show ?thesis using assms(1)
    by (cases "lab i") (simp_all add: labels_def Execute_def GetMsgID_def registered_def chain_simps n BindRouterSlices_def NewRequest_def
        push_handler_def with_msg_def pushed_def NewMessage_def)
qed

lemma push_run:
  assumes "labels lab c" and "2 \<le> fuel"
  shows "\<exists>es. app_run outer fuel (mh (Client.pool c)) (map (\<lambda>(i, d). (k, NewMessage i d)) ms) = Some es \<and>
    pushed es = concat (map (\<lambda>(i, d). case lab i of None \<Rightarrow> [] | Some l \<Rightarrow> [l @ d]) ms)"
proof (induction ms rule: rev_induct)
  case Nil
  show ?case by (simp add: app_run_def)
next
  case (snoc x ms)
  obtain i d where x: "x = (i, d)" by (cases x)
  from snoc obtain es where es: "app_run outer fuel (mh (Client.pool c)) (map (\<lambda>(i, d). (k, NewMessage i d)) ms) = Some es"
    "pushed es = concat (map (\<lambda>(i, d). case lab i of None \<Rightarrow> [] | Some l \<Rightarrow> [l @ d]) ms)" by blast
  from push_exec [OF assms, of "answer outer es" k i d] obtain h' r tr
    where tr: "Execute (answer outer es) fuel (mh (Client.pool c)) (NewRequest k (Some (NewMessage i d))) = Some (Ret (h', r, tr))"
      "pushed (effects tr) = (case lab i of None \<Rightarrow> [] | Some l \<Rightarrow> [l @ d])" by blast
  then have "app_run outer fuel (mh (Client.pool c)) (map (\<lambda>(i, d). (k, NewMessage i d)) (ms @ [x])) = Some (es @ effects tr)"
    by (simp add: app_run_snoc app_step_def es(1) x)
  then show ?case using es(2) tr(2) x by simp
qed

lemma sends_auth:
  "sends_to c (auth_effects authed c m) =
     (if Id m = msgAuth then [(msgNotice, if Data m = token then str ''authorized'' else str ''bad token'')]
      else if \<not> authed then [(msgNotice, str ''unauthorized'')]
      else if Id m = msgPing then [(msgPong, Data m)] else [])"
  by (auto simp: auth_effects_def sends_to_def)

text \<open>The authentication demo: refused, authorized, echoed.\<close>

lemma auth_demo:
  assumes "auth_server tlv = Inr s" and "3 \<le> fuel"
  shows "\<exists>es es'. app_run outer fuel (mh (Server.pool s)) (map (\<lambda>(l, i, d). (c, NewMessage i d)) auth_script) = Some es \<and>
    app_run outer' fuel (mh (Client.pool (auth_client tlv'))) (map (\<lambda>(i, d). (k, NewMessage i d)) (sends_to c es)) = Some es' \<and>
    auth_main None [None, None, None] (map Some (pushed es')) =
      ([str ''1: notice: unauthorized'', str ''2: notice: authorized'', str ''3: pong: hi'', str ''auth demo OK''], Returned)"
proof -
  let ?run = "app_run outer fuel (mh (Server.pool s))"
  have ids: "msgPing \<noteq> msgAuth" "msgAuth \<noteq> msgPing" by (simp_all add: msgPing_def msgAuth_def)
  have 0: "?run [] = Some []" by (simp add: app_run_def)
  note 1 = auth_next [OF assms 0, of c "NewMessage msgPing (str ''hi'')", unfolded append_Nil]
  note 2 = auth_next [OF assms 1, of c "NewMessage msgAuth (str ''secret'')", unfolded append.simps]
  note 3 = auth_next [OF assms 2, of c "NewMessage msgPing (str ''hi'')", unfolded append.simps]
  have tok: "tokened c [] = False" "tokened c [(c, NewMessage msgPing (str ''hi''))] = False"
    "tokened c [(c, NewMessage msgPing (str ''hi'')), (c, NewMessage msgAuth (str ''secret''))] = True"
    using ids by (auto simp: tokened_def token_def)
  define es where "es = auth_effects False c (NewMessage msgPing (str ''hi'')) @ auth_effects False c (NewMessage msgAuth (str ''secret'')) @
    auth_effects True c (NewMessage msgPing (str ''hi''))"
  have es: "?run (map (\<lambda>(l, i, d). (c, NewMessage i d)) auth_script) = Some es"
    using 3 by (simp only: auth_script_def es_def list.map prod.case tok append_assoc append_Nil)
  have sends: "sends_to c es = [(msgNotice, str ''unauthorized''), (msgNotice, str ''authorized''), (msgPong, str ''hi'')]"
    using ids by (simp add: es_def sends_auth token_def)
  have "msgNotice \<noteq> msgPong" by (simp add: msgNotice_def msgPong_def)
  moreover obtain es' where "app_run outer' fuel (mh (Client.pool (auth_client tlv'))) (map (\<lambda>(i, d). (k, NewMessage i d)) (sends_to c es)) = Some es'"
    "pushed es' = concat (map (\<lambda>(i, d). case [msgPong \<mapsto> str ''pong: '', msgNotice \<mapsto> str ''notice: ''] i of None \<Rightarrow> [] | Some l \<Rightarrow> [l @ d]) (sends_to c es))"
    using push_run [OF auth_client_labels, of fuel outer' tlv' k "sends_to c es"] assms(2) by auto
  ultimately show ?thesis
    using es sends by (intro exI [of _ es] exI [of _ es']) (simp add: auth_main_def auth_script_def waitFor_def str_def)
qed

text \<open>The echo demo: three pongs with the data of the three pings, in their order.\<close>

lemma echo_run:
  assumes "echo_server tlv = Inr s" and "4 \<le> fuel"
  shows "\<exists>es. app_run outer fuel (mh (Server.pool s)) (map (\<lambda>d. (c, NewMessage 1 d)) ds) = Some es \<and> sends_to c es = map (Pair 2) ds"
proof (induction ds rule: rev_induct)
  case Nil
  show ?case by (simp add: app_run_def)
next
  case (snoc d ds)
  then obtain es where es: "app_run outer fuel (mh (Server.pool s)) (map (\<lambda>d. (c, NewMessage 1 d)) ds) = Some es" "sends_to c es = map (Pair 2) ds"
    by blast
  from echo_exec [OF assms, of "NewMessage 1 d" "answer outer es" c] obtain h' r tr ok
    where tr: "Execute (answer outer es) fuel (mh (Server.pool s)) (NewRequest c (Some (NewMessage 1 d))) = Some (Ret (h', r, tr))"
      "effects tr = [RemoteAddr c, Logged (str ''message received''), Now, Logged (str ''echo''), SendTo c 2 d] @
        (if ok then [] else [Logged (str ''send pong failed'')]) @ [Now, Logged (str ''handled'')]" by auto
  from tr(1) have "app_run outer fuel (mh (Server.pool s)) (map (\<lambda>d. (c, NewMessage 1 d)) (ds @ [d])) = Some (es @ effects tr)"
    by (simp add: app_run_snoc app_step_def es(1))
  moreover have "sends_to c (effects tr) = [(2, d)]" by (simp add: tr(2) sends_to_def)
  ultimately show ?case using es(2) by simp
qed

lemma echo_demo:
  assumes "echo_server tlv = Inr s" and "4 \<le> fuel"
  shows "\<exists>es es'. app_run outer fuel (mh (Server.pool s)) (map (\<lambda>(i, d). (c, NewMessage i d)) (fst (echo_sends [1, 2, 3] [None, None, None]))) = Some es \<and>
    app_run outer' fuel (mh (Client.pool (snd (echo_client tlv' h p)))) (map (\<lambda>(i, d). (k, NewMessage i d)) (sends_to c es)) = Some es' \<and>
    echo_main tlv' split [] None [None, None, None] (map Some (pushed es')) = Returned"
proof -
  let ?ds = "map ping_text [1, 2, 3]"
  obtain es where es: "app_run outer fuel (mh (Server.pool s)) (map (\<lambda>d. (c, NewMessage 1 d)) ?ds) = Some es" "sends_to c es = map (Pair 2) ?ds"
    using echo_run [OF assms, of outer c ?ds] by blast
  obtain es' where es': "app_run outer' fuel (mh (Client.pool (snd (echo_client tlv' h p)))) (map (\<lambda>(i, d). (k, NewMessage i d)) (sends_to c es)) = Some es'"
    "pushed es' = concat (map (\<lambda>(i, d). case [2 \<mapsto> []] i of None \<Rightarrow> [] | Some l \<Rightarrow> [l @ d]) (sends_to c es))"
    using push_run [OF echo_client_labels(2), of fuel outer' tlv' h p k "sends_to c es"] assms(2) by auto
  then have "pushed es' = ?ds" by (simp add: es(2))
  then have "echo_check [1, 2, 3] (map Some (pushed es')) = EchoOK" by (simp only: echo_check_ok) simp
  then show ?thesis using es es'(1) by (intro exI [of _ es] exI [of _ es']) (simp add: echo_main_def echo_address_def echo_client_labels(1))
qed

text \<open>The chat client prints every broadcast it receives until its context expires, in order.\<close>

lemma chat_listen_all: "chat_listen (map Some ms @ None # rs) = (map (\<lambda>m. str ''recv: '' @ m) ms @ [str ''done''], Returned)"
  by (induction ms) simp_all

text \<open>After the setup, what the program logs at the level of information or above is written to the ring's writer.\<close>

lemma log_to_ring:
  assumes "0 \<le> severity c"
  shows "\<exists>w'. on_default (run_log_call format sprintf c) (log_to stdout multi w) = Ret w' \<and>
    emitted w' multi = emitted w multi @
      [format False False \<lparr>rlevel = severity c, rmsg = fst (message sprintf c), rattrs = snd (message sprintf c)\<rparr>]"
  using assms by (simp add: log_to_def New_def SetDefault_def on_default_def run_log_call_eq Let_def)

text \<open>The tools of the management server read that ring.\<close>

lemma managed_ring: "ring (managed c k t rb) = Some rb" "McpServer.cfg (managed c k t rb) = Some c" "authorize (managed c k t rb) m = None"
  by (simp_all add: managed_def mcp_NewServer_def Kinz_Mcp.WithConfig_def WithLogRing_def authorize_def)

end
