(* ===== verification/Spec2Isabelle.thy ===== *)
theory Spec2Isabelle
  imports Kinz_Ring Kinz_Pool Kinz_Sessions Kinz_Finishing Kinz_Ticker Kinz_Metrics Kinz_Demos
begin

text \<open>
  Verification of the Kinz TCP framework, a Go library for message-oriented servers and clients. This theory imports the
  whole development and holds the properties that span components.

  The program. A server accepts sockets (\<^verbatim>\<open>knet/server.go\<close>), wraps each in a connection (\<^verbatim>\<open>knet/connection.go\<close>) with a
  reader and a writer goroutine, and registers it with the connection manager (\<^verbatim>\<open>knet/connmanager.go\<close>). The reader cuts
  the byte stream into messages with the codec (\<^verbatim>\<open>knet/datapack.go\<close>) and hands each, as a request (\<^verbatim>\<open>knet/request.go\<close>), to
  the message handler (\<^verbatim>\<open>knet/msgHandler.go\<close>), whose workers run the chain of handlers registered for the message id.
  Senders pack messages and queue them for the writer. A heartbeat checker per connection (\<^verbatim>\<open>knet/heartbeat.go\<close>) watches
  for silent peers. A client (\<^verbatim>\<open>knet/client.go\<close>) keeps one such connection alive by redialling. Configuration
  (\<^verbatim>\<open>kconf\<close>), metrics (\<^verbatim>\<open>kmetrics\<close>, \<^verbatim>\<open>knet/metrics.go\<close>), the log ring (\<^verbatim>\<open>klog/ringbuffer.go\<close>), the buffer pool
  (\<^verbatim>\<open>kpool\<close>) and the MCP management server (\<^verbatim>\<open>kmcp\<close>) stand around this core.

  The theories, with what they model and show:

  \<^item> \<open>Kinz_Prelude\<close>: machine types, decimal text, the errors of \<^verbatim>\<open>kiface/errors.go\<close>, panics as outcomes, theorem
    collections. \<open>Kinz_Float\<close>: IEEE double rounding on rationals, with the locale \<open>rounding\<close> of what computations rely
    on. \<open>Kinz_Chan\<close>: Go channels.

  \<^item> \<open>Kinz_Codec\<close>: \<^verbatim>\<open>TLVPack\<close> and \<^verbatim>\<open>Message\<close>. Delivery over any chunking, independence of the chunking also for malformed
    streams, conservation of bytes, the buffer bound, oversized frames. The locale \<open>stream_codec\<close>, interpreted as \<open>tlv\<close>, is
    what connections rely on.

  \<^item> \<open>Kinz_Request\<close>: \<^verbatim>\<open>Request\<close> and handler chains; handlers are trees of the calls they make. Chains end, run in order, and
    stop at \<^verbatim>\<open>Abort\<close>. \<open>Kinz_Router\<close>: registration, groups, middleware and \<^verbatim>\<open>Execute\<close>; onion order, containment of panics, the
    first registration wins.

  \<^item> \<open>Kinz_Workers\<close>: the worker pool as a step relation over its queues. Per-connection order in every interleaving, nothing
    lost by a graceful stop, progress of the shutdown.

  \<^item> \<open>Kinz_ConnManager\<close> (locale \<open>conn_registry\<close>, interpreted as \<open>cmgr\<close>): the connection limit, lookups, clearing.
    \<open>Kinz_Pool\<close> (locale \<open>buffer_pool\<close>): size classes and safe reuse over any history of calls. \<open>Kinz_Heartbeat\<close> (locale \<open>idempotent_service\<close>): start and
    stop with their quit channels, the loop goroutines, templates, clones, ticks. \<open>Kinz_Ticker\<close>: a checker by itself, started
    and stopped at will.

  \<^item> \<open>Kinz_Connection\<close>: every goroutine and method of \<^verbatim>\<open>Connection\<close> as atomic actions on one state record, interleaved by
    \<open>conn_step\<close> with the loop of its heartbeat checker, and its invariant. \<open>Kinz_Lifecycle\<close>: its properties; the cleanup runs
    once, after it no heartbeat loop is launched and the one there is can return,
    \<^verbatim>\<open>Stop\<close> waits, shutdown ends, both directions deliver in order, counters are exact, dead peers are reported.

  \<^item> \<open>Kinz_Server\<close>: the whole server, its options, setters, \<^verbatim>\<open>Run\<close>, accept loop, admission, rejection, metrics endpoint, \<^verbatim>\<open>Shutdown\<close>
    and draining goroutine. Its state holds the connections of \<open>Kinz_Connection\<close> and the pool of \<open>Kinz_Workers\<close> themselves, and
    \<open>server_step\<close> interleaves everything: \<open>run_action\<close>, \<open>accept_action\<close>, \<open>shutdown_action\<close> and \<open>drain_action\<close> cut the
    goroutines of \<^verbatim>\<open>server.go\<close> at their shared accesses, \<open>hosted_step\<close> lets a connection move and act on its host,
    \<open>pool_serve\<close> the workers, \<open>call_step\<close> the application. \<open>Kinz_Serving\<close>: the invariant of these interleavings.
    \<open>Kinz_Scenario\<close>: a scheduler for concrete runs, and runs that go wrong. \<open>Kinz_Draining\<close>: exact admission, a shutdown
    stops every connection and loses no request (locale \<open>stop_goal\<close>, interpreted for two properties of connections), the
    frame for a rejected peer, and calls at the wrong time. \<open>Kinz_Finishing\<close>: from every state of a shutdown the goroutines
    of the program alone can bring it to its return; the steps that need nobody outside are \<open>system_step\<close>.

  \<^item> \<open>Kinz_Host\<close>: what the server and the client have in common as hosts of connections (\<^verbatim>\<open>knet/connhost.go\<close>): which readers are
    in the pool, and that a pool is fed with what the readers have handed on. The locale \<open>conn_host\<close> has the laws of a host, and
    \<open>tlv_host\<close> extends it to hosts whose connections use the codec; both are interpreted for the server in \<open>Kinz_Serving\<close> and
    for the client in \<open>Kinz_Sessions\<close>.

  \<^item> \<open>Kinz_Client\<close>: backoff in \<^verbatim>\<open>float64\<close>, and the life of a client, the goroutines of start, stop and reconnection over
    connections seen from outside. \<open>Kinz_ClientState\<close>: the whole client, with options, setters, hooks, heartbeat template,
    handler and \<^verbatim>\<open>Restart\<close>; its state holds the connections and the pool themselves, and \<open>client_run\<close> interleaves everything.
    \<open>Kinz_ClientRuns\<close>: every step of it is a step of that life or leaves it unchanged, and the invariant of these interleavings.
    \<open>Kinz_Sessions\<close>: one connection at a time, nothing runs after a stop, hooks are called once, and a gauge that does not come
    back to zero.

  \<^item> \<open>Kinz_Logger\<close>: the wrapper methods, levels, derived loggers and the package default over what they use of \<^verbatim>\<open>log/slog\<close>, whose
    loggers and handlers are a group of definitions of their own. \<open>Kinz_Examples\<close>: the
    handlers and servers of the example programs; the authentication example serves nobody without the token.
    \<open>Kinz_Demos\<close>: their clients' \<^verbatim>\<open>main\<close> functions, run against their servers, and the logging and management around the servers.

  \<^item> \<open>Kinz_Config\<close>: the loading chain with Go's number and duration parsers; its result is given by a closed formula, printed
    configurations are read back. \<open>Kinz_Metrics\<close> (locale \<open>get_or_create\<close>, interpreted for counters, gauges
    and histograms): one handle per kind and name under any overlap of callers, and which calls panic; the framework's
    handles, snapshots.
    \<open>Kinz_Mcp\<close>: tools, resources, arguments and authorization.

  \<^item> This theory: messages accepted by \<^verbatim>\<open>SendMsg\<close> at a client or a server are executed in order at the other end; logged lines are read back
    through the tools; a configuration that is accepted and cannot be used.

  Conventions. Go's \<^verbatim>\<open>int\<close> and durations are \<^typ>\<open>int\<close> with \<^const>\<open>wrap64\<close> where they can leave the range; unsigned integers
  are words; strings are bytes; a panic is \<^const>\<open>Panic\<close>; a mutex-protected method is one function, and code that runs outside
  a lock is cut at its shared accesses, the updates of the counters among them. Taken together are only an access and what the same
  goroutine does around it before anybody else can tell: the reader's \<^verbatim>\<open>Read\<close> with the timestamp and the byte counter that
  follow, its message counter with the call that hands the message on, and what \<^verbatim>\<open>check\<close> loads of a heartbeat checker with its
  question to \<^verbatim>\<open>IsAlive\<close>. Maps whose iteration order Go leaves open come with an order parameter.

  Fuel and bounds. Only \<open>Execute\<close> and the chain walk take fuel, since a handler may rebind its chain for ever;
  \<open>chain_walk\<close> shows that chains which are not rebound end, with a bound on the fuel. Ids of connections are 64-bit
  counters; the server's step relation stops before the counter wraps, after \<open>2 ^ 64\<close> accepted sockets, and the client's likewise.
  Backoff bounds are for durations up to \<open>2 ^ 53\<close> nanoseconds, where doubles
  are exact.

  Parameters. The transport decides what is read and whether a dial or bind succeeds; \<^verbatim>\<open>sync.Pool\<close> decides what it gives
  back; handlers are call trees whose questions to the rest of the program are answered by a parameter; the YAML,
  Prometheus and MCP libraries, JSON encoding, the format of a log record and \<^verbatim>\<open>fmt.Sprintf\<close> are arguments of the definitions
  that use them, with documented behaviour as hypotheses where a property needs it (\<open>register_law\<close>).

  Not modelled: TLS beyond the flag that turns it on, the HTTP server behind a metrics socket and the MCP transports (I/O of
  libraries), the signals and log lines of the example programs and the lines their echo client prints, and which order a fair
  scheduler picks: liveness is stated as progress with a decreasing measure, or as a run of the program's own goroutines that
  exists from every reachable state. A handler is a tree of calls, each of which returns; one that
  blocks for ever is outside of these statements, and so is a callback of the heartbeat checker that does. So is an application that itself replaces the heartbeat checker of a connection:
  \<^verbatim>\<open>SetHeartBeat\<close> is modelled where the program calls it, in \<^verbatim>\<open>Start\<close> through \<^verbatim>\<open>BindConn\<close>.
\<close>

section \<open>From one end to the other\<close>

text \<open>
  C1: End-to-end order, both ways. Take a whole server and a whole client, each in any interleaving of its goroutines: accept
  loop or redials, connections, workers, setters, shutdown. If both gave the two ends of a socket, \<open>i\<close> at the server and \<open>k\<close> at
  the client, a clone of the same codec configuration, and each end has read a prefix of the bytes the other has written, cut
  in any way, then what a worker of the server has executed of that connection is an initial segment of the messages that
  \<^verbatim>\<open>SendMsg\<close> accepted at the client, in the order of acceptance, and what a worker of the client has executed is an initial
  segment of what \<^verbatim>\<open>SendMsg\<close> accepted at the server: nothing is lost in between, duplicated, changed or overtaken.
\<close>

theorem end_to_end_order:
  assumes "server_reachable Decode Pack Clone tlv s" and "client_runs Decode Pack Clone tlv' c"
    and "Server.conns s i = Some a" and "Server.cloned s i = Some (Clone cod)"
    and "Client.conns c k = Some b" and "Client.cloned c k = Some (Clone cod)"
    and "\<forall>(m, w) \<in> set (accepted a @ accepted b). tlv_sendable (tlv_conf cod) m"
    and "prefix (concat (rcvd a)) (written b)" and "prefix (concat (rcvd b)) (written a)"
    and "p < length (executed (Server.pool s))" and "q < length (executed (Client.pool c))"
  shows "prefix (of_conn i (executed (Server.pool s) ! p)) (map (\<lambda>(m, w). NewRequest i (Some (tlv_received (tlv_conf cod) m))) (accepted b)) \<and>
         prefix (of_conn k (executed (Client.pool c) ! q)) (map (\<lambda>(m, w). NewRequest k (Some (tlv_received (tlv_conf cod) m))) (accepted a))"
proof -
  have clone: "Clone (Clone cod) = Clone cod" "tlv_conf (Clone cod) = tlv_conf cod" by (simp_all add: Clone_def tlv_conf_def)
  have ends: "conn_reachable Decode Pack (Clone cod) a" "conn_reachable Decode Pack (Clone cod) b"
    by (rule server_host.hosted_with [OF assms(1,3,4)], rule client_host.hosted_with [OF assms(2,5,6)])
  have ok: "\<forall>(m, w) \<in> set (accepted a). tlv_sendable (tlv_conf cod) m" "\<forall>(m, w) \<in> set (accepted b). tlv_sendable (tlv_conf cod) m"
    using assms(7) by auto
  from tlv_server.relayed [OF ends(2) assms(1,3), unfolded clone, OF assms(4) ok(2) assms(8,10)]
    tlv_client.relayed [OF ends(1) assms(2,5), unfolded clone, OF assms(6) ok(1) assms(9,11)]
  show ?thesis ..
qed

text \<open>The client of the schedules, with a reply to its message.\<close>

abbreviation ask_one :: "client_move list" where
  "ask_one \<equiv> one_life @ map (ClientConn 1) [CheckSend 7 [], SelectSend 0, TakeWire, PutWire, ReadData [0, 0, 0, 0, 9, 0, 0, 0]] @
     [ClientHand 1, ClientCommit, ClientWork 1]"

abbreviation answer_one :: "move list" where
  "answer_one \<equiv> serve_one @ map (ConnMove 1) [CheckSend 9 [], SelectSend 0, TakeWire, PutWire]"

abbreviation nine :: "(nat, nat) Request" where
  "nine \<equiv> NewRequest 1 (Some \<lparr>Id = 9, DataLen = 0, Data = [], Raw = [0, 0, 0, 0, 9, 0, 0, 0]\<rparr>)"

lemma answer_one_run:
  "\<exists>s a. run_moves answer_one demo_server = Some s \<and> Server.conns s 1 = Some a \<and> Server.cloned s 1 = Some (Clone NewTLVPack) \<and>
     rcvd a = [[0, 0, 0, 0, 7, 0, 0, 0]] \<and> written a = [0, 0, 0, 0, 9, 0, 0, 0] \<and> accepted a = [(NewMessage 9 [], [0, 0, 0, 0, 9, 0, 0, 0])] \<and>
     executed (Server.pool s) = [[seven]]"
  by (simp add: move_defs send_defs defaultMaxPacketSize_def)

lemma ask_one_run:
  "\<exists>c b. run_client_moves ask_one demo_client = Some c \<and> Client.conns c 1 = Some b \<and> Client.cloned c 1 = Some (Clone NewTLVPack) \<and>
     rcvd b = [[0, 0, 0, 0, 9, 0, 0, 0]] \<and> written b = [0, 0, 0, 0, 7, 0, 0, 0] \<and> accepted b = [(NewMessage 7 [], [0, 0, 0, 0, 7, 0, 0, 0])] \<and>
     1 < length (executed (Client.pool c)) \<and> executed (Client.pool c) ! 1 = [nine]"
  by (simp add: client_move_defs read_run_defs work_run_defs send_defs defaultMaxPacketSize_def)

theorem end_to_end_order_witness:
  "\<exists>s c a b. run_moves answer_one demo_server = Some s \<and> run_client_moves ask_one demo_client = Some c \<and>
     Server.conns s 1 = Some a \<and> Client.conns c 1 = Some b \<and> executed (Server.pool s) = [[seven]] \<and> executed (Client.pool c) ! 1 = [nine] \<and>
     prefix (of_conn 1 [seven]) (map (\<lambda>(m, w). NewRequest 1 (Some (tlv_received (tlv_conf NewTLVPack) m))) (accepted b)) \<and>
     prefix (of_conn 1 [nine]) (map (\<lambda>(m, w). NewRequest 1 (Some (tlv_received (tlv_conf NewTLVPack) m))) (accepted a))"
proof -
  obtain s a where s: "run_moves answer_one demo_server = Some s" "Server.conns s 1 = Some a" "Server.cloned s 1 = Some (Clone NewTLVPack)"
    "rcvd a = [[0, 0, 0, 0, 7, 0, 0, 0]]" "written a = [0, 0, 0, 0, 9, 0, 0, 0]" "accepted a = [(NewMessage 9 [], [0, 0, 0, 0, 9, 0, 0, 0])]"
    "executed (Server.pool s) = [[seven]]" using answer_one_run by blast
  obtain c b where c: "run_client_moves ask_one demo_client = Some c" "Client.conns c 1 = Some b" "Client.cloned c 1 = Some (Clone NewTLVPack)"
    "rcvd b = [[0, 0, 0, 0, 9, 0, 0, 0]]" "written b = [0, 0, 0, 0, 7, 0, 0, 0]" "accepted b = [(NewMessage 7 [], [0, 0, 0, 0, 7, 0, 0, 0])]"
    "1 < length (executed (Client.pool c))" "executed (Client.pool c) ! 1 = [nine]" using ask_one_run by blast
  have ok: "\<forall>(m, w) \<in> set (accepted a @ accepted b). tlv_sendable (tlv_conf NewTLVPack) m"
    by (simp add: s(6) c(6) tlv_conf_def NewMessage_def NewTLVPack_def NewTLVPackWithOrder_def defaultMaxPacketSize_def)
  from end_to_end_order [OF demo_server_reachable [OF s(1)] demo_client_runs [OF c(1)] s(2,3) c(2,3) ok, of 0 1]
  show ?thesis using s c by simp
qed

section \<open>Logs through the tools\<close>

text \<open>
  C24: What is logged can be read back through the MCP server. When the lines of a log, free of newlines, were written to the
  shared ring buffer and fit it, an authorized \<^verbatim>\<open>get_logs\<close> call for \<open>n\<close> lines returns exactly the last \<open>n\<close> of them, in order and
  empty lines included (the comment on \<^verbatim>\<open>Lines\<close> promises the non-empty ones only), or the nil slice when nothing was logged, and
  leaves the server alone.
\<close>

theorem logs_read_back:
  fixes s :: "('c, 'w) McpServer"
  assumes "\<forall>l \<in> set ls. 10 \<notin> set l" and "length (concat (map (\<lambda>l. l @ [10]) ls)) \<le> cap (NewRingBuffer c)"
    and "ring s = Some (\<lambda>w. fold (\<lambda>p r. snd (Write p r)) (map (\<lambda>l. l @ [10]) ls) (NewRingBuffer c))"
    and "authorize s (str ''tools/call'') = None" and "m (str ''lines'') = Some (ArgFloat64 (of_nat n))" and "0 < n" and "n < 2 ^ 63"
  shows "wrapTool encode s (get_logs wild s) (Some m) w =
    (Ret (Reply (textResult (encode (VLogs (if ls = [] then None else Some (keep_last n ls)))) False)), w)"
proof -
  let ?r = "fold (\<lambda>p r. snd (Write p r)) (map (\<lambda>l. l @ [10]) ls) (NewRingBuffer c)"
  have "Bytes ?r = concat (map (\<lambda>l. l @ [10]) ls)"
    using ring.write_list_contents [OF ring_inv_New] assms(2) by simp
  then have lines: "log_lines (Bytes ?r) = ls" "Bytes ?r = [] \<longleftrightarrow> ls = []" using log_lines_lines [OF assms(1)] by auto
  have k: "argUint wild (Some m) (str ''lines'') = Some (of_nat n)" using assms(5,7) by (intro argUint_nat) simp_all
  have "sint (of_nat n :: u64) = int n"
    using assms(7) by (simp add: signed_of_nat signed_take_bit_int_eq_self)
  then show ?thesis
    using assms(3,4,6) k lines by (simp add: wrapTool_def get_logs_def toolGetLogs_Ret)
qed

theorem logs_read_back_witness:
  "wrapTool (\<lambda>v. case v of VLogs (Some ls) \<Rightarrow> 91 # concat ls | _ \<Rightarrow> [])
     (mcp_NewServer two_conns 0 [WithLogRing (Some (\<lambda>w. fold (\<lambda>p r. snd (Write p r)) (map (\<lambda>l. l @ [10]) [[65], [], [67]]) (NewRingBuffer 8)))])
     (get_logs (\<lambda>_. 0) (mcp_NewServer two_conns 0 [WithLogRing (Some (\<lambda>w. fold (\<lambda>p r. snd (Write p r)) (map (\<lambda>l. l @ [10]) [[65], [], [67]]) (NewRingBuffer 8)))]))
     (Some [str ''lines'' \<mapsto> ArgFloat64 (of_nat 2)]) [] =
   (Ret (Reply (textResult [91, 67] False)), [])"
  using logs_read_back [of "[[65], [], [67]]" 8
      "mcp_NewServer two_conns 0 [WithLogRing (Some (\<lambda>w. fold (\<lambda>p r. snd (Write p r)) (map (\<lambda>l. l @ [10]) [[65], [], [67]]) (NewRingBuffer 8)))]"
      "[str ''lines'' \<mapsto> ArgFloat64 (of_nat 2)]" 2 "\<lambda>v. case v of VLogs (Some ls) \<Rightarrow> 91 # concat ls | _ \<Rightarrow> []" "\<lambda>_. 0" "[]"]
  by (simp add: NewRingBuffer_def mcp_NewServer_def WithLogRing_def authorize_def keep_last_def)

section \<open>A configuration the connections cannot use\<close>

text \<open>
  The environment layer accepts a negative write queue size, and every connection made with that configuration panics:
  \<^verbatim>\<open>make(chan []byte, -1)\<close>.
\<close>

lemma negative_queue_size:
  "\<exists>cfg. applyEnv [str ''KINZ_WRITEQUEUESIZE'' \<mapsto> str ''-1''] Default = Inr cfg \<and>
     NewConnection i cod (WriteQueueSize cfg) (WriteTimeout cfg) counting now = Panic"
  by (simp add: applyEnv_def env_field_def NewConnection_def str_def ParseUint_def is_digit_def digits_val_def digit_val_def)

end
